(* ===== verification/Prelude.thy ===== *)
theory Prelude
  imports Main "HOL-Library.Word"
begin

text \<open>
  What the components share: the machine types of the library, interval tilings (the vocabulary
  of every \<open>spread_the_sweat\<close> splitting), sums of a weight over a finite population of threads
  (the vocabulary of every concurrent invariant), facts on unsigned words, and the locale of a
  state machine with an inductive invariant.
\<close>

section \<open>Machine types\<close>

text \<open>
  \<open>iterations_t\<close> is \<open>std::uint32_t\<close>. \<open>hardware_concurrency_t\<close> is \<open>std::uint8_t\<close> or
  \<open>std::uint16_t\<close> by platform (threading/hardware_concurrency.hpp), so definitions that use it
  are polymorphic in its width \<open>'h\<close>.
\<close>

type_synonym iterations_t = "32 word"
type_synonym piece = "iterations_t \<times> iterations_t"
type_synonym tid = nat

named_theorems tiling_intros \<open>introduction rules for tilings\<close>
named_theorems word_nat \<open>unsigned words as natural numbers\<close>

section \<open>Words as natural numbers\<close>

lemma unat_add_small:
  "unat (a :: 'a::len word) + unat b < 2 ^ LENGTH('a) \<Longrightarrow> unat (a + b) = unat a + unat b"
  by (simp add: unat_word_ariths)

lemma unat_mult_small:
  "unat (a :: 'a::len word) * unat b < 2 ^ LENGTH('a) \<Longrightarrow> unat (a * b) = unat a * unat b"
  by (simp add: unat_word_ariths)

lemma unat_lt2p: "unat (w :: 'a::len word) < 2 ^ LENGTH('a)"
  by (rule unsigned_less)

lemma unat_div_eq [word_nat]: "unat (a div b :: 'a::len word) = unat a div unat b"
  by (simp add: unat_div_distrib)

lemma unat_mod_eq [word_nat]: "unat (a mod b :: 'a::len word) = unat a mod unat b"
  by (simp add: unat_mod_distrib)

lemma unat_min [word_nat]: "unat (min a b :: 'a::len word) = min (unat a) (unat b)"
  by (simp add: min_def word_le_nat_alt)

lemma unat_max [word_nat]: "unat (max a b :: 'a::len word) = max (unat a) (unat b)"
  by (simp add: max_def word_le_nat_alt)

lemma unat_lt_iff [word_nat]: "(a :: 'a::len word) < b \<longleftrightarrow> unat a < unat b"
  by (rule word_less_nat_alt)

lemma unat_le_iff [word_nat]: "(a :: 'a::len word) \<le> b \<longleftrightarrow> unat a \<le> unat b"
  by (rule word_le_nat_alt)

lemma unat_eq_iff [word_nat]: "(a :: 'a::len word) = b \<longleftrightarrow> unat a = unat b"
  by (rule word_unat_eq_iff)

lemma unat_sub_le: "unat b \<le> unat a \<Longrightarrow> unat (a - b :: 'a::len word) = unat a - unat b"
  by (simp add: unat_sub word_le_nat_alt)

lemma unat_inc_below: "(i :: 'a::len word) < n \<Longrightarrow> unat (i + 1) = unat i + 1"
  using unat_lt2p [of n] by (subst unat_add_small) (auto simp: word_less_nat_alt intro: le_less_trans [OF Suc_leI])

lemma unat_of_bool [simp]: "unat (of_bool P :: 'a::len word) = of_bool P"
  by simp

lemma unat_of_nat_small: "n < 2 ^ LENGTH('a) \<Longrightarrow> unat (of_nat n :: 'a::len word) = n"
  by (simp add: unat_of_nat take_bit_nat_eq_self)

lemma unat_ucast_small:
  "unat (w :: 'a::len word) < 2 ^ LENGTH('b) \<Longrightarrow> unat (ucast w :: 'b::len word) = unat w"
  by (simp add: unsigned_ucast_eq take_bit_nat_eq_self)

lemma unat_ucast_widen:
  assumes "LENGTH('a) \<le> LENGTH('b)"
  shows "unat (ucast (w :: 'a::len word) :: 'b::len word) = unat w"
proof -
  have "unat w < 2 ^ LENGTH('a)" by simp
  also have "\<dots> \<le> (2::nat) ^ LENGTH('b)" using assms by simp
  finally show ?thesis by (rule unat_ucast_small)
qed

text \<open>Signed and unsigned readings in \<open>int\<close>.\<close>

lemma sint_add_small:
  assumes "- (2 ^ (LENGTH('a) - 1)) \<le> sint (a :: 'a::len word) + sint b"
    and "sint a + sint b < 2 ^ (LENGTH('a) - 1)"
  shows "sint (a + b) = sint a + sint b"
  using assms by (simp add: sint_word_ariths signed_take_bit_int_eq_self)

lemma sint_minus_1:
  assumes "- (2 ^ 31) < sint (a :: 32 word)"
  shows "sint (a - 1) = sint a - 1"
proof -
  have "sint a < 2 ^ 31" using sint_lt [of a] by simp
  with assms show ?thesis by (simp add: sint_word_ariths signed_take_bit_int_eq_self)
qed

lemma uint_plus_small:
  "uint (a :: 'a::len word) + uint b < 2 ^ LENGTH('a) \<Longrightarrow> uint (a + b) = uint a + uint b"
  by (simp add: uint_word_ariths)

lemma uint_minus_1: "0 < (a :: 'a::len word) \<Longrightarrow> uint (a - 1) = uint a - 1"
  using uint_sub_if' [of a 1] by (simp add: word_less_alt)

lemma uint_ucast_widen:
  "LENGTH('a) \<le> LENGTH('b) \<Longrightarrow> uint (ucast (w :: 'a::len word) :: 'b::len word) = uint w"
  by (simp only: uint_nat unat_ucast_widen)

lemma sint_ucast_small:
  assumes "LENGTH('a) \<le> 16"
  shows "sint (ucast (w :: 'a::len word) :: 32 word) = int (unat w)"
proof -
  define k where "k = unat w"
  have "k < 2 ^ 16"
    using unat_lt2p [of w] assms unfolding k_def
    by (meson less_le_trans one_le_numeral power_increasing)
  moreover have "uint (ucast w :: 32 word) = int k"
    using assms unfolding k_def by (simp only: uint_nat, subst unat_ucast_widen) simp_all
  ultimately show ?thesis
    unfolding k_def [symmetric] by (simp only: sint_uint) (subst signed_take_bit_int_eq_self; simp)
qed

lemma uint_neg_small: "sint (a :: 32 word) < 0 \<Longrightarrow> uint (- a) = - sint a"
proof -
  assume neg: "sint a < 0"
  have "- (2 ^ 31) \<le> sint a" using sint_ge [of a] by simp
  moreover have "uint (- a) = (- sint a) mod 2 ^ 32"
  proof -
    have "- a = word_of_int (- sint a)" by simp
    then show ?thesis by (simp only: uint_word_of_int) simp
  qed
  ultimately show ?thesis using neg by simp
qed

text \<open>The two casts of the semaphores: a count added to the value word, and a deficit read from it.\<close>

lemma value_add_small:
  assumes "- (2 ^ 31) \<le> sint (v :: 32 word)" "sint v < 2 ^ 31 - 2 ^ 16" "LENGTH('h::len) \<le> 16"
  shows "sint (v + ucast (count :: 'h word)) = sint v + int (unat count)"
proof -
  have "unat count < 2 ^ 16"
    using unat_lt2p [of count] assms(3) by (meson less_le_trans one_le_numeral power_increasing)
  moreover define k where "k = unat count"
  ultimately have k: "k < 2 ^ 16" "sint (ucast count :: 32 word) = int k"
    by (simp_all only: sint_ucast_small [OF assms(3)])
  with assms(1,2) show ?thesis
    unfolding k_def [symmetric] by (subst sint_add_small; simp only: k; simp)
qed

lemma deficit_cast:
  assumes "- sint (v :: 32 word) < 2 ^ LENGTH('h::len)" "sint v \<le> 0"
  shows "int (unat (ucast (- v) :: 'h word)) = - sint v"
proof (cases "sint v = 0")
  case True
  then have "v = 0" by (simp only: signed_eq_0_iff)
  then show ?thesis by simp
next
  case False
  then have u: "uint (- v) = - sint v" using assms(2) by (intro uint_neg_small) simp
  then have "unat (- v) < 2 ^ LENGTH('h)"
    using assms(1) by (simp add: unat_eq_nat_uint nat_less_iff)
  then show ?thesis using u by (simp only: unat_ucast_small) simp
qed

section \<open>Tilings of an interval\<close>

text \<open>\<open>tiles lo ps hi\<close>: the pieces are non-empty, adjacent, and go from \<open>lo\<close> to \<open>hi\<close>.\<close>

fun tiles :: "nat \<Rightarrow> (nat \<times> nat) list \<Rightarrow> nat \<Rightarrow> bool" where
  "tiles lo [] hi = (lo = hi)"
| "tiles lo ((a, b) # ps) hi = (a = lo \<and> a < b \<and> tiles b ps hi)"

definition as_nats :: "piece list \<Rightarrow> (nat \<times> nat) list" where
  "as_nats ps = map (\<lambda>(a, b). (unat a, unat b)) ps"

lemma as_nats_Nil [simp]: "as_nats [] = []"
  and as_nats_Cons [simp]: "as_nats ((a, b) # ps) = (unat a, unat b) # as_nats ps"
  and as_nats_append [simp]: "as_nats (ps @ qs) = as_nats ps @ as_nats qs"
  and length_as_nats [simp]: "length (as_nats ps) = length ps"
  by (simp_all add: as_nats_def)

lemma tiles_le: "tiles lo ps hi \<Longrightarrow> lo \<le> hi"
  by (induction lo ps hi rule: tiles.induct) auto

lemma tiles_append [simp]:
  "tiles lo (ps @ qs) hi \<longleftrightarrow> (\<exists>m. tiles lo ps m \<and> tiles m qs hi)"
  by (induction ps arbitrary: lo) auto

lemma tiles_appendI [tiling_intros]:
  "tiles lo ps m \<Longrightarrow> tiles m qs hi \<Longrightarrow> tiles lo (ps @ qs) hi"
  by auto

lemma tiles_concat: "tiles lo ps hi \<Longrightarrow> concat (map (\<lambda>(a, b). [a..<b]) ps) = [lo..<hi]"
proof (induction lo ps hi rule: tiles.induct)
  case (2 lo a b ps hi)
  then show ?case
    using tiles_le [of b ps hi] upt_add_eq_append [of a b "hi - b"] by simp
qed simp

lemma tiles_pieces: "tiles lo ps hi \<Longrightarrow> (a, b) \<in> set ps \<Longrightarrow> lo \<le> a \<and> a < b \<and> b \<le> hi"
proof (induction lo ps hi rule: tiles.induct)
  case (2 lo c d ps hi)
  then show ?case using tiles_le [of d ps hi] by auto
qed simp

lemma tiles_length: "tiles lo ps hi \<Longrightarrow> length ps \<le> hi - lo"
proof (induction lo ps hi rule: tiles.induct)
  case (2 lo c d ps hi)
  then show ?case using tiles_le [of d ps hi] by fastforce
qed simp

lemma tiles_functional: "tiles lo ps m \<Longrightarrow> tiles lo ps m' \<Longrightarrow> m = m'"
  by (induction lo ps m rule: tiles.induct) auto

text \<open>A tiling from boundaries: \<open>b 0 < b 1 < \<dots> < b n\<close>.\<close>

locale boundaries =
  fixes bound :: "nat \<Rightarrow> nat" and n total :: nat
  assumes bound_0: "bound 0 = 0"
    and bound_n: "bound n = total"
    and bound_step: "i < n \<Longrightarrow> bound i < bound (Suc i)"
begin

lemma tiles_prefix: "k \<le> n \<Longrightarrow> tiles 0 (map (\<lambda>i. (bound i, bound (Suc i))) [0..<k]) (bound k)"
  by (induction k) (auto simp: bound_0 bound_step)

lemma tiles_all: "tiles 0 (map (\<lambda>i. (bound i, bound (Suc i))) [0..<n]) total"
  using tiles_prefix [of n] by (simp add: bound_n)

lemma each_once: "concat (map (\<lambda>i. [bound i..<bound (Suc i)]) [0..<n]) = [0..<total]"
  using tiles_concat [OF tiles_all] by (simp add: comp_def)

lemma bound_mono: "i \<le> j \<Longrightarrow> j \<le> n \<Longrightarrow> bound i \<le> bound j"
proof (induction rule: dec_induct)
  case (step m)
  then show ?case using bound_step [of m] by simp
qed simp

lemma bound_strict: "i < j \<Longrightarrow> j \<le> n \<Longrightarrow> bound i < bound j"
  using bound_step [of i] bound_mono [of "Suc i" j] by simp

lemma tiles_image:
  "tiles lo ps hi \<Longrightarrow> hi \<le> n \<Longrightarrow> tiles (bound lo) (map (\<lambda>(a, b). (bound a, bound b)) ps) (bound hi)"
proof (induction lo ps hi rule: tiles.induct)
  case (2 lo a b ps hi)
  then show ?case using tiles_le [of b ps hi] by (auto intro: bound_strict)
qed simp

lemma bound_le_total: "i \<le> n \<Longrightarrow> bound i \<le> total"
  using bound_mono [of i n] by (simp add: bound_n)

end

section \<open>Weights over a population of threads\<close>

text \<open>
  The threads are the numbers below \<open>n\<close> and \<open>pc t\<close> is the program point of thread \<open>t\<close>.
  A step of one thread changes the sum of a weight by the difference at that thread.
\<close>

definition total_weight :: "nat \<Rightarrow> ('pc \<Rightarrow> nat) \<Rightarrow> (tid \<Rightarrow> 'pc) \<Rightarrow> nat" where
  "total_weight n f pc = (\<Sum>t<n. f (pc t))"

lemma sum_fun_upd:
  fixes g :: "nat \<Rightarrow> 'b \<Rightarrow> 'a::comm_monoid_add"
  assumes "t < n"
  shows "(\<Sum>s<n. g s ((f(t := x)) s)) + g t (f t) = (\<Sum>s<n. g s (f s)) + g t x"
proof -
  have split: "(\<Sum>s<n. g s (h s)) = g t (h t) + (\<Sum>s\<in>{..<n} - {t}. g s (h s))" for h
    by (rule sum.remove) (use assms in auto)
  have "(\<Sum>s\<in>{..<n} - {t}. g s ((f(t := x)) s)) = (\<Sum>s\<in>{..<n} - {t}. g s (f s))"
    by (rule sum.cong) auto
  then show ?thesis unfolding split [of f] split [of "f(t := x)"] by (simp add: ac_simps)
qed

lemma total_weight_upd:
  "t < n \<Longrightarrow> total_weight n f (pc(t := x)) + f (pc t) = total_weight n f pc + f x"
  unfolding total_weight_def by (rule sum_fun_upd)

lemma total_weight_upd_eq:
  "t < n \<Longrightarrow> total_weight n f (pc(t := x)) = total_weight n f pc + f x - f (pc t)"
  using total_weight_upd [of t n f pc x] by linarith

lemma total_weight_ge: "t < n \<Longrightarrow> f (pc t) \<le> total_weight n f pc"
  unfolding total_weight_def by (rule member_le_sum) auto

lemma total_weight_ge2:
  assumes "t < n" "u < n" "t \<noteq> u"
  shows "f (pc t) + f (pc u) \<le> total_weight n f pc"
proof -
  have "(\<Sum>s\<in>{t, u}. f (pc s)) \<le> total_weight n f pc"
    unfolding total_weight_def by (rule sum_mono2) (use assms in auto)
  with assms show ?thesis by simp
qed

lemma total_weight_le: "(\<And>p. f p \<le> 1) \<Longrightarrow> total_weight n f pc \<le> n"
  unfolding total_weight_def
  using sum_bounded_above [of "{..<n}" "\<lambda>t. f (pc t)" 1] by simp

lemma total_weight_mono: "(\<And>p. f p \<le> g p) \<Longrightarrow> total_weight n f pc \<le> total_weight n g pc"
  unfolding total_weight_def by (rule sum_mono) simp

lemma total_weight_zero: "total_weight n f pc = 0 \<longleftrightarrow> (\<forall>t<n. f (pc t) = 0)"
  unfolding total_weight_def by auto

lemma total_weight_pos: "0 < total_weight n f pc \<longleftrightarrow> (\<exists>t<n. 0 < f (pc t))"
  using total_weight_zero [of n f pc] by auto

lemma total_weight_const: "(\<And>t. t < n \<Longrightarrow> f (pc t) = 0) \<Longrightarrow> total_weight n f pc = 0"
  by (simp add: total_weight_zero)

lemma total_weight_add:
  "total_weight n (\<lambda>p. f p + g p) pc = total_weight n f pc + total_weight n g pc"
  by (simp add: total_weight_def sum.distrib)

text \<open>The same in \<open>int\<close>, where the differences are exact.\<close>

definition weight :: "nat \<Rightarrow> ('pc \<Rightarrow> nat) \<Rightarrow> (tid \<Rightarrow> 'pc) \<Rightarrow> int" where
  "weight n f pc = int (total_weight n f pc)"

lemma weight_upd:
  "t < n \<Longrightarrow> weight n f (pc(t := x)) = weight n f pc + int (f x) - int (f (pc t))"
  using total_weight_upd [of t n f pc x] by (simp add: weight_def)

lemma weight_nonneg [simp]: "0 \<le> weight n f pc"
  by (simp add: weight_def)

lemma weight_ge: "t < n \<Longrightarrow> int (f (pc t)) \<le> weight n f pc"
  by (simp add: weight_def total_weight_ge)

lemma weight_le: "(\<And>p. f p \<le> 1) \<Longrightarrow> weight n f pc \<le> int n"
  using total_weight_le [of f n pc] by (simp add: weight_def)

lemma weight_zero: "weight n f pc = 0 \<longleftrightarrow> (\<forall>t<n. f (pc t) = 0)"
  by (simp add: weight_def total_weight_zero)

lemma weight_add: "weight n (\<lambda>p. f p + g p) pc = weight n f pc + weight n g pc"
  by (simp add: weight_def total_weight_add)

lemma weight_card: "weight n (\<lambda>p. of_bool (P p)) pc = int (card {t. t < n \<and> P (pc t)})"
proof -
  have "(\<Sum>t<n. of_bool (P (pc t))) = card ({..<n} \<inter> {t. P (pc t)})"
    by (simp add: sum.inter_restrict [symmetric] flip: Int_def)
  also have "{..<n} \<inter> {t. P (pc t)} = {t. t < n \<and> P (pc t)}" by auto
  finally show ?thesis by (simp add: weight_def total_weight_def)
qed

text \<open>Several threads move at once, from program points of one kind to the point \<open>x\<close>.\<close>

definition move_all :: "tid set \<Rightarrow> 'pc \<Rightarrow> (tid \<Rightarrow> 'pc) \<Rightarrow> (tid \<Rightarrow> 'pc)" where
  "move_all T x pc = (\<lambda>t. if t \<in> T then x else pc t)"

lemma weight_move_all:
  assumes "T \<subseteq> {..<n}" and same: "\<And>t. t \<in> T \<Longrightarrow> f (pc t) = k"
  shows "weight n f (move_all T x pc) = weight n f pc + int (card T) * (int (f x) - int k)"
proof -
  have fin: "finite T" using assms(1) finite_subset by blast
  have un: "{..<n} = T \<union> ({..<n} - T)" and dis: "T \<inter> ({..<n} - T) = {}" using assms(1) by auto
  have split: "(\<Sum>t<n. f (p t)) = (\<Sum>t\<in>T. f (p t)) + (\<Sum>t\<in>{..<n} - T. f (p t))" for p :: "tid \<Rightarrow> 'a"
    by (subst un, rule sum.union_disjoint) (use fin in auto)
  have "(\<Sum>t\<in>{..<n} - T. f (move_all T x pc t)) = (\<Sum>t\<in>{..<n} - T. f (pc t))"
    by (rule sum.cong) (auto simp: move_all_def)
  moreover have "(\<Sum>t\<in>T. f (move_all T x pc t)) = card T * f x"
    by (simp add: move_all_def)
  moreover have "(\<Sum>t\<in>T. f (pc t)) = card T * k" using same by simp
  ultimately show ?thesis
    by (simp add: weight_def total_weight_def split [of pc] split [of "move_all T x pc"] algebra_simps)
qed

section \<open>State machines with an inductive invariant\<close>

inductive reach :: "('s \<Rightarrow> bool) \<Rightarrow> ('s \<Rightarrow> 's \<Rightarrow> bool) \<Rightarrow> 's \<Rightarrow> bool" for init step where
  start: "init s \<Longrightarrow> reach init step s"
| move: "reach init step s \<Longrightarrow> step s s' \<Longrightarrow> reach init step s'"

locale invariant_system =
  fixes init :: "'s \<Rightarrow> bool" and step :: "'s \<Rightarrow> 's \<Rightarrow> bool" and inv :: "'s \<Rightarrow> bool"
  assumes inv_init: "init s \<Longrightarrow> inv s"
    and inv_step: "inv s \<Longrightarrow> step s s' \<Longrightarrow> inv s'"
begin

lemma inv_reach: "reach init step s \<Longrightarrow> inv s"
  by (induction rule: reach.induct) (auto intro: inv_init inv_step)

end

text \<open>
  A system that refines another one through an abstraction function: every step from a state with the
  invariant is a step of the abstract system, or is not seen there.
\<close>

locale refinement = invariant_system init step inv
  for init :: "'s \<Rightarrow> bool" and step :: "'s \<Rightarrow> 's \<Rightarrow> bool" and inv :: "'s \<Rightarrow> bool" +
  fixes abs_init :: "'a \<Rightarrow> bool" and abs_step :: "'a \<Rightarrow> 'a \<Rightarrow> bool" and abs :: "'s \<Rightarrow> 'a"
  assumes abs_init: "init s \<Longrightarrow> abs_init (abs s)"
    and abs_step: "inv s \<Longrightarrow> step s s' \<Longrightarrow> abs_step (abs s) (abs s') \<or> abs s' = abs s"
begin

lemma reach_abs: "reach init step s \<Longrightarrow> reach abs_init abs_step (abs s)"
proof (induction rule: reach.induct)
  case (move s s')
  from abs_step [OF inv_reach [OF move.hyps(1)] move.hyps(2)] show ?case
    using move.IH by (auto intro: reach.move)
qed (rule reach.start, rule abs_init)

lemma step_abs: "reach init step s \<Longrightarrow> step s s' \<Longrightarrow> abs_step (abs s) (abs s') \<or> abs s' = abs s"
  by (rule abs_step [OF inv_reach])

end

text \<open>
  A system with steps that use something up: however the \<open>work\<close> steps are chosen, they come to an end.
\<close>

locale draining_system = invariant_system init step inv
  for init :: "'s \<Rightarrow> bool" and step :: "'s \<Rightarrow> 's \<Rightarrow> bool" and inv :: "'s \<Rightarrow> bool" +
  fixes work :: "'s \<Rightarrow> 's \<Rightarrow> bool" and amount :: "'s \<Rightarrow> nat"
  assumes work_step: "work s s' \<Longrightarrow> step s s'"
    and work_less: "inv s \<Longrightarrow> work s s' \<Longrightarrow> amount s' < amount s"
begin

lemma work_bounded: "inv s \<Longrightarrow> (work ^^ k) s s' \<Longrightarrow> inv s' \<and> k + amount s' \<le> amount s"
proof (induction k arbitrary: s')
  case (Suc k)
  then obtain t where t: "(work ^^ k) s t" "work t s'" by (auto elim: relpowp_Suc_E)
  with Suc have "inv t" "k + amount t \<le> amount s" by blast+
  with work_less [of t s'] inv_step [of t s'] work_step t(2) show ?case by fastforce
qed simp

lemma no_endless_work:
  assumes "reach init step (f 0)"
  shows "\<exists>i. \<not> work (f i) (f (Suc i))"
proof (rule ccontr)
  assume "\<not> ?thesis"
  then have "(work ^^ k) (f 0) (f k)" for k by (induction k) auto
  with work_bounded [OF inv_reach [OF assms], of "Suc (amount (f 0))"] show False by fastforce
qed

lemma work_ends: "reach init step s \<Longrightarrow> \<exists>s'. work\<^sup>*\<^sup>* s s' \<and> reach init step s' \<and> (\<forall>s''. \<not> work s' s'')"
proof (induction "amount s" arbitrary: s rule: less_induct)
  case less
  show ?case
  proof (cases "\<exists>t. work s t")
    case True
    then obtain t where t: "work s t" by blast
    with less.prems have "reach init step t" by (blast intro: reach.move work_step)
    with less.hyps [OF work_less [OF inv_reach [OF less.prems] t]] t show ?thesis
      by (blast intro: converse_rtranclp_into_rtranclp)
  qed (use less.prems in auto)
qed

end

end
