(* ===== verification/Chunked.thy ===== *)
theory Chunked
  imports Prelude
begin

text \<open>
  \<open>chunked_spread\<close> (spread_chunked.hpp, spread_chunked.cpp): the split of an iteration range
  into a given number of chunks that the Windows, Apple and libuv backends and
  \<open>spread_chunked()\<close> share.
\<close>

section \<open>The class\<close>

record 'hc chunked_spread =
  iterations_per_chunk :: iterations_t
  extra_iterations :: 'hc

text \<open>The constructor; dividing by a zero \<open>number_of_chunks\<close> is undefined in C++ (\<open>None\<close>).\<close>

definition chunked_spread_new :: "iterations_t \<Rightarrow> iterations_t \<Rightarrow> 'h::len word chunked_spread option" where
  "chunked_spread_new iterations number_of_chunks =
     (if number_of_chunks = 0 then None
      else Some \<lparr>iterations_per_chunk = iterations div number_of_chunks,
                 extra_iterations = ucast (iterations mod number_of_chunks)\<rparr>)"

definition chunk_range :: "'h::len word chunked_spread \<Rightarrow> 'h word \<Rightarrow> piece" where
  "chunk_range cs chunk_index =
     (let extra_iters = min chunk_index (extra_iterations cs);
          plain_iters = (ucast (chunk_index - extra_iters) :: iterations_t);
          this_has_extra_iter = chunk_index < extra_iterations cs;
          start_iteration = ucast extra_iters * (iterations_per_chunk cs + 1)
                          + plain_iters * iterations_per_chunk cs;
          stop_iteration = start_iteration + iterations_per_chunk cs + of_bool this_has_extra_iter
      in (start_iteration, stop_iteration))"

text \<open>The boundary before chunk \<open>i\<close>, without wrap-around.\<close>

definition chunk_bound :: "nat \<Rightarrow> nat \<Rightarrow> nat \<Rightarrow> nat" where
  "chunk_bound iters n i = i * (iters div n) + min i (iters mod n)"

lemma chunk_bound_0: "chunk_bound iters n 0 = 0"
  by (simp add: chunk_bound_def)

lemma chunk_bound_end: "0 < n \<Longrightarrow> chunk_bound iters n n = iters"
  by (simp add: chunk_bound_def min_def mult.commute) (metis less_le_not_le mod_less_divisor)

lemma chunk_bound_Suc:
  "chunk_bound iters n (Suc i) = chunk_bound iters n i + iters div n + of_bool (i < iters mod n)"
  by (auto simp: chunk_bound_def)

lemma chunk_bound_step: "0 < n \<Longrightarrow> n \<le> iters \<Longrightarrow> chunk_bound iters n i < chunk_bound iters n (Suc i)"
  using div_greater_zero_iff [of iters n] by (simp add: chunk_bound_Suc)

text \<open>With fewer iterations than chunks only the first \<open>iters\<close> chunks have work.\<close>

lemma chunk_bound_small: "iters < n \<Longrightarrow> i \<le> iters \<Longrightarrow> chunk_bound iters n i = i"
  by (simp add: chunk_bound_def)

interpretation chunks: boundaries "chunk_bound iters (Suc n)" "min (Suc n) iters" iters
  for iters n :: nat
proof unfold_locales
  show "chunk_bound iters (Suc n) 0 = 0" by (rule chunk_bound_0)
  show "chunk_bound iters (Suc n) (min (Suc n) iters) = iters"
    using chunk_bound_end [of "Suc n" iters] chunk_bound_small [of iters "Suc n" iters]
    by (auto simp: min_def)
  show "i < min (Suc n) iters \<Longrightarrow> chunk_bound iters (Suc n) i < chunk_bound iters (Suc n) (Suc i)"
    for i
    using chunk_bound_step [of "Suc n" iters i] chunk_bound_small [of iters "Suc n"]
    by (cases "Suc n \<le> iters") auto
qed

lemma chunk_bound_le: "0 < n \<Longrightarrow> i \<le> min n iters \<Longrightarrow> chunk_bound iters n i \<le> iters"
  using chunks.bound_le_total [where n = "n - 1" and i = i and iters = iters] by simp

section \<open>The words compute the boundaries\<close>

lemma chunked_spread_fields:
  assumes "chunked_spread_new iters n = Some (cs :: 'h::len word chunked_spread)"
    and "unat n \<le> 2 ^ LENGTH('h)"
  shows "unat n \<noteq> 0" "unat (iterations_per_chunk cs) = unat iters div unat n"
    "unat (extra_iterations cs) = unat iters mod unat n"
proof -
  from assms(1) have n: "n \<noteq> 0" and f: "iterations_per_chunk cs = iters div n"
    "extra_iterations cs = ucast (iters mod n)"
    by (auto simp: chunked_spread_new_def split: if_splits)
  then show pos: "unat n \<noteq> 0" by (simp add: unat_eq_0)
  show "unat (iterations_per_chunk cs) = unat iters div unat n"
    by (simp add: f word_nat)
  have "unat iters mod unat n < 2 ^ LENGTH('h)"
    using pos assms(2) by (metis bot_nat_0.not_eq_extremum mod_less_divisor order_less_le_trans)
  then show "unat (extra_iterations cs) = unat iters mod unat n"
    by (simp add: f unat_ucast_small word_nat)
qed

lemma chunk_range_bounds:
  fixes cs :: "'h::len word chunked_spread" and chunk :: "'h word"
  assumes new: "chunked_spread_new iters n = Some cs"
    and fits: "unat n \<le> 2 ^ LENGTH('h)" and wide: "LENGTH('h) \<le> 32"
    and chk: "unat chunk < min (unat n) (unat iters)"
  shows "unat (fst (chunk_range cs chunk)) = chunk_bound (unat iters) (unat n) (unat chunk)"
    and "unat (snd (chunk_range cs chunk)) = chunk_bound (unat iters) (unat n) (Suc (unat chunk))"
proof -
  let ?ipc = "iterations_per_chunk cs" and ?ex = "extra_iterations cs"
  let ?e = "min chunk ?ex" and ?p = "ucast (chunk - min chunk ?ex) :: iterations_t"
  let ?B = "chunk_bound (unat iters) (unat n)"
  note f = chunked_spread_fields [OF new fits]
  have cast: "unat (ucast (c :: 'h word) :: iterations_t) = unat c" for c
    using wide by (intro unat_ucast_widen) simp
  have e: "unat (ucast ?e :: iterations_t) = min (unat chunk) (unat ?ex)"
    by (simp only: cast) (simp add: word_nat)
  have p: "unat ?p = unat chunk - min (unat chunk) (unat ?ex)"
    by (simp only: cast, subst unat_sub_le) (auto simp: word_nat)
  have le: "?B (Suc (unat chunk)) \<le> unat iters"
    using chunk_bound_le [of "unat n" "Suc (unat chunk)" "unat iters"] f(1) chk by simp
  then have lt: "?B (Suc (unat chunk)) < 2 ^ LENGTH(32)"
    using unat_lt2p [of iters] by simp
  let ?m = "min (unat chunk) (unat ?ex)" and ?q = "unat chunk - min (unat chunk) (unat ?ex)"
  have sum: "?m * (unat ?ipc + 1) + ?q * unat ?ipc = ?B (unat chunk)"
    by (simp add: chunk_bound_def f algebra_simps)
  have B_lt: "?B (unat chunk) < 2 ^ LENGTH(32)"
    using lt by (simp add: chunk_bound_Suc)
  have A_lt: "?m * (unat ?ipc + 1) < 2 ^ LENGTH(32)" and C_lt: "?q * unat ?ipc < 2 ^ LENGTH(32)"
    by (rule le_less_trans [OF _ B_lt], subst sum [symmetric], simp)+
  have a: "unat (ucast ?e * (?ipc + 1)) = ?m * (unat ?ipc + 1)"
  proof (cases "?m = 0")
    case True
    then have "ucast ?e = (0 :: iterations_t)" using e by (metis unat_eq_0)
    with True show ?thesis by simp
  next
    case False
    then have "1 * (unat ?ipc + 1) \<le> ?m * (unat ?ipc + 1)" by (intro mult_le_mono1) simp
    from le_less_trans [OF this A_lt] have "unat ?ipc + 1 < 2 ^ LENGTH(32)" by simp
    then have "unat (?ipc + 1) = unat ?ipc + 1" by (subst unat_add_small) simp_all
    with A_lt show ?thesis by (subst unat_mult_small) (simp_all add: e)
  qed
  have b: "unat (?p * ?ipc) = ?q * unat ?ipc"
    using C_lt by (subst unat_mult_small) (simp_all add: p)
  have start: "unat (fst (chunk_range cs chunk)) = ?B (unat chunk)"
    using B_lt unfolding chunk_range_def Let_def fst_conv
    by (subst unat_add_small; simp only: a b sum)
  then show "unat (fst (chunk_range cs chunk)) = ?B (unat chunk)" .
  have ex: "(chunk < ?ex) = (unat chunk < unat iters mod unat n)" by (simp add: word_nat f)
  have stop: "snd (chunk_range cs chunk)
      = fst (chunk_range cs chunk) + ?ipc + of_bool (chunk < ?ex)"
    by (simp add: chunk_range_def Let_def)
  have s1: "unat (fst (chunk_range cs chunk) + ?ipc) = ?B (unat chunk) + unat iters div unat n"
    using lt by (subst unat_add_small) (simp_all add: start f chunk_bound_Suc)
  show "unat (snd (chunk_range cs chunk)) = ?B (Suc (unat chunk))"
    using lt unfolding stop by (subst unat_add_small) (simp_all add: s1 ex chunk_bound_Suc)
qed

section \<open>Every iteration in exactly one chunk\<close>

definition chunk_list :: "'h::len word chunked_spread \<Rightarrow> nat \<Rightarrow> piece list" where
  "chunk_list cs k = map (\<lambda>i. chunk_range cs (of_nat i)) [0..<k]"

lemma chunk_list_tiles:
  fixes cs :: "'h::len word chunked_spread"
  assumes "chunked_spread_new iters n = Some cs"
    and "unat n \<le> 2 ^ LENGTH('h)" and "LENGTH('h) \<le> 32"
  shows "tiles 0 (as_nats (chunk_list cs (min (unat n) (unat iters)))) (unat iters)"
proof -
  let ?k = "min (unat n) (unat iters)" and ?B = "chunk_bound (unat iters) (unat n)"
  note f = chunked_spread_fields [OF assms(1,2)]
  have "as_nats (chunk_list cs ?k) = map (\<lambda>i. (?B i, ?B (Suc i))) [0..<?k]"
    unfolding chunk_list_def as_nats_def map_map comp_def
  proof (rule map_cong [OF refl])
    fix i assume "i \<in> set [0..<?k]"
    then have i: "unat (of_nat i :: 'h word) = i" "i < ?k"
      using assms(2) by (auto intro!: unat_of_nat_small)
    then show "(case chunk_range cs (of_nat i) of (a, b) \<Rightarrow> (unat a, unat b)) = (?B i, ?B (Suc i))"
      using chunk_range_bounds [OF assms, of "of_nat i"]
      by (simp add: case_prod_unfold)
  qed
  moreover have "Suc (unat n - 1) = unat n" using f(1) by simp
  ultimately show ?thesis
    using chunks.tiles_all [where n = "unat n - 1" and iters = "unat iters"] by simp
qed

section \<open>spread_chunked\<close>

text \<open>
  The lambda of \<open>spread_chunked()\<close>: it maps a range of chunk indices to a range of iterations
  (more than one chunk when the shop runs everything on the caller), and the call of the shop's
  \<open>spread_the_sweat\<close>, here the argument \<open>spread\<close>, which yields the ranges the shop calls
  the lambda with.
\<close>

definition spread_chunked_worker :: "'h::len word chunked_spread \<Rightarrow> piece \<Rightarrow> piece" where
  "spread_chunked_worker cs = (\<lambda>(start_iteration, end_iteration).
     let range = chunk_range cs (ucast start_iteration)
     in if end_iteration \<noteq> start_iteration + 1
        then (fst range, snd (chunk_range cs (ucast (end_iteration - 1))))
        else range)"

definition spread_chunked ::
  "'h::len word \<Rightarrow> (iterations_t \<Rightarrow> piece list) \<Rightarrow> iterations_t \<Rightarrow> piece list option" where
  "spread_chunked number_of_chunks spread iterations =
     map_option
       (\<lambda>cs :: 'h word chunked_spread.
          map (spread_chunked_worker cs) (spread (min (ucast number_of_chunks) iterations)))
       (chunked_spread_new iterations (ucast number_of_chunks))"

lemma spread_chunked_worker_bounds:
  fixes cs :: "'h::len word chunked_spread"
  assumes new: "chunked_spread_new iters n = Some cs"
    and fits: "unat n \<le> 2 ^ LENGTH('h)" and wide: "LENGTH('h) \<le> 32"
    and piece: "unat s < unat e" "unat e \<le> min (unat n) (unat iters)"
  shows "(case spread_chunked_worker cs (s, e) of (a, b) \<Rightarrow> (unat a, unat b))
       = (chunk_bound (unat iters) (unat n) (unat s), chunk_bound (unat iters) (unat n) (unat e))"
proof -
  have lt: "unat s < 2 ^ LENGTH('h)" "unat e - 1 < 2 ^ LENGTH('h)" using piece fits by linarith+
  have e1: "unat (e - 1) = unat e - 1"
    using piece by (subst unat_sub_le) auto
  have cs_s: "unat (ucast s :: 'h word) = unat s" and cs_e: "unat (ucast (e - 1) :: 'h word) = unat e - 1"
    using lt by (simp_all add: unat_ucast_small e1)
  have s1: "unat (s + 1) = unat s + 1"
    using piece unat_lt2p [of e] by (subst unat_add_small) simp_all
  have "e = s + 1 \<longleftrightarrow> unat e = unat s + 1" by (simp add: unat_eq_iff s1)
  moreover note chunk_range_bounds [OF new fits wide, of "ucast s"]
    chunk_range_bounds [OF new fits wide, of "ucast (e - 1)"]
  moreover have "unat e - 1 < unat n" "unat e - 1 < unat iters" using piece by linarith+
  ultimately show ?thesis
    using piece by (auto simp: spread_chunked_worker_def Let_def cs_s cs_e case_prod_unfold)
qed

lemma spread_chunked_tiles:
  fixes hc :: "'h::len word"
  assumes "0 < unat hc" and wide: "LENGTH('h) \<le> 32"
    and spread: "tiles 0 (as_nats (spread (min (ucast hc) iters))) (unat (min (ucast hc) iters))"
  shows "\<exists>works. spread_chunked hc spread iters = Some works \<and> tiles 0 (as_nats works) (unat iters)"
proof -
  let ?n = "ucast hc :: iterations_t" and ?k = "min (unat (ucast hc :: iterations_t)) (unat iters)"
  let ?B = "chunk_bound (unat iters) (unat ?n)" and ?ps = "spread (min (ucast hc) iters)"
  have n: "unat ?n = unat hc" using wide by (intro unat_ucast_widen) simp
  with assms(1) have pos: "?n \<noteq> 0" by (auto simp: unat_eq_iff)
  have fits: "unat ?n \<le> 2 ^ LENGTH('h)" using unat_lt2p [of hc] by (simp only: n)
  obtain cs :: "'h word chunked_spread" where new: "chunked_spread_new iters ?n = Some cs"
    using pos by (auto simp: chunked_spread_new_def)
  let ?works = "map (spread_chunked_worker cs) ?ps"
  have sp: "tiles 0 (as_nats ?ps) ?k" using spread by (simp add: word_nat)
  have "as_nats ?works = map (\<lambda>(a, b). (?B a, ?B b)) (as_nats ?ps)"
    unfolding as_nats_def map_map
  proof (rule map_cong [OF refl])
    fix p assume p: "p \<in> set ?ps"
    obtain s e where se: "p = (s, e)" by force
    then have "(unat s, unat e) \<in> set (as_nats ?ps)" using p by (force simp: as_nats_def)
    from tiles_pieces [OF sp this] se
    show "((\<lambda>(a, b). (unat a, unat b)) \<circ> spread_chunked_worker cs) p
        = ((\<lambda>(a, b). (?B a, ?B b)) \<circ> (\<lambda>(a, b). (unat a, unat b))) p"
      using spread_chunked_worker_bounds [OF new fits wide, of s e] by (simp add: case_prod_unfold)
  qed
  moreover have "Suc (unat ?n - 1) = unat ?n" using assms(1) by (simp add: n)
  then have "tiles (?B 0) (map (\<lambda>(a, b). (?B a, ?B b)) (as_nats ?ps)) (?B ?k)" and "?B ?k = unat iters"
    using chunks.tiles_image [where n = "unat ?n - 1" and iters = "unat iters", OF sp]
      chunks.bound_n [where n = "unat ?n - 1" and iters = "unat iters"] by simp_all
  ultimately have "tiles 0 (as_nats ?works) (unat iters)" by (simp add: chunk_bound_0)
  then show ?thesis by (auto simp: spread_chunked_def new)
qed

section \<open>Theorems\<close>

lemma chunk_sizes:
  fixes cs :: "'h::len word chunked_spread"
  assumes "chunked_spread_new iters n = Some cs"
    and "unat n \<le> 2 ^ LENGTH('h)" and "LENGTH('h) \<le> 32"
    and "(a, b) \<in> set (as_nats (chunk_list cs (min (unat n) (unat iters))))"
  shows "b - a = unat iters div unat n \<or> b - a = unat iters div unat n + 1"
proof -
  from assms(4) obtain i where i: "i < min (unat n) (unat iters)"
    "(a, b) = (unat (fst (chunk_range cs (of_nat i))), unat (snd (chunk_range cs (of_nat i))))"
    by (auto simp: chunk_list_def as_nats_def case_prod_unfold)
  then have "unat (of_nat i :: 'h word) = i" using assms(2) by (intro unat_of_nat_small) linarith
  with i chunk_range_bounds [OF assms(1-3), of "of_nat i"] show ?thesis
    by (auto simp: chunk_bound_Suc)
qed

text \<open>The chunks of a \<open>chunked_spread\<close> cover the iterations in order, without gap or overlap and
  with no empty chunk, for any number of iterations up to the 32-bit limit, and their sizes differ by
  at most one. With fewer iterations than chunks only as many chunks as iterations are asked for, as
  every backend does.\<close>

theorem chunked_spread_correct:
  fixes cs :: "'h::len word chunked_spread"
  assumes "chunked_spread_new iters n = Some cs"
    and "unat n \<le> 2 ^ LENGTH('h)" and "LENGTH('h) \<le> 32"
  shows "tiles 0 (as_nats (chunk_list cs (min (unat n) (unat iters)))) (unat iters) \<and>
    (\<forall>(a, b)\<in>set (as_nats (chunk_list cs (min (unat n) (unat iters)))).
       b - a = unat iters div unat n \<or> b - a = unat iters div unat n + 1)"
  using chunk_list_tiles [OF assms] chunk_sizes [OF assms] by blast

theorem chunked_spread_correct_witness:
  "tiles 0 (as_nats (chunk_list \<lparr>iterations_per_chunk = 2, extra_iterations = 2 :: 8 word\<rparr> 4)) 10"
  using conjunct1 [OF chunked_spread_correct [of 10 4 "\<lparr>iterations_per_chunk = 2, extra_iterations = 2 :: 8 word\<rparr>"]]
  by (simp add: chunked_spread_new_def)

text \<open>C23. \<open>spread_chunked\<close> calls the work on ranges that together are all the iterations, each once and
  in order, whichever way the shop splits the range of chunk indices between its workers (its
  contract for \<open>spread_the_sweat\<close>), including the shops that run several chunks in one call.\<close>

theorem spread_chunked_correct:
  fixes hc :: "'h::len word"
  assumes "0 < unat hc" and "LENGTH('h) \<le> 32"
    and "tiles 0 (as_nats (spread (min (ucast hc) iters))) (unat (min (ucast hc) iters))"
  shows "\<exists>works. spread_chunked hc spread iters = Some works \<and>
    concat (map (\<lambda>(a, b). [a..<b]) (as_nats works)) = [0..<unat iters]"
  using spread_chunked_tiles [OF assms(1,2), where spread = spread and iters = iters] assms(3) tiles_concat by blast

theorem spread_chunked_correct_witness:
  "\<exists>works. spread_chunked (4 :: 8 word) (\<lambda>k. [(0, 1), (1, k)]) 10 = Some works \<and>
    concat (map (\<lambda>(a, b). [a..<b]) (as_nats works)) = [0..<unat (10 :: 32 word)]"
  using spread_chunked_correct [of "4 :: 8 word" "\<lambda>k. [(0, 1), (1, k)]" 10]
  by (simp add: as_nats_def min_def)

end
