(* ===== verification/Tracking.thy ===== *)
theory Tracking
  imports Prelude
begin

text \<open>
  The process-wide in-flight counter (dispatch_tracking.hpp), the drain loop
  \<open>wait_until_idle\<close>, and the order in which the backends count and submit an item.
\<close>

section \<open>The counter\<close>

type_synonym in_flight_t = "64 word"

definition in_flight_inc :: "in_flight_t \<Rightarrow> in_flight_t" where
  "in_flight_inc c = c + 1"

definition in_flight_dec :: "in_flight_t \<Rightarrow> in_flight_t" where
  "in_flight_dec c = c - 1"

definition in_flight_count :: "in_flight_t \<Rightarrow> in_flight_t" where
  "in_flight_count c = c"

section \<open>wait_until_idle\<close>

text \<open>
  The loop reads the counter and then, if it is not zero, the steady clock. Its other
  participants are the two histories \<open>counts\<close> and \<open>clock\<close>: the counter at the \<open>i\<close>-th
  load and the clock at the \<open>i\<close>-th reading. The loop may run for ever when the clock never
  reaches the deadline, hence the fuel.
\<close>

fun idle_loop :: "nat \<Rightarrow> nat \<Rightarrow> (nat \<Rightarrow> in_flight_t) \<Rightarrow> (nat \<Rightarrow> int) \<Rightarrow> int \<Rightarrow> bool option" where
  "idle_loop 0 i counts clock deadline = None"
| "idle_loop (Suc fuel) i counts clock deadline =
     (if in_flight_count (counts i) \<noteq> 0
      then if clock i \<ge> deadline then Some False
           else idle_loop fuel (Suc i) counts clock deadline
      else Some True)"

definition wait_until_idle ::
  "nat \<Rightarrow> int \<Rightarrow> int \<Rightarrow> (nat \<Rightarrow> in_flight_t) \<Rightarrow> (nat \<Rightarrow> int) \<Rightarrow> bool option" where
  "wait_until_idle fuel now timeout counts clock = idle_loop fuel 0 counts clock (now + timeout)"

lemma idle_loop_stops:
  "counts (i + k) = 0 \<or> clock (i + k) \<ge> deadline \<Longrightarrow> k < fuel
     \<Longrightarrow> \<exists>b. idle_loop fuel i counts clock deadline = Some b"
proof (induction fuel arbitrary: i k)
  case (Suc fuel)
  show ?case
  proof (cases k)
    case 0
    with Suc.prems show ?thesis by (auto simp: in_flight_count_def)
  next
    case (Suc k')
    with Suc.prems Suc.IH [of "Suc i" k'] show ?thesis by auto
  qed
qed simp

lemma idle_loop_result:
  "idle_loop fuel i counts clock deadline = Some b \<Longrightarrow>
     \<exists>j\<ge>i. (\<forall>m\<in>{i..<j}. counts m \<noteq> 0 \<and> clock m < deadline)
         \<and> (b \<longleftrightarrow> counts j = 0) \<and> (\<not> b \<longrightarrow> clock j \<ge> deadline)"
proof (induction fuel arbitrary: i)
  case (Suc fuel)
  show ?case
  proof (cases "counts i \<noteq> 0 \<and> clock i < deadline")
    case True
    with Suc.prems have "idle_loop fuel (Suc i) counts clock deadline = Some b"
      by (auto simp: in_flight_count_def)
    from Suc.IH [OF this] obtain j where j: "Suc i \<le> j"
      "\<forall>m\<in>{Suc i..<j}. counts m \<noteq> 0 \<and> clock m < deadline"
      "b \<longleftrightarrow> counts j = 0" "\<not> b \<longrightarrow> clock j \<ge> deadline" by blast
    moreover have "{i..<j} = insert i {Suc i..<j}" using j(1) by auto
    ultimately show ?thesis using True by (intro exI [of _ j]) auto
  next
    case False
    with Suc.prems show ?thesis
      by (intro exI [of _ i]) (auto simp: in_flight_count_def split: if_splits)
  qed
qed simp

section \<open>Counting and submitting an item\<close>

text \<open>
  An item is counted by the thread that fires it (\<open>Count\<close>) and handed to the executor
  (\<open>Submit\<close>); the executor runs it and the guard in the work wrapper uncounts it. The
  windows, apple and libuv backends count before they submit; the generic backend submits
  (\<open>enqueue\<close>) and counts afterwards (\<open>work_added\<close>).
\<close>

datatype fire_action = Count | Submit

datatype work_state = Unsubmitted | Queued | Running | Done

type_synonym item = "fire_action list \<times> work_state"

definition stateless_fire :: "fire_action list" where
  "stateless_fire = [Count, Submit]"

definition generic_fire :: "fire_action list" where
  "generic_fire = [Submit, Count]"

record track =
  counter :: in_flight_t
  items :: "tid \<Rightarrow> item"

text \<open>\<open>n\<close> items; \<open>program\<close> is the order in which every item's producer acts.\<close>

definition track_init :: "fire_action list \<Rightarrow> track \<Rightarrow> bool" where
  "track_init program s \<longleftrightarrow> counter s = 0 \<and> (\<forall>i. items s i = (program, Unsubmitted))"

inductive track_step :: "nat \<Rightarrow> track \<Rightarrow> track \<Rightarrow> bool" for n where
  count: "i < n \<Longrightarrow> items s i = (Count # as, w) \<Longrightarrow>
    track_step n s (s\<lparr>counter := in_flight_inc (counter s), items := (items s)(i := (as, w))\<rparr>)"
| submit: "i < n \<Longrightarrow> items s i = (Submit # as, Unsubmitted) \<Longrightarrow>
    track_step n s (s\<lparr>items := (items s)(i := (as, Queued))\<rparr>)"
| run: "i < n \<Longrightarrow> items s i = (as, Queued) \<Longrightarrow>
    track_step n s (s\<lparr>items := (items s)(i := (as, Running))\<rparr>)"
| finish: "i < n \<Longrightarrow> items s i = (as, Running) \<Longrightarrow>
    track_step n s (s\<lparr>counter := in_flight_dec (counter s), items := (items s)(i := (as, Done))\<rparr>)"

definition counted :: "item \<Rightarrow> nat" where
  "counted = (\<lambda>(as, w). of_bool (Count \<notin> set as))"

definition finished :: "item \<Rightarrow> nat" where
  "finished = (\<lambda>(as, w). of_bool (w = Done))"

text \<open>Whatever the order, the counter is the counted items less the finished ones, modulo \<open>2\<^sup>6\<^sup>4\<close>.\<close>

definition track_inv :: "fire_action list \<Rightarrow> nat \<Rightarrow> track \<Rightarrow> bool" where
  "track_inv program n s \<longleftrightarrow>
     counter s + of_nat (total_weight n finished (items s)) = of_nat (total_weight n counted (items s))
     \<and> (\<forall>i. case items s i of (as, w) \<Rightarrow>
          (\<exists>done. program = done @ as \<and> (w = Unsubmitted \<longleftrightarrow> Submit \<in> set as)))"

lemma track_inv_init:
  "program = stateless_fire \<or> program = generic_fire \<Longrightarrow> track_init program s \<Longrightarrow> track_inv program n s"
  by (auto simp: track_inv_def track_init_def total_weight_def counted_def finished_def
      stateless_fire_def generic_fire_def)

lemma track_inv_step:
  assumes program: "program = stateless_fire \<or> program = generic_fire"
    and inv: "track_inv program n s" and step: "track_step n s s'"
  shows "track_inv program n s'"
  using step
proof cases
  case (count i as w)
  from inv program have "Count \<notin> set as" "\<exists>d. program = d @ Count # as"
    "w = Unsubmitted \<longleftrightarrow> Submit \<in> set as"
    using count by (auto simp: track_inv_def stateless_fire_def generic_fire_def append_eq_Cons_conv
        Cons_eq_append_conv dest!: spec [of _ i])
  moreover have "total_weight n counted ((items s)(i := (as, w))) = total_weight n counted (items s) + 1"
    "total_weight n finished ((items s)(i := (as, w))) = total_weight n finished (items s)"
    using count calculation by (simp_all add: total_weight_upd_eq counted_def finished_def)
  ultimately show ?thesis
    using inv count by (auto simp: track_inv_def in_flight_inc_def algebra_simps split: prod.splits)
next
  case (submit i as)
  from inv program have "Submit \<notin> set as" "\<exists>d. program = d @ Submit # as"
    using submit by (auto simp: track_inv_def stateless_fire_def generic_fire_def append_eq_Cons_conv
        Cons_eq_append_conv dest!: spec [of _ i])
  moreover have "total_weight n counted ((items s)(i := (as, Queued))) = total_weight n counted (items s)"
    "total_weight n finished ((items s)(i := (as, Queued))) = total_weight n finished (items s)"
    using submit total_weight_ge [of i n counted "items s"]
    by (simp_all add: total_weight_upd_eq counted_def finished_def)
  ultimately show ?thesis
    using inv submit by (auto simp: track_inv_def split: prod.splits)
next
  case (run i as)
  moreover have "total_weight n counted ((items s)(i := (as, Running))) = total_weight n counted (items s)"
    "total_weight n finished ((items s)(i := (as, Running))) = total_weight n finished (items s)"
    using run total_weight_ge [of i n counted "items s"]
    by (simp_all add: total_weight_upd_eq counted_def finished_def)
  ultimately show ?thesis
    using inv by (auto simp: track_inv_def split: prod.splits dest!: spec [of _ i])
next
  case (finish i as)
  moreover have "total_weight n counted ((items s)(i := (as, Done))) = total_weight n counted (items s)"
    "total_weight n finished ((items s)(i := (as, Done))) = total_weight n finished (items s) + 1"
    using finish total_weight_ge [of i n counted "items s"]
    by (simp_all add: total_weight_upd_eq counted_def finished_def)
  ultimately show ?thesis
    using inv by (auto simp: track_inv_def in_flight_dec_def split: prod.splits dest!: spec [of _ i])
qed

interpretation stateless_track: invariant_system
  "track_init stateless_fire" "track_step n" "track_inv stateless_fire n" for n
  by unfold_locales (auto intro: track_inv_init track_inv_step)

interpretation generic_track: invariant_system
  "track_init generic_fire" "track_step n" "track_inv generic_fire n" for n
  by unfold_locales (auto intro: track_inv_init track_inv_step)

section \<open>What the counter says\<close>

definition outstanding :: "item \<Rightarrow> nat" where
  "outstanding = (\<lambda>(as, w). of_bool (Count \<notin> set as \<and> w \<noteq> Done))"

text \<open>An item of a count-first producer that was submitted has been counted.\<close>

lemma stateless_submitted_counted:
  assumes "track_inv stateless_fire n s" and "items s i = (as, w)" and "w \<noteq> Unsubmitted"
  shows "Count \<notin> set as"
  using assms by (auto simp: track_inv_def stateless_fire_def append_eq_Cons_conv Cons_eq_append_conv
      dest!: spec [of _ i])

lemma stateless_weights:
  assumes "track_inv stateless_fire n s"
  shows "total_weight n counted (items s) = total_weight n finished (items s) + total_weight n outstanding (items s)"
proof -
  have "counted (items s i) = finished (items s i) + outstanding (items s i)" for i
    using stateless_submitted_counted [OF assms, of i]
    by (cases "items s i") (auto simp: counted_def finished_def outstanding_def)
  then show ?thesis by (simp add: total_weight_def sum.distrib)
qed

lemma stateless_counter:
  assumes inv: "track_inv stateless_fire n s" and small: "n < 2 ^ 64"
  shows "unat (counter s) = total_weight n outstanding (items s)"
proof -
  have "total_weight n outstanding (items s) \<le> n"
    by (rule total_weight_le) (auto simp: outstanding_def)
  moreover have "counter s = of_nat (total_weight n outstanding (items s))"
    using inv stateless_weights [OF inv] by (simp add: track_inv_def)
  ultimately show ?thesis using small by (simp add: unat_of_nat_small)
qed

section \<open>Schedules\<close>

fun track_move :: "nat \<Rightarrow> track \<Rightarrow> tid \<times> work_state option \<Rightarrow> track" where
  "track_move n s (i, None) =
     (case items s i of
        (Count # as, w) \<Rightarrow> s\<lparr>counter := in_flight_inc (counter s), items := (items s)(i := (as, w))\<rparr>
      | (Submit # as, Unsubmitted) \<Rightarrow> s\<lparr>items := (items s)(i := (as, Queued))\<rparr>
      | _ \<Rightarrow> s)"
| "track_move n s (i, Some w) =
     (case items s i of
        (as, Queued) \<Rightarrow> s\<lparr>items := (items s)(i := (as, Running))\<rparr>
      | (as, Running) \<Rightarrow> s\<lparr>counter := in_flight_dec (counter s), items := (items s)(i := (as, Done))\<rparr>
      | _ \<Rightarrow> s)"

lemma track_move_reach:
  assumes "reach init (track_step n) s" "i < n"
  shows "reach init (track_step n) (track_move n s (i, k))"
proof (cases k)
  case None
  with assms show ?thesis
    by (auto split: prod.split list.split fire_action.split work_state.split
        intro: reach.move track_step.intros)
next
  case (Some w)
  with assms show ?thesis
    by (auto split: prod.split work_state.split intro: reach.move track_step.intros)
qed

definition track_start :: "fire_action list \<Rightarrow> track" where
  "track_start program = \<lparr>counter = 0, items = (\<lambda>_. (program, Unsubmitted))\<rparr>"

definition track_run :: "fire_action list \<Rightarrow> nat \<Rightarrow> (tid \<times> work_state option) list \<Rightarrow> track" where
  "track_run program n moves = foldl (track_move n) (track_start program) moves"

lemma track_run_reach:
  "\<forall>(i, k)\<in>set moves. i < n \<Longrightarrow> reach (track_init program) (track_step n) (track_run program n moves)"
proof (induction moves rule: rev_induct)
  case Nil
  show ?case by (rule reach.start) (simp add: track_run_def track_start_def track_init_def)
next
  case (snoc mv moves)
  then show ?case
    by (cases mv) (auto simp: track_run_def intro!: track_move_reach)
qed

section \<open>Theorems\<close>


definition tracking_demo :: track where
  "tracking_demo = track_run stateless_fire 2 [(0, None), (0, None), (1, None), (0, Some Queued), (0, Some Running)]"


text \<open>The generic backend submits first: a drain can read zero while a fired item runs, and the
  counter can wrap to its largest value when the item finishes before its producer counts it, where
  dispatch_tracking.hpp promises an increment before the work is queued.\<close>

theorem tracking_generic_gap:
  "(\<exists>s. reach (track_init generic_fire) (track_step 1) s \<and> in_flight_count (counter s) = 0
      \<and> snd (items s 0) = Running)
   \<and> (\<exists>s. reach (track_init generic_fire) (track_step 1) s \<and> in_flight_count (counter s) = 2 ^ 64 - 1
      \<and> snd (items s 0) = Done)"
proof
  let ?run = "track_run generic_fire 1 [(0, None), (0, Some Queued)]"
  have "reach (track_init generic_fire) (track_step 1) ?run" by (rule track_run_reach) simp
  moreover have "in_flight_count (counter ?run) = 0 \<and> snd (items ?run 0) = Running"
    by (simp add: track_run_def track_start_def generic_fire_def in_flight_count_def)
  ultimately show "\<exists>s. reach (track_init generic_fire) (track_step 1) s \<and> in_flight_count (counter s) = 0
      \<and> snd (items s 0) = Running" by blast
next
  let ?run = "track_run generic_fire 1 [(0, None), (0, Some Queued), (0, Some Queued)]"
  have "reach (track_init generic_fire) (track_step 1) ?run" by (rule track_run_reach) simp
  moreover have "in_flight_count (counter ?run) = 2 ^ 64 - 1 \<and> snd (items ?run 0) = Done"
    by (simp add: track_run_def track_start_def generic_fire_def in_flight_count_def in_flight_dec_def)
  ultimately show "\<exists>s. reach (track_init generic_fire) (track_step 1) s
      \<and> in_flight_count (counter s) = 2 ^ 64 - 1 \<and> snd (items s 0) = Done" by blast
qed

text \<open>\<open>wait_until_idle\<close> returns as soon as the counter reads zero or the deadline has passed,
  and its result is whether it read zero: \<open>False\<close> only after the deadline.\<close>

theorem wait_until_idle_correct:
  assumes "counts k = 0 \<or> clock k \<ge> now + timeout" and "k < fuel"
  shows "\<exists>b j. wait_until_idle fuel now timeout counts clock = Some b \<and> j \<le> k
    \<and> (\<forall>m<j. counts m \<noteq> 0 \<and> clock m < now + timeout)
    \<and> (b \<longleftrightarrow> counts j = 0) \<and> (\<not> b \<longrightarrow> clock j \<ge> now + timeout)"
proof -
  obtain b where b: "idle_loop fuel 0 counts clock (now + timeout) = Some b"
    using idle_loop_stops [where counts = counts and i = 0 and k = k and clock = clock
        and deadline = "now + timeout" and fuel = fuel] assms by auto
  from idle_loop_result [OF b] obtain j where j: "\<forall>m<j. counts m \<noteq> 0 \<and> clock m < now + timeout"
    "b \<longleftrightarrow> counts j = 0" "\<not> b \<longrightarrow> clock j \<ge> now + timeout" by (auto simp: atLeast0LessThan)
  moreover have "j \<le> k"
  proof (rule ccontr)
    assume "\<not> j \<le> k"
    then have "counts k \<noteq> 0 \<and> clock k < now + timeout" using j(1) by simp
    then show False using assms(1) by auto
  qed
  ultimately show ?thesis using b by (auto simp: wait_until_idle_def)
qed

theorem wait_until_idle_correct_witness:
  "\<exists>b (j :: nat). wait_until_idle 10 100 5 (\<lambda>i. if i < 3 then 1 else 0) (\<lambda>i. 100 + int i) = Some b \<and> j \<le> 3
    \<and> (b \<longleftrightarrow> \<not> j < 3)"
  using wait_until_idle_correct [where counts = "\<lambda>i. if i < 3 then 1 else 0" and k = 3
      and clock = "\<lambda>i. 100 + int i" and now = 100 and timeout = 5 and fuel = 10]
  by (fastforce split: if_splits)

end
