(* ===== verification/Futex.thy ===== *)
theory Futex
  imports Prelude
begin

unbundle bit_operations_syntax

text \<open>
  \<open>psi::thrd_lite::futex\<close> (threading/futex.hpp) and its four backends. The kernel is not part
  of the repository: it is a parameter \<open>K\<close>, a relation between a system call, the threads
  parked on the word (with the bitset each listens on) and the set of threads the call wakes,
  with its documented behaviour as a predicate on \<open>K\<close>. What the primitives built on the futex
  rely on is the locale \<open>futex_backend\<close>.
\<close>

type_synonym futex_value = "32 word"
type_synonym parked = "tid \<Rightarrow> futex_value option"

definition all_bits :: futex_value where
  "all_bits = -1"

definition listening :: "futex_value \<Rightarrow> parked \<Rightarrow> tid set" where
  "listening bits parked = {t. \<exists>l. parked t = Some l \<and> l AND bits \<noteq> 0}"

lemma listening_dom: "listening bits parked \<subseteq> dom parked"
  by (auto simp: listening_def)

section \<open>Parking\<close>

text \<open>
  \<open>wait_if_equal\<close> compares the word with the value the caller saw and parks, as one atomic
  action, only when they are equal. Every caller re-checks after it returns, so a spurious
  return is allowed at any time.
\<close>

definition parks :: "'v \<Rightarrow> 'v \<Rightarrow> bool" where
  "parks word desired_value \<longleftrightarrow> word = desired_value"

section \<open>The interface\<close>

locale futex_backend =
  fixes spec :: "'k \<Rightarrow> bool"
    and wake :: "'k \<Rightarrow> nat \<Rightarrow> parked \<Rightarrow> tid set \<Rightarrow> bool"
    and wake_all :: "'k \<Rightarrow> futex_value \<Rightarrow> parked \<Rightarrow> tid set \<Rightarrow> bool"
  assumes wake_parked: "spec K \<Longrightarrow> finite (dom parked) \<Longrightarrow> wake K count parked woken
      \<Longrightarrow> woken \<subseteq> dom parked"
    and wake_enough: "spec K \<Longrightarrow> finite (dom parked) \<Longrightarrow> count < 2 ^ 16 \<Longrightarrow> wake K count parked woken
      \<Longrightarrow> min count (card (dom parked)) \<le> card woken"
    and wake_all_parked: "spec K \<Longrightarrow> finite (dom parked) \<Longrightarrow> wake_all K bits parked woken
      \<Longrightarrow> woken \<subseteq> dom parked"
    and wake_all_targets: "spec K \<Longrightarrow> finite (dom parked) \<Longrightarrow> card (dom parked) < 2 ^ 31
      \<Longrightarrow> wake_all K bits parked woken \<Longrightarrow> listening bits parked \<subseteq> woken"

text \<open>The contract as predicates on one backend's operations, for the machines that use them.\<close>

definition wakes_enough :: "(nat \<Rightarrow> parked \<Rightarrow> tid set \<Rightarrow> bool) \<Rightarrow> bool" where
  "wakes_enough wake \<longleftrightarrow> (\<forall>count parked woken. finite (dom parked) \<longrightarrow> wake count parked woken \<longrightarrow>
     woken \<subseteq> dom parked \<and> (count < 2 ^ 16 \<longrightarrow> min count (card (dom parked)) \<le> card woken))"

definition wakes_targets :: "(futex_value \<Rightarrow> parked \<Rightarrow> tid set \<Rightarrow> bool) \<Rightarrow> bool" where
  "wakes_targets wake_all \<longleftrightarrow> (\<forall>bits parked woken. finite (dom parked) \<longrightarrow> wake_all bits parked woken \<longrightarrow>
     woken \<subseteq> dom parked \<and> (card (dom parked) < 2 ^ 31 \<longrightarrow> listening bits parked \<subseteq> woken))"

definition wakes_one :: "(parked \<Rightarrow> tid set \<Rightarrow> bool) \<Rightarrow> bool" where
  "wakes_one wake_one \<longleftrightarrow> (\<forall>parked woken. finite (dom parked) \<longrightarrow> wake_one parked woken \<longrightarrow>
     woken \<subseteq> dom parked \<and> (dom parked \<noteq> {} \<longrightarrow> woken \<noteq> {}))"

lemma wakes_oneD:
  assumes "wakes_one wake_one" "finite (dom parked)" "wake_one parked woken"
  shows "woken \<subseteq> dom parked" "dom parked \<noteq> {} \<Longrightarrow> woken \<noteq> {}"
  using assms by (auto simp: wakes_one_def)

lemma wakes_enough_one: "wakes_enough wake \<Longrightarrow> wakes_one (wake 1)"
  unfolding wakes_one_def
proof (intro allI impI)
  fix parked woken
  assume "wakes_enough wake" and fin: "finite (dom (parked :: parked))" and "wake 1 parked woken"
  then have "woken \<subseteq> dom parked" "min 1 (card (dom parked)) \<le> card woken"
    by (auto simp: wakes_enough_def)
  moreover have "dom parked \<noteq> {} \<Longrightarrow> 1 \<le> card (dom parked)"
    using fin by (simp only: One_nat_def Suc_le_eq card_gt_0_iff simp_thms)
  ultimately show "woken \<subseteq> dom parked \<and> (dom parked \<noteq> {} \<longrightarrow> woken \<noteq> {})" by force
qed

lemma wakes_enoughD:
  assumes "wakes_enough wake" "finite (dom parked)" "wake count parked woken"
  shows "woken \<subseteq> dom parked" "count < 2 ^ 16 \<Longrightarrow> min count (card (dom parked)) \<le> card woken"
  using assms by (auto simp: wakes_enough_def)

lemma wakes_targetsD:
  assumes "wakes_targets wake_all" "finite (dom parked)" "wake_all bits parked woken"
  shows "woken \<subseteq> dom parked" "card (dom parked) < 2 ^ 31 \<Longrightarrow> listening bits parked \<subseteq> woken"
  using assms by (auto simp: wakes_targets_def)

context futex_backend
begin

lemma wake_contract: "spec K \<Longrightarrow> wakes_enough (wake K)"
  using wake_parked wake_enough by (auto simp: wakes_enough_def)

lemma wake_all_contract: "spec K \<Longrightarrow> wakes_targets (wake_all K)"
  using wake_all_parked wake_all_targets by (auto simp: wakes_targets_def)

end

section \<open>Linux: linux/futex.cpp\<close>

datatype linux_call =
    FUTEX_WAIT futex_value
  | FUTEX_WAIT_BITSET futex_value futex_value
  | FUTEX_WAKE futex_value
  | FUTEX_WAKE_BITSET futex_value futex_value

definition INT_MAX :: futex_value where
  "INT_MAX = 2147483647"

definition linux_wake :: "nat \<Rightarrow> linux_call" where
  "linux_wake waiters_to_wake = FUTEX_WAKE (of_nat waiters_to_wake)"

definition linux_wake_one :: linux_call where
  "linux_wake_one = linux_wake 1"

definition linux_wake_all :: "futex_value \<Rightarrow> linux_call" where
  "linux_wake_all wake_bitset =
     (if wake_bitset = all_bits then FUTEX_WAKE INT_MAX else FUTEX_WAKE_BITSET INT_MAX wake_bitset)"

definition linux_wait_if_equal :: "futex_value \<Rightarrow> futex_value \<Rightarrow> linux_call" where
  "linux_wait_if_equal desired_value listen_bits =
     (if listen_bits = all_bits then FUTEX_WAIT desired_value
      else FUTEX_WAIT_BITSET desired_value listen_bits)"

text \<open>What a wait parks on: a plain \<open>FUTEX_WAIT\<close> matches any bitset (futex(2)).\<close>

fun linux_listen :: "linux_call \<Rightarrow> (futex_value \<times> futex_value) option" where
  "linux_listen (FUTEX_WAIT v) = Some (v, all_bits)"
| "linux_listen (FUTEX_WAIT_BITSET v b) = Some (v, b)"
| "linux_listen _ = None"

text \<open>futex(2): a wake call wakes at most the given number of the waiters that match.\<close>

definition linux_spec :: "(linux_call \<Rightarrow> parked \<Rightarrow> tid set \<Rightarrow> bool) \<Rightarrow> bool" where
  "linux_spec K \<longleftrightarrow> (\<forall>n b parked woken. finite (dom parked) \<longrightarrow>
     (K (FUTEX_WAKE n) parked woken \<longrightarrow>
        woken \<subseteq> dom parked \<and> card woken = min (unat n) (card (dom parked))) \<and>
     (K (FUTEX_WAKE_BITSET n b) parked woken \<longrightarrow>
        woken \<subseteq> listening b parked \<and> card woken = min (unat n) (card (listening b parked))))"

text \<open>The most liberal kernel within the manual, to instantiate the parameter with.\<close>

fun linux_futex :: "linux_call \<Rightarrow> parked \<Rightarrow> tid set \<Rightarrow> bool" where
  "linux_futex (FUTEX_WAKE n) parked woken =
     (woken \<subseteq> dom parked \<and> card woken = min (unat n) (card (dom parked)))"
| "linux_futex (FUTEX_WAKE_BITSET n b) parked woken =
     (woken \<subseteq> listening b parked \<and> card woken = min (unat n) (card (listening b parked)))"
| "linux_futex _ parked woken = False"

lemma linux_futex_spec: "linux_spec linux_futex"
  by (simp add: linux_spec_def)

lemma linux_wait_listens: "linux_listen (linux_wait_if_equal v b) = Some (v, b)"
  by (simp add: linux_wait_if_equal_def)

lemma linux_wake_all_covers:
  assumes "linux_spec K" "finite (dom parked)" "card (dom parked) < 2 ^ 31"
    and "K (linux_wake_all bits) parked woken"
  shows "listening bits parked \<subseteq> woken"
proof (cases "bits = all_bits")
  case True
  with assms have "woken \<subseteq> dom parked" "card woken = card (dom parked)"
    by (auto simp: linux_spec_def linux_wake_all_def INT_MAX_def)
  then have "woken = dom parked" using assms(2) by (simp add: card_subset_eq)
  then show ?thesis using listening_dom by simp
next
  case False
  let ?L = "listening bits parked"
  have fin: "finite ?L" and "card ?L \<le> card (dom parked)"
    using assms(2) listening_dom [of bits parked] by (auto intro: finite_subset card_mono)
  with False assms have "woken \<subseteq> ?L" "card woken = card ?L"
    by (auto simp: linux_spec_def linux_wake_all_def INT_MAX_def)
  then have "woken = ?L" using fin by (simp add: card_subset_eq)
  then show ?thesis by simp
qed

interpretation linux: futex_backend linux_spec
  "\<lambda>K n. K (linux_wake n)" "\<lambda>K b. K (linux_wake_all b)"
proof unfold_locales
  fix K :: "linux_call \<Rightarrow> parked \<Rightarrow> tid set \<Rightarrow> bool" and parked :: parked
    and woken :: "tid set" and count :: nat and bits :: futex_value
  assume spec: "linux_spec K" and fin: "finite (dom parked)"
  show "K (linux_wake count) parked woken \<Longrightarrow> woken \<subseteq> dom parked"
    using spec fin by (auto simp: linux_spec_def linux_wake_def)
  show "min count (card (dom parked)) \<le> card woken"
    if "count < 2 ^ 16" "K (linux_wake count) parked woken"
    using that spec fin unat_of_nat_small [of count, where 'a = 32]
    by (auto simp: linux_spec_def linux_wake_def)
  show "K (linux_wake_all bits) parked woken \<Longrightarrow> woken \<subseteq> dom parked"
    using spec fin order_trans [OF _ listening_dom, of woken bits parked]
    by (cases "bits = all_bits") (simp_all add: linux_spec_def linux_wake_all_def)
  show "card (dom parked) < 2 ^ 31 \<Longrightarrow> K (linux_wake_all bits) parked woken
      \<Longrightarrow> listening bits parked \<subseteq> woken"
    using spec fin by (rule linux_wake_all_covers)
qed

section \<open>macOS, Windows, Emscripten\<close>

text \<open>
  \<open>__ulock_wake\<close> wakes one waiter, or all of them with \<open>ULF_WAKE_ALL\<close>; it has no count and no
  bitset (apple/futex.cpp). \<open>WakeByAddressSingle\<close> and \<open>WakeByAddressAll\<close> are the same pair
  (windows/futex.cpp). \<open>emscripten_futex_wake\<close> takes a count (emscripten/futex.cpp).
\<close>

datatype address_call = Wake_Single | Wake_All

definition apple_wake_one :: address_call where
  "apple_wake_one = Wake_Single"

definition apple_wake_all :: "futex_value \<Rightarrow> address_call" where
  "apple_wake_all wake_bitset = Wake_All"

definition apple_wake :: "nat \<Rightarrow> address_call" where
  "apple_wake waiters_to_wake = apple_wake_all all_bits"

definition windows_wake_one :: address_call where
  "windows_wake_one = Wake_Single"

definition windows_wake_all :: "futex_value \<Rightarrow> address_call" where
  "windows_wake_all wake_bitset = Wake_All"

definition windows_wake :: "nat \<Rightarrow> address_call" where
  "windows_wake waiters_to_wake = windows_wake_all all_bits"

definition address_spec :: "(address_call \<Rightarrow> parked \<Rightarrow> tid set \<Rightarrow> bool) \<Rightarrow> bool" where
  "address_spec K \<longleftrightarrow> (\<forall>parked woken.
     (K Wake_Single parked woken \<longrightarrow> woken \<subseteq> dom parked \<and> (dom parked \<noteq> {} \<longrightarrow> card woken = 1)) \<and>
     (K Wake_All parked woken \<longrightarrow> woken = dom parked))"

interpretation apple: futex_backend address_spec
  "\<lambda>K n. K (apple_wake n)" "\<lambda>K b. K (apple_wake_all b)"
  by unfold_locales (auto simp: address_spec_def apple_wake_def apple_wake_all_def listening_def)

interpretation windows: futex_backend address_spec
  "\<lambda>K n. K (windows_wake n)" "\<lambda>K b. K (windows_wake_all b)"
  by unfold_locales (auto simp: address_spec_def windows_wake_def windows_wake_all_def listening_def)

definition emscripten_wake :: "nat \<Rightarrow> futex_value" where
  "emscripten_wake waiters_to_wake = of_nat waiters_to_wake"

definition emscripten_wake_one :: futex_value where
  "emscripten_wake_one = emscripten_wake 1"

definition emscripten_wake_all :: "futex_value \<Rightarrow> futex_value" where
  "emscripten_wake_all wake_bitset = INT_MAX"

definition emscripten_spec :: "(futex_value \<Rightarrow> parked \<Rightarrow> tid set \<Rightarrow> bool) \<Rightarrow> bool" where
  "emscripten_spec K \<longleftrightarrow> (\<forall>n parked woken. finite (dom parked) \<longrightarrow> K n parked woken \<longrightarrow>
     woken \<subseteq> dom parked \<and> card woken = min (unat n) (card (dom parked)))"

lemma emscripten_wake_all_dom:
  assumes "emscripten_spec K" "finite (dom parked)" "card (dom parked) < 2 ^ 31"
    and "K (emscripten_wake_all bits) parked woken"
  shows "woken = dom parked"
proof -
  have "woken \<subseteq> dom parked" "card woken = card (dom parked)"
    using assms by (auto simp: emscripten_spec_def emscripten_wake_all_def INT_MAX_def)
  then show ?thesis using assms(2) by (simp add: card_subset_eq)
qed

interpretation emscripten: futex_backend emscripten_spec
  "\<lambda>K n. K (emscripten_wake n)" "\<lambda>K b. K (emscripten_wake_all b)"
proof unfold_locales
  fix K :: "futex_value \<Rightarrow> parked \<Rightarrow> tid set \<Rightarrow> bool" and parked :: parked
    and woken :: "tid set" and count :: nat and bits :: futex_value
  assume spec: "emscripten_spec K" and fin: "finite (dom parked)"
  show "K (emscripten_wake count) parked woken \<Longrightarrow> woken \<subseteq> dom parked"
    using spec fin by (auto simp: emscripten_spec_def)
  show "min count (card (dom parked)) \<le> card woken"
    if "count < 2 ^ 16" "K (emscripten_wake count) parked woken"
    using that spec fin unat_of_nat_small [of count, where 'a = 32]
    by (auto simp: emscripten_spec_def emscripten_wake_def)
  show "K (emscripten_wake_all bits) parked woken \<Longrightarrow> woken \<subseteq> dom parked"
    using spec fin by (auto simp: emscripten_spec_def)
  show "card (dom parked) < 2 ^ 31 \<Longrightarrow> K (emscripten_wake_all bits) parked woken
      \<Longrightarrow> listening bits parked \<subseteq> woken"
    using emscripten_wake_all_dom [OF spec fin] listening_dom by blast
qed

section \<open>Theorems\<close>

text \<open>Concrete kernels within the documented behaviour.\<close>

fun address_futex :: "address_call \<Rightarrow> parked \<Rightarrow> tid set \<Rightarrow> bool" where
  "address_futex Wake_Single parked woken = (woken \<subseteq> dom parked \<and> (dom parked \<noteq> {} \<longrightarrow> card woken = 1))"
| "address_futex Wake_All parked woken = (woken = dom parked)"

definition emscripten_futex :: "futex_value \<Rightarrow> parked \<Rightarrow> tid set \<Rightarrow> bool" where
  "emscripten_futex n parked woken \<longleftrightarrow> woken \<subseteq> dom parked \<and> card woken = min (unat n) (card (dom parked))"

text \<open>C37. The futex contract holds on all four backends: \<open>wake\<close> of up to 65535 waiters (a
  \<open>hardware_concurrency_t\<close>) wakes at least as many as are asked for and parked, and only parked
  ones; \<open>wake_all\<close> wakes every parked thread that listens on one of the bits. A Linux wait listens
  on exactly the bits it was given.\<close>

theorem futex_wake_contract:
  assumes "linux_spec L" and "address_spec A" and "emscripten_spec E"
  shows "wakes_enough (\<lambda>n. L (linux_wake n)) \<and> wakes_targets (\<lambda>b. L (linux_wake_all b)) \<and>
    wakes_enough (\<lambda>n. A (apple_wake n)) \<and> wakes_targets (\<lambda>b. A (apple_wake_all b)) \<and>
    wakes_enough (\<lambda>n. A (windows_wake n)) \<and> wakes_targets (\<lambda>b. A (windows_wake_all b)) \<and>
    wakes_enough (\<lambda>n. E (emscripten_wake n)) \<and> wakes_targets (\<lambda>b. E (emscripten_wake_all b)) \<and>
    linux_listen (linux_wait_if_equal v b) = Some (v, b)"
  using linux.wake_contract [OF assms(1)] linux.wake_all_contract [OF assms(1)]
    apple.wake_contract [OF assms(2)] apple.wake_all_contract [OF assms(2)]
    windows.wake_contract [OF assms(2)] windows.wake_all_contract [OF assms(2)]
    emscripten.wake_contract [OF assms(3)] emscripten.wake_all_contract [OF assms(3)]
    linux_wait_listens by simp

theorem futex_wake_contract_witness:
  "wakes_enough (\<lambda>n. linux_futex (linux_wake n)) \<and> wakes_targets (\<lambda>b. address_futex (apple_wake_all b)) \<and>
   wakes_targets (\<lambda>b. emscripten_futex (emscripten_wake_all b))"
  using futex_wake_contract [of linux_futex address_futex emscripten_futex] linux_futex_spec
  by (simp add: address_spec_def emscripten_spec_def emscripten_futex_def)

end
