(* ===== verification/Semaphore.thy ===== *)
theory Semaphore
  imports Futex
begin

text \<open>
  The futex semaphore (threading/semaphore.hpp, threading/futex_semaphore.cpp): three words, and
  one step per atomic operation on them. Its \<open>wait\<close>, spinning \<open>wait\<close> and \<open>signal\<close> run in
  any interleaving of \<open>n\<close> threads (sequentially consistent, which is what the fence and the
  \<open>seq_cst\<close> operations of the source are there to give for these three words).
\<close>

section \<open>State\<close>

record 'hc sem =
  sem_value :: "32 word"
  sem_credits :: futex_value
  sem_sleepers :: 'hc

definition sem_new :: "'h::len word sem" where
  "sem_new = \<lparr>sem_value = 0, sem_credits = 0, sem_sleepers = 0\<rparr>"

text \<open>\<open>pending()\<close>: the token count, negative when waiters are in debt.\<close>

definition pending :: "'h::len word sem \<Rightarrow> int" where
  "pending m = sint (sem_value m)"

text \<open>
  Where a thread is: outside (\<open>Idle\<close>), in the spinning \<open>wait\<close>, in \<open>wait\<close>, or in \<open>signal\<close>.
  The local variables of the source are the arguments.
\<close>

datatype 'hc sem_pc =
    Idle
  | Spin_Load "32 word"                       \<comment> \<open>spin_count\<close>
  | Spin "32 word" "32 word" "32 word"        \<comment> \<open>spin_count, spin_try, value\<close>
  | Wait_Sub
  | Wait_Register
  | Wait_Load
  | Wait_Cas "32 word"                        \<comment> \<open>credits\<close>
  | Wait_Park
  | Parked
  | Wait_Unregister
  | Signal_Add 'hc                            \<comment> \<open>count\<close>
  | Signal_Deposit 'hc                        \<comment> \<open>to_wake\<close>
  | Signal_Gate 'hc
  | Signal_Wake 'hc

datatype sem_event = Tau | Took_Token | Added_Tokens nat

section \<open>The operations, one atomic access at a time\<close>

text \<open>
  The successors of a thread at a program point. A list, because a weak compare-exchange may
  fail spuriously. \<open>Parked\<close> and \<open>Signal_Wake\<close> involve other threads and are in the step
  relation below.
\<close>

fun sem_next :: "'h::len word sem \<Rightarrow> 'h word sem_pc \<Rightarrow> (sem_event \<times> 'h word sem \<times> 'h word sem_pc) list"
where
  "sem_next m (Spin_Load spin_count) = [(Tau, m, Spin spin_count 0 (sem_value m))]"
| "sem_next m (Spin spin_count spin_try v) =
     (if spin_try < spin_count
      then if 0 <s v
           then (if sem_value m = v then [(Took_Token, m\<lparr>sem_value := v - 1\<rparr>, Idle)] else [])
                @ [(Tau, m, Spin spin_count spin_try (sem_value m))]
           else [(Tau, m, Spin spin_count (spin_try + 1) (sem_value m))]
      else [(Tau, m, Wait_Sub)])"
| "sem_next m Wait_Sub =
     (if 0 <s sem_value m
      then [(Took_Token, m\<lparr>sem_value := sem_value m - 1\<rparr>, Idle)]
      else [(Tau, m\<lparr>sem_value := sem_value m - 1\<rparr>, Wait_Register)])"
| "sem_next m Wait_Register = [(Tau, m\<lparr>sem_sleepers := sem_sleepers m + 1\<rparr>, Wait_Load)]"
| "sem_next m Wait_Load = [(Tau, m, if 0 < sem_credits m then Wait_Cas (sem_credits m) else Wait_Park)]"
| "sem_next m (Wait_Cas credits) =
     (if sem_credits m = credits then [(Took_Token, m\<lparr>sem_credits := credits - 1\<rparr>, Wait_Unregister)] else [])
     @ [(Tau, m, if 0 < sem_credits m then Wait_Cas (sem_credits m) else Wait_Park)]"
| "sem_next m Wait_Park = [(Tau, m, if parks (sem_credits m) 0 then Parked else Wait_Load)]"
| "sem_next m Wait_Unregister = [(Tau, m\<lparr>sem_sleepers := sem_sleepers m - 1\<rparr>, Idle)]"
| "sem_next m (Signal_Add count) =
     (if count = 0 then [(Tau, m, Idle)]
      else let old_value = sem_value m; m' = m\<lparr>sem_value := old_value + ucast count\<rparr>
           in [(Added_Tokens (unat count), m',
                if 0 \<le>s old_value then Idle
                else Signal_Deposit (min (ucast (- old_value)) count))])"
| "sem_next m (Signal_Deposit to_wake) =
     [(Tau, m\<lparr>sem_credits := sem_credits m + ucast to_wake\<rparr>, Signal_Gate to_wake)]"
| "sem_next m (Signal_Gate to_wake) =
     [(Tau, m, if sem_sleepers m \<noteq> 0 then Signal_Wake to_wake else Idle)]"
| "sem_next m _ = []"

section \<open>The system\<close>

text \<open>
  \<open>signalled\<close> and \<open>taken\<close> are history variables: the tokens added by \<open>signal\<close> and those that
  \<open>wait\<close> calls have taken.
\<close>

record 'hc sem_sys =
  mem :: "'hc sem"
  pc :: "tid \<Rightarrow> 'hc sem_pc"
  signalled :: int
  taken :: int

definition sem_init :: "'h::len word sem_sys \<Rightarrow> bool" where
  "sem_init s \<longleftrightarrow> mem s = sem_new \<and> pc s = (\<lambda>_. Idle) \<and> signalled s = 0 \<and> taken s = 0"

definition sem_parked :: "nat \<Rightarrow> (tid \<Rightarrow> 'hc sem_pc) \<Rightarrow> parked" where
  "sem_parked n p = (\<lambda>t. if t < n \<and> p t = Parked then Some all_bits else None)"

fun record_event :: "sem_event \<Rightarrow> 'hc sem_sys \<Rightarrow> 'hc sem_sys" where
  "record_event Tau s = s"
| "record_event Took_Token s = s\<lparr>taken := taken s + 1\<rparr>"
| "record_event (Added_Tokens k) s = s\<lparr>signalled := signalled s + int k\<rparr>"

definition sem_entry :: "'h::len word sem_pc \<Rightarrow> bool" where
  "sem_entry p \<longleftrightarrow> p = Wait_Sub \<or> (\<exists>c. p = Spin_Load c) \<or> (\<exists>c. p = Signal_Add c)"

inductive sem_step ::
  "(nat \<Rightarrow> parked \<Rightarrow> tid set \<Rightarrow> bool) \<Rightarrow> nat \<Rightarrow> 'h::len word sem_sys \<Rightarrow> 'h word sem_sys \<Rightarrow> bool"
  for wake n where
  call: "t < n \<Longrightarrow> pc s t = Idle \<Longrightarrow> sem_entry p \<Longrightarrow> sem_step wake n s (s\<lparr>pc := (pc s)(t := p)\<rparr>)"
| internal: "t < n \<Longrightarrow> (e, m', p') \<in> set (sem_next (mem s) (pc s t)) \<Longrightarrow>
    sem_step wake n s (record_event e (s\<lparr>mem := m', pc := (pc s)(t := p')\<rparr>))"
| spurious: "t < n \<Longrightarrow> pc s t = Parked \<Longrightarrow> sem_step wake n s (s\<lparr>pc := (pc s)(t := Wait_Load)\<rparr>)"
| wake_up: "t < n \<Longrightarrow> pc s t = Signal_Wake to_wake \<Longrightarrow>
    wake (unat to_wake) (sem_parked n (pc s)) woken \<Longrightarrow>
    sem_step wake n s (s\<lparr>pc := (move_all woken Wait_Load (pc s))(t := Idle)\<rparr>)"

text \<open>
  The token count is a signed 32-bit word: the steps below leave room for one more \<open>signal\<close>,
  that is, fewer than \<open>2\<^sup>3\<^sup>1 - 2\<^sup>1\<^sup>6\<close> tokens are unconsumed.
\<close>

definition has_room :: "'h::len word sem_sys \<Rightarrow> bool" where
  "has_room s \<longleftrightarrow> sint (sem_value (mem s)) < 2 ^ 31 - 2 ^ 16"

definition sem_run_step ::
  "(nat \<Rightarrow> parked \<Rightarrow> tid set \<Rightarrow> bool) \<Rightarrow> nat \<Rightarrow> 'h::len word sem_sys \<Rightarrow> 'h word sem_sys \<Rightarrow> bool" where
  "sem_run_step wake n s s' \<longleftrightarrow> sem_step wake n s s' \<and> has_room s \<and> has_room s'"

section \<open>The invariant\<close>

fun debt :: "'hc sem_pc \<Rightarrow> nat" where
  "debt Wait_Register = 1" | "debt Wait_Load = 1" | "debt (Wait_Cas _) = 1"
| "debt Wait_Park = 1" | "debt Parked = 1" | "debt _ = 0"

fun awake_debt :: "'hc sem_pc \<Rightarrow> nat" where
  "awake_debt Wait_Register = 1" | "awake_debt Wait_Load = 1" | "awake_debt (Wait_Cas _) = 1"
| "awake_debt Wait_Park = 1" | "awake_debt _ = 0"

fun parked_debt :: "'hc sem_pc \<Rightarrow> nat" where
  "parked_debt Parked = 1" | "parked_debt _ = 0"

fun registered :: "'hc sem_pc \<Rightarrow> nat" where
  "registered Wait_Load = 1" | "registered (Wait_Cas _) = 1" | "registered Wait_Park = 1"
| "registered Parked = 1" | "registered Wait_Unregister = 1" | "registered _ = 0"

fun undeposited :: "'h::len word sem_pc \<Rightarrow> nat" where
  "undeposited (Signal_Deposit k) = unat k" | "undeposited _ = 0"

fun waking :: "'h::len word sem_pc \<Rightarrow> nat" where
  "waking (Signal_Gate k) = unat k" | "waking (Signal_Wake k) = unat k" | "waking _ = 0"

text \<open>
  \<open>balance\<close>: the waiters in debt are the credits deposited, those on their way, and the deficit
  of the token word. \<open>sleepers_exact\<close>: the gate word counts the registered waiters.
  \<open>no_lost_wake\<close>: as long as a thread is parked, every credit has an awake waiter or a pending
  wake call to its name. \<open>history\<close>: the token word is the difference of the histories.
\<close>

definition balance :: "nat \<Rightarrow> 'h::len word sem_sys \<Rightarrow> bool" where
  "balance n s \<longleftrightarrow> weight n debt (pc s) =
     uint (sem_credits (mem s)) + weight n undeposited (pc s) + max 0 (- sint (sem_value (mem s)))"

definition sleepers_exact :: "nat \<Rightarrow> 'h::len word sem_sys \<Rightarrow> bool" where
  "sleepers_exact n s \<longleftrightarrow> uint (sem_sleepers (mem s)) = weight n registered (pc s)"

definition no_lost_wake :: "nat \<Rightarrow> 'h::len word sem_sys \<Rightarrow> bool" where
  "no_lost_wake n s \<longleftrightarrow> weight n parked_debt (pc s) = 0 \<or>
     uint (sem_credits (mem s)) \<le> weight n awake_debt (pc s) + weight n waking (pc s)"

definition history :: "nat \<Rightarrow> 'h::len word sem_sys \<Rightarrow> bool" where
  "history n s \<longleftrightarrow> sint (sem_value (mem s)) = signalled s - taken s - weight n debt (pc s)"

definition sem_inv :: "nat \<Rightarrow> 'h::len word sem_sys \<Rightarrow> bool" where
  "sem_inv n s \<longleftrightarrow> balance n s \<and> sleepers_exact n s \<and> no_lost_wake n s \<and> history n s
     \<and> (\<forall>t c. pc s t = Wait_Cas c \<longrightarrow> 0 < c)"


lemmas sem_inv_defs = sem_inv_def balance_def sleepers_exact_def no_lost_wake_def history_def

lemma sem_init_inv: "sem_init s \<Longrightarrow> sem_inv n s"
  by (simp add: sem_init_def sem_inv_defs sem_new_def weight_def total_weight_def)

lemma debt_split: "weight n debt (p :: tid \<Rightarrow> 'hc sem_pc) = weight n awake_debt p + weight n parked_debt p"
proof -
  have "debt = (\<lambda>q :: 'hc sem_pc. awake_debt q + parked_debt q)"
  proof
    show "debt q = awake_debt q + parked_debt q" for q :: "'hc sem_pc" by (cases q) auto
  qed
  from arg_cong [OF this, of "\<lambda>f. weight n f p"] show ?thesis by (simp only: weight_add)
qed

lemma debt_le: "weight n debt (p :: tid \<Rightarrow> 'hc sem_pc) \<le> int n"
proof (rule weight_le)
  show "debt q \<le> 1" for q :: "'hc sem_pc" by (cases q) auto
qed

lemma registered_le: "weight n registered (p :: tid \<Rightarrow> 'hc sem_pc) \<le> int n"
proof (rule weight_le)
  show "registered q \<le> 1" for q :: "'hc sem_pc" by (cases q) auto
qed

lemma parked_le_registered: "weight n parked_debt (p :: tid \<Rightarrow> 'hc sem_pc) \<le> weight n registered p"
proof -
  have "parked_debt q \<le> registered q" for q :: "'hc sem_pc" by (cases q) auto
  then show ?thesis by (simp add: weight_def total_weight_mono)
qed

text \<open>The bounds the words need, from the invariant.\<close>

lemma sem_inv_bounds:
  assumes "sem_inv n s"
  shows "- int n \<le> sint (sem_value (mem s))"
    and "uint (sem_credits (mem s)) + weight n undeposited (pc s) \<le> int n"
proof -
  from assms have b: "weight n debt (pc s) =
     uint (sem_credits (mem s)) + weight n undeposited (pc s) + max 0 (- sint (sem_value (mem s)))"
    by (simp add: sem_inv_def balance_def)
  note d = debt_le [of n "pc s"] and w = weight_nonneg [of n undeposited "pc s"]
  have "0 \<le> uint (sem_credits (mem s))" by simp
  with b d w show "- int n \<le> sint (sem_value (mem s))"
    and "uint (sem_credits (mem s)) + weight n undeposited (pc s) \<le> int n" by linarith+
qed

section \<open>Every step keeps the invariant\<close>

text \<open>
  A local step: the thread \<open>t\<close> moves to \<open>p'\<close> and the words become \<open>m'\<close>. What remains of
  the invariant are the differences at \<open>t\<close>.
\<close>

lemma sem_inv_local:
  assumes inv: "sem_inv n s" and t: "t < n"
    and mem': "mem s' = m'" and pc': "pc s' = (pc s)(t := p')"
    and hist: "signalled s' - taken s' = signalled s - taken s + d"
    and d_value: "sint (sem_value m') = sint (sem_value (mem s)) + d - int (debt p') + int (debt (pc s t))"
    and bal: "int (debt p') - int (debt (pc s t)) =
        (uint (sem_credits m') - uint (sem_credits (mem s)))
        + (int (undeposited p') - int (undeposited (pc s t)))
        + (max 0 (- sint (sem_value m')) - max 0 (- sint (sem_value (mem s))))"
    and sleep: "uint (sem_sleepers m') - uint (sem_sleepers (mem s))
        = int (registered p') - int (registered (pc s t))"
    and wake: "weight n parked_debt ((pc s)(t := p')) = 0 \<or>
        (parked_debt p' \<le> parked_debt (pc s t) \<and>
         uint (sem_credits m') - uint (sem_credits (mem s)) \<le>
         int (awake_debt p') - int (awake_debt (pc s t)) + int (waking p') - int (waking (pc s t))) \<or>
        uint (sem_credits m') = 0"
    and cas: "\<And>c. p' = Wait_Cas c \<Longrightarrow> 0 < c"
  shows "sem_inv n s'"
proof -
  from inv have b: "balance n s" and e: "sleepers_exact n s" and l: "no_lost_wake n s"
    and h: "history n s" and c: "\<And>t c. pc s t = Wait_Cas c \<Longrightarrow> 0 < c"
    by (auto simp: sem_inv_def)
  have "balance n s'" using b bal by (simp add: balance_def mem' pc' weight_upd [OF t])
  moreover have "sleepers_exact n s'" using e sleep
    by (simp add: sleepers_exact_def mem' pc' weight_upd [OF t])
  moreover have "history n s'" using h hist d_value
    by (simp add: history_def mem' pc' weight_upd [OF t])
  moreover have "no_lost_wake n s'" using wake
  proof (elim disjE)
    assume "uint (sem_credits m') = 0"
    then show ?thesis by (simp only: no_lost_wake_def mem' add_nonneg_nonneg weight_nonneg simp_thms)
  next
    assume less: "parked_debt p' \<le> parked_debt (pc s t) \<and>
         uint (sem_credits m') - uint (sem_credits (mem s)) \<le>
         int (awake_debt p') - int (awake_debt (pc s t)) + int (waking p') - int (waking (pc s t))"
    have "weight n parked_debt (pc s) = 0 \<Longrightarrow> weight n parked_debt (pc s') = 0"
      using less weight_nonneg [of n parked_debt "pc s'"] by (simp add: pc' weight_upd [OF t])
    with l less show ?thesis
      by (auto simp: no_lost_wake_def mem' pc' weight_upd [OF t] simp del: uint_nat)
  qed (simp add: no_lost_wake_def mem' pc')
  moreover have "\<forall>u c. pc s' u = Wait_Cas c \<longrightarrow> 0 < c" using c cas by (simp add: pc')
  ultimately show ?thesis by (simp add: sem_inv_def)
qed


text \<open>The value word: an addition or subtraction that stays in range.\<close>

lemma sem_inv_value_dec:
  assumes "sem_inv n s" "n < 2 ^ 31"
  shows "sint (sem_value (mem s) - 1) = sint (sem_value (mem s)) - 1"
  using sem_inv_bounds(1) [OF assms(1)] assms(2) by (intro sint_minus_1) simp

lemma sem_inv_value_add:
  assumes "sem_inv n s" "n < 2 ^ 31" "has_room s" "LENGTH('h::len) \<le> 16"
  shows "sint (sem_value (mem s) + ucast (count :: 'h word)) = sint (sem_value (mem s)) + int (unat count)"
proof (rule value_add_small [OF _ _ assms(4)])
  show "- (2 ^ 31) \<le> sint (sem_value (mem s))"
    using sem_inv_bounds(1) [OF assms(1)] assms(2) by simp
  show "sint (sem_value (mem s)) < 2 ^ 31 - 2 ^ 16" using assms(3) by (simp add: has_room_def)
qed

text \<open>The cast of the deficit to \<open>hardware_concurrency_t\<close> loses nothing: there are fewer waiters.\<close>

lemma sem_inv_deficit_cast:
  assumes "sem_inv n s" "int n < 2 ^ LENGTH('h::len)" "n < 2 ^ 31" "sint (sem_value (mem s)) < 0"
  shows "int (unat (ucast (- sem_value (mem s)) :: 'h word)) = - sint (sem_value (mem s))"
  by (rule deficit_cast) (use sem_inv_bounds(1) [OF assms(1)] assms(2,4) in linarith)+

text \<open>One lemma per program point.\<close>

lemmas pc_weights = debt.simps awake_debt.simps parked_debt.simps registered.simps undeposited.simps
  waking.simps

lemma sem_inv_next:
  fixes s :: "'h::len word sem_sys"
  assumes inv: "sem_inv n s" and t: "t < n" and small: "int n < 2 ^ LENGTH('h)" "n < 2 ^ 31"
    and width: "LENGTH('h) \<le> 16" and room: "has_room s"
    and nxt: "(e, m', p') \<in> set (sem_next (mem s) (pc s t))"
  shows "sem_inv n (record_event e (s\<lparr>mem := m', pc := (pc s)(t := p')\<rparr>))"
proof (cases "pc s t")
  case (Spin_Load c)
  with nxt show ?thesis
    by (intro sem_inv_local [OF inv t, where d = 0 and m' = m' and p' = p']) auto
next
  case (Spin c i v)
  have dec: "sint (v - 1) = sint v - 1" if "sem_value (mem s) = v"
    using sem_inv_value_dec [OF inv small(2)] that by simp
  show ?thesis
  proof (cases "e = Took_Token")
    case True
    with nxt Spin dec show ?thesis
      by (intro sem_inv_local [OF inv t, where d = "-1" and m' = m' and p' = p'])
        (auto simp: word_sless_alt split: if_splits)
  next
    case False
    with nxt Spin show ?thesis
      by (intro sem_inv_local [OF inv t, where d = 0 and m' = m' and p' = p'])
        (auto split: if_splits)
  qed
next
  case Wait_Sub
  have dec: "sint (sem_value (mem s) - 1) = sint (sem_value (mem s)) - 1"
    by (rule sem_inv_value_dec [OF inv small(2)])
  show ?thesis
  proof (cases "0 <s sem_value (mem s)")
    case True
    with nxt Wait_Sub dec show ?thesis
      by (intro sem_inv_local [OF inv t, where d = "-1" and m' = m' and p' = p'])
        (auto simp: word_sless_alt)
  next
    case False
    with nxt Wait_Sub dec show ?thesis
      by (intro sem_inv_local [OF inv t, where d = 0 and m' = m' and p' = p'])
        (auto simp: word_sless_alt)
  qed
next
  case Wait_Register
  have "weight n registered (pc s) < int n"
  proof -
    have "weight n registered ((pc s)(t := Wait_Load)) \<le> int n" by (rule registered_le)
    then show ?thesis using Wait_Register by (simp add: weight_upd [OF t])
  qed
  then have "weight n registered (pc s) + 1 < 2 ^ LENGTH('h)" using small(1) by linarith
  then have "uint (sem_sleepers (mem s) + 1) = uint (sem_sleepers (mem s)) + 1"
    using inv by (subst uint_plus_small) (auto simp: sem_inv_def sleepers_exact_def)
  with nxt Wait_Register show ?thesis
    by (intro sem_inv_local [OF inv t, where d = 0 and m' = m' and p' = p']) auto
next
  case Wait_Load
  with nxt show ?thesis
    by (intro sem_inv_local [OF inv t, where d = 0 and m' = m' and p' = p']) (auto split: if_splits)
next
  case (Wait_Cas c)
  have c: "0 < c" using inv Wait_Cas by (auto simp: sem_inv_def)
  show ?thesis
  proof (cases "e = Took_Token")
    case True
    with nxt Wait_Cas uint_minus_1 [OF c] show ?thesis
      by (intro sem_inv_local [OF inv t, where d = "-1" and m' = m' and p' = p'])
        (auto split: if_splits)
  next
    case False
    with nxt Wait_Cas show ?thesis
      by (intro sem_inv_local [OF inv t, where d = 0 and m' = m' and p' = p'])
        (auto split: if_splits)
  qed
next
  case Wait_Park
  with nxt show ?thesis
    by (intro sem_inv_local [OF inv t, where d = 0 and m' = m' and p' = p'])
      (auto simp: parks_def split: if_splits)
next
  case Wait_Unregister
  have "int (registered (pc s t)) \<le> weight n registered (pc s)" by (rule weight_ge [OF t])
  then have "0 < sem_sleepers (mem s)"
    using inv Wait_Unregister by (auto simp: sem_inv_def sleepers_exact_def word_less_alt)
  with nxt Wait_Unregister uint_minus_1 [of "sem_sleepers (mem s)"] show ?thesis
    by (intro sem_inv_local [OF inv t, where d = 0 and m' = m' and p' = p']) auto
next
  case (Signal_Add count)
  show ?thesis
  proof (cases "count = 0")
    case True
    with nxt Signal_Add show ?thesis
      by (intro sem_inv_local [OF inv t, where d = 0 and m' = m' and p' = p']) auto
  next
    case False
    let ?v = "sem_value (mem s)"
    note add = sem_inv_value_add [OF inv small(2) room width, of count]
    have e: "e = Added_Tokens (unat count)" and m': "m' = (mem s)\<lparr>sem_value := ?v + ucast count\<rparr>"
      and p': "p' = (if 0 \<le>s ?v then Idle else Signal_Deposit (min (ucast (- ?v)) count))"
      using nxt Signal_Add False by (auto simp: Let_def)
    have dep: "int (undeposited p') = max 0 (- sint ?v) - max 0 (- sint (?v + ucast count))"
    proof (cases "0 \<le>s ?v")
      case True
      then have "0 \<le> sint ?v" "0 \<le> sint (?v + ucast count)"
        using add by (simp_all add: word_sle_eq del: uint_nat)
      with True show ?thesis by (simp add: p')
    next
      case False
      then have neg: "sint ?v < 0" by (simp add: word_sle_eq)
      have "int (unat (min (ucast (- ?v)) count)) = min (- sint ?v) (int (unat count))"
        by (simp only: unat_min of_nat_min sem_inv_deficit_cast [OF inv small neg])
      with False neg add show ?thesis by (simp add: p')
    qed
    have z: "debt p' = 0" "registered p' = 0" "parked_debt p' = 0" "awake_debt p' = 0" "waking p' = 0"
      "p' = Wait_Cas c \<Longrightarrow> 0 < c" for c
      by (simp_all add: p' split: if_splits)
    show ?thesis unfolding e
      by (intro sem_inv_local [OF inv t, where d = "int (unat count)" and m' = m' and p' = p'])
        (simp_all add: m' z Signal_Add dep add del: uint_nat)
  qed
next
  case (Signal_Deposit k)
  have wide: "LENGTH('h) \<le> LENGTH(32)" using width by simp
  have "int (undeposited (pc s t)) \<le> weight n undeposited (pc s)" by (rule weight_ge [OF t])
  then have "uint (sem_credits (mem s)) + int (unat k) \<le> int n"
    using sem_inv_bounds(2) [OF inv] Signal_Deposit by simp
  then have "uint (sem_credits (mem s) + ucast k) = uint (sem_credits (mem s)) + int (unat k)"
    using small(2) uint_ucast_widen [OF wide, of k] by (subst uint_plus_small) simp_all
  with nxt Signal_Deposit show ?thesis
    by (intro sem_inv_local [OF inv t, where d = 0 and m' = m' and p' = p']) auto
next
  case (Signal_Gate k)
  have "weight n parked_debt ((pc s)(t := Idle)) = 0" if "sem_sleepers (mem s) = 0"
    using that inv parked_le_registered [of n "pc s"] weight_nonneg [of n parked_debt "pc s"]
    by (simp add: sem_inv_def sleepers_exact_def weight_upd [OF t] Signal_Gate)
  with nxt Signal_Gate show ?thesis
    by (intro sem_inv_local [OF inv t, where d = 0 and m' = m' and p' = p']) (auto split: if_splits)
qed (use nxt in auto)


lemma dom_sem_parked: "dom (sem_parked n p) = {t. t < n \<and> p t = Parked}"
  by (auto simp: sem_parked_def split: if_splits)

lemma finite_sem_parked: "finite (dom (sem_parked n p))"
  by (simp add: dom_sem_parked)

lemma card_sem_parked:
  "int (card (dom (sem_parked n (p :: tid \<Rightarrow> 'hc sem_pc)))) = weight n parked_debt p"
proof -
  have "parked_debt = (\<lambda>q :: 'hc sem_pc. of_bool (q = Parked))"
  proof
    show "parked_debt q = of_bool (q = Parked)" for q :: "'hc sem_pc" by (cases q) auto
  qed
  from arg_cong [OF this, of "\<lambda>f. weight n f p"] show ?thesis
    by (simp only: weight_card dom_sem_parked)
qed

lemma no_lost_wakeI:
  "sem_inv n s \<Longrightarrow> weight n parked_debt (pc s) = 0 \<or>
     uint (sem_credits (mem s)) \<le> weight n awake_debt (pc s) + weight n waking (pc s)"
  by (simp add: sem_inv_def no_lost_wake_def)

text \<open>The wake call: every woken thread was parked, and enough are woken.\<close>

lemma sem_inv_wake_up:
  fixes s :: "'h::len word sem_sys"
  assumes inv: "sem_inv n s" and t: "t < n" and width: "LENGTH('h) \<le> 16"
    and wake: "wakes_enough wake" and pc: "pc s t = Signal_Wake k"
    and woken: "wake (unat k) (sem_parked n (pc s)) woken"
  shows "sem_inv n (s\<lparr>pc := (move_all woken Wait_Load (pc s))(t := Idle)\<rparr>)"
proof -
  let ?p = "move_all woken Wait_Load (pc s)" and ?w = "int (card woken)"
  have "unat k < 2 ^ 16"
    using unat_lt2p [of k] width by (meson less_le_trans one_le_numeral power_increasing)
  then have sub: "woken \<subseteq> {t. t < n \<and> pc s t = Parked}"
    and enough: "min (unat k) (card (dom (sem_parked n (pc s)))) \<le> card woken"
    using wakes_enoughD [OF wake finite_sem_parked woken] by (auto simp: dom_sem_parked)
  then have T: "woken \<subseteq> {..<n}" and same: "\<And>u. u \<in> woken \<Longrightarrow> pc s u = Parked" by auto
  have pt: "?p t = Signal_Wake k" using pc same by (auto simp: move_all_def)
  note mv = weight_move_all [OF T, where x = Wait_Load and pc = "pc s"]
  have w: "weight n debt ?p = weight n debt (pc s)" "weight n undeposited ?p = weight n undeposited (pc s)"
    "weight n registered ?p = weight n registered (pc s)"
    "weight n parked_debt ?p = weight n parked_debt (pc s) - ?w"
    "weight n awake_debt ?p = weight n awake_debt (pc s) + ?w"
    "weight n waking ?p = weight n waking (pc s)"
    using mv [where f = debt and k = 1] mv [where f = undeposited and k = 0]
      mv [where f = registered and k = 1] mv [where f = parked_debt and k = 1]
      mv [where f = awake_debt and k = 0] mv [where f = waking and k = 0] same
    by simp_all
  from inv have b: "balance n s" "sleepers_exact n s" "history n s" by (simp_all add: sem_inv_def)
  have kept: "weight n debt (?p(t := Idle)) = weight n debt (pc s)"
    "weight n undeposited (?p(t := Idle)) = weight n undeposited (pc s)"
    "weight n registered (?p(t := Idle)) = weight n registered (pc s)"
    by (simp_all add: weight_upd [OF t] pt w)
  have "min (int (unat k)) (weight n parked_debt (pc s)) \<le> ?w"
    using enough card_sem_parked [of n "pc s"] by linarith
  moreover have "weight n parked_debt (?p(t := Idle)) = weight n parked_debt (pc s) - ?w"
    "weight n awake_debt (?p(t := Idle)) = weight n awake_debt (pc s) + ?w"
    "weight n waking (?p(t := Idle)) = weight n waking (pc s) - int (unat k)"
    by (simp_all add: weight_upd [OF t] pt w del: uint_nat)
  moreover note no_lost_wakeI [OF inv] weight_nonneg [of n parked_debt "?p(t := Idle)"]
  ultimately have "weight n parked_debt (?p(t := Idle)) = 0 \<or> uint (sem_credits (mem s)) \<le>
      weight n awake_debt (?p(t := Idle)) + weight n waking (?p(t := Idle))"
    by linarith
  then have "no_lost_wake n (s\<lparr>pc := ?p(t := Idle)\<rparr>)"
    by (simp add: no_lost_wake_def)
  moreover have "balance n (s\<lparr>pc := ?p(t := Idle)\<rparr>)" "sleepers_exact n (s\<lparr>pc := ?p(t := Idle)\<rparr>)"
    "history n (s\<lparr>pc := ?p(t := Idle)\<rparr>)"
    using b by (simp_all add: balance_def sleepers_exact_def history_def kept)
  moreover have "\<forall>u c. (?p(t := Idle)) u = Wait_Cas c \<longrightarrow> 0 < c"
    using inv by (auto simp: sem_inv_def move_all_def)
  ultimately show ?thesis by (simp add: sem_inv_def)
qed

lemma sem_inv_step:
  fixes s :: "'h::len word sem_sys"
  assumes "sem_inv n s" "sem_run_step wake n s s'" "int n < 2 ^ LENGTH('h)" "LENGTH('h) \<le> 16"
    "wakes_enough wake"
  shows "sem_inv n s'"
proof -
  have "(2::int) ^ LENGTH('h) \<le> 2 ^ 16" using assms(4) by (intro power_increasing) simp_all
  with assms(3) have "int n < 2 ^ 16" by (rule less_le_trans)
  then have n: "n < 2 ^ 31" by simp
  from assms(2) have step: "sem_step wake n s s'" and room: "has_room s" by (auto simp: sem_run_step_def)
  from step show ?thesis
  proof cases
    case (call t p)
    from call(4) have "debt p = 0" "registered p = 0" "parked_debt p = 0" "awake_debt p = 0"
      "undeposited p = 0" "waking p = 0" "p = Wait_Cas c \<Longrightarrow> 0 < c" for c
      by (auto simp: sem_entry_def)
    with call(1,3) show ?thesis
      by (intro sem_inv_local [OF assms(1) call(2), where d = 0 and m' = "mem s" and p' = p]) simp_all
  next
    case (internal t e m' p')
    show ?thesis unfolding internal(1)
      by (rule sem_inv_next [OF assms(1) internal(2) assms(3) n assms(4) room internal(3)])
  next
    case (spurious t)
    then show ?thesis
      by (intro sem_inv_local [OF assms(1) spurious(2), where d = 0 and m' = "mem s" and p' = Wait_Load])
        simp_all
  next
    case (wake_up t k woken)
    show ?thesis unfolding wake_up(1)
      by (rule sem_inv_wake_up [OF assms(1) wake_up(2) assms(4,5) wake_up(3,4)])
  qed
qed

section \<open>What the semaphore promises\<close>

text \<open>
  The setting: fewer threads than \<open>hardware_concurrency_t\<close> counts, at most 16 bits wide (it is 8
  or 16), and a backend that honours the wake contract.
\<close>

definition sem_setting ::
  "(nat \<Rightarrow> parked \<Rightarrow> tid set \<Rightarrow> bool) \<Rightarrow> nat \<Rightarrow> 'h::len word sem_sys \<Rightarrow> bool" where
  "sem_setting wake n s \<longleftrightarrow> wakes_enough wake \<and> int n < 2 ^ LENGTH('h) \<and> LENGTH('h) \<le> 16"

interpretation sem_machine: invariant_system sem_init "sem_run_step wake n"
  "\<lambda>s. sem_setting wake n s \<longrightarrow> sem_inv n s" for wake n
  by unfold_locales (auto simp: sem_setting_def intro: sem_init_inv sem_inv_step)

lemma sem_inv_tokens:
  assumes "sem_inv n s"
  shows "signalled s - taken s =
    max 0 (pending (mem s)) + uint (sem_credits (mem s)) + weight n undeposited (pc s)"
proof -
  have "max 0 v + max 0 (- v) = v + 2 * max 0 (- v)" for v :: int by (simp add: max_def)
  from this [of "sint (sem_value (mem s))"] assms show ?thesis
    unfolding sem_inv_def balance_def history_def pending_def by linarith
qed

text \<open>
  The abstract semaphore: a counter and the totals of what was released and acquired.
\<close>

record counter =
  available :: int
  released :: int
  acquired :: int

definition counter_init :: "counter \<Rightarrow> bool" where
  "counter_init c \<longleftrightarrow> c = \<lparr>available = 0, released = 0, acquired = 0\<rparr>"

inductive counter_step :: "counter \<Rightarrow> counter \<Rightarrow> bool" where
  release: "counter_step c (c\<lparr>available := available c + int k, released := released c + int k\<rparr>)"
| acquire: "0 < available c \<Longrightarrow> counter_step c (c\<lparr>available := available c - 1, acquired := acquired c + 1\<rparr>)"

definition sem_counter :: "nat \<Rightarrow> 'h::len word sem_sys \<Rightarrow> counter" where
  "sem_counter n s = \<lparr>available = max 0 (pending (mem s)) + uint (sem_credits (mem s)) + weight n undeposited (pc s),
     released = signalled s, acquired = taken s\<rparr>"

definition sem_setting_step ::
  "(nat \<Rightarrow> parked \<Rightarrow> tid set \<Rightarrow> bool) \<Rightarrow> nat \<Rightarrow> 'h::len word sem_sys \<Rightarrow> 'h word sem_sys \<Rightarrow> bool" where
  "sem_setting_step wake n s s' \<longleftrightarrow> sem_run_step wake n s s' \<and> sem_setting wake n s"

lemma sem_counter_inv:
  "sem_inv n s \<Longrightarrow> sem_counter n s = \<lparr>available = signalled s - taken s, released = signalled s, acquired = taken s\<rparr>"
  by (simp add: sem_counter_def sem_inv_tokens)

lemma sem_inv_available: "sem_inv n s \<Longrightarrow> taken s \<le> signalled s"
  using sem_inv_tokens [of n s] weight_nonneg [of n undeposited "pc s"] uint_nonnegative [of "sem_credits (mem s)"]
  by linarith

lemma counter_acquire_one: "a < r \<Longrightarrow> counter_step \<lparr>available = r - a, released = r, acquired = a\<rparr>
    \<lparr>available = r - (a + 1), released = r, acquired = a + 1\<rparr>"
  using counter_step.acquire [of "\<lparr>available = r - a, released = r, acquired = a\<rparr>"] by (simp add: algebra_simps)

lemma counter_release_some: "counter_step \<lparr>available = r - a, released = r, acquired = a\<rparr>
    \<lparr>available = r + int k - a, released = r + int k, acquired = a\<rparr>"
  using counter_step.release [of "\<lparr>available = r - a, released = r, acquired = a\<rparr>" k] by (simp add: algebra_simps)

lemma sem_step_counts:
  assumes "sem_step wake n s s'"
  obtains (quiet) "signalled s' = signalled s" "taken s' = taken s"
    | (take) "signalled s' = signalled s" "taken s' = taken s + 1"
    | (add) k where "signalled s' = signalled s + int k" "taken s' = taken s"
  using assms
proof cases
  case (internal t e m' p')
  with that show ?thesis by (cases e) auto
qed (use that in auto)

lemma sem_counter_step:
  assumes inv: "sem_inv n s" "sem_inv n s'" and step: "sem_step wake n s s'"
  shows "counter_step (sem_counter n s) (sem_counter n s') \<or> sem_counter n s' = sem_counter n s"
  using step
proof (cases rule: sem_step_counts)
  case take
  then show ?thesis using sem_inv_available [OF inv(2)] counter_acquire_one [of "taken s" "signalled s"]
    by (simp add: sem_counter_inv inv)
next
  case (add k)
  then show ?thesis using counter_release_some [of "signalled s" "taken s" k] by (simp add: sem_counter_inv inv)
qed (simp add: sem_counter_inv inv)

interpretation sem_refines: refinement sem_init "sem_setting_step wake n" "sem_inv n" counter_init counter_step
  "sem_counter n" for wake n
proof unfold_locales
  show "counter_init (sem_counter n s)" if "sem_init s" for s
    using sem_counter_inv [OF sem_init_inv [OF that]] that by (simp add: counter_init_def sem_init_def)
  show inv: "sem_inv n s'" if "sem_inv n s" "sem_setting_step wake n s s'" for s s'
    using that by (auto simp: sem_setting_step_def sem_setting_def intro: sem_inv_step)
  show "counter_step (sem_counter n s) (sem_counter n s') \<or> sem_counter n s' = sem_counter n s"
    if "sem_inv n s" "sem_setting_step wake n s s'" for s s'
    using sem_counter_step [OF that(1) inv [OF that]] that(2) by (auto simp: sem_setting_step_def sem_run_step_def)
qed (rule sem_init_inv)

definition quiescent :: "nat \<Rightarrow> 'h::len word sem_sys \<Rightarrow> bool" where
  "quiescent n s \<longleftrightarrow> (\<forall>t<n. pc s t = Idle \<or> pc s t = Parked)"

lemma sem_inv_quiescent:
  assumes inv: "sem_inv n s" and q: "quiescent n s"
  shows "sem_credits (mem s) = 0 \<and> uint (sem_sleepers (mem s)) = int (card (dom (sem_parked n (pc s))))
    \<and> int (card (dom (sem_parked n (pc s)))) = max 0 (- pending (mem s))
    \<and> signalled s - taken s = max 0 (pending (mem s))"
proof -
  have still: "weight n awake_debt (pc s) = 0" "weight n waking (pc s) = 0"
    "weight n undeposited (pc s) = 0" "weight n debt (pc s) = weight n parked_debt (pc s)"
    using q by (auto simp: weight_zero quiescent_def debt_split)
  have reg: "weight n registered (pc s) = weight n parked_debt (pc s)"
    using q by (auto simp: weight_def total_weight_def quiescent_def intro!: sum.cong)
  have "weight n parked_debt (pc s) = 0 \<Longrightarrow> uint (sem_credits (mem s)) = 0"
    using inv still weight_nonneg [of n undeposited "pc s"] uint_nonnegative [of "sem_credits (mem s)"]
    unfolding sem_inv_def balance_def by linarith
  then have c: "uint (sem_credits (mem s)) = 0"
    using no_lost_wakeI [OF inv] still uint_nonnegative [of "sem_credits (mem s)"] by linarith
  moreover have "weight n parked_debt (pc s) = max 0 (- pending (mem s))"
    using inv still c unfolding sem_inv_def balance_def pending_def by linarith
  moreover have "uint (sem_sleepers (mem s)) = weight n parked_debt (pc s)"
    using inv reg by (simp add: sem_inv_def sleepers_exact_def)
  ultimately show ?thesis
    using sem_inv_tokens [OF inv] still
    by (simp add: card_sem_parked uint_0_iff)
qed

section \<open>Runs\<close>

text \<open>A schedule of calls and steps, to reach concrete states by evaluation.\<close>

datatype 'hc sem_move = Do_Call tid "'hc sem_pc" | Do_Step tid nat

fun sem_move_on :: "nat \<Rightarrow> 'h::len word sem_move \<Rightarrow> 'h word sem_sys \<Rightarrow> 'h word sem_sys option" where
  "sem_move_on n (Do_Call t p) s =
     (if t < n \<and> pc s t = Idle \<and> sem_entry p then Some (s\<lparr>pc := (pc s)(t := p)\<rparr>) else None)"
| "sem_move_on n (Do_Step t i) s =
     (if t < n \<and> i < length (sem_next (mem s) (pc s t))
      then case sem_next (mem s) (pc s t) ! i of (e, m', p') \<Rightarrow>
        Some (record_event e (s\<lparr>mem := m', pc := (pc s)(t := p')\<rparr>))
      else None)"

fun sem_run :: "nat \<Rightarrow> 'h::len word sem_move list \<Rightarrow> 'h word sem_sys \<Rightarrow> 'h word sem_sys option" where
  "sem_run n [] s = Some s"
| "sem_run n (mv # mvs) s =
     (case sem_move_on n mv s of None \<Rightarrow> None
      | Some s' \<Rightarrow> if has_room s \<and> has_room s' then sem_run n mvs s' else None)"

definition sem_start :: "'h::len word sem_sys" where
  "sem_start = \<lparr>mem = sem_new, pc = (\<lambda>_. Idle), signalled = 0, taken = 0\<rparr>"

lemma sem_move_on_step: "sem_move_on n mv s = Some s' \<Longrightarrow> sem_step wake n s s'"
proof (cases mv)
  case (Do_Step t i)
  moreover assume "sem_move_on n mv s = Some s'"
  ultimately obtain e m' p' where "t < n" "sem_next (mem s) (pc s t) ! i = (e, m', p')"
    "i < length (sem_next (mem s) (pc s t))"
    "s' = record_event e (s\<lparr>mem := m', pc := (pc s)(t := p')\<rparr>)"
    by (auto split: if_splits prod.splits)
  then show ?thesis by (metis nth_mem sem_step.internal)
qed (auto split: if_splits intro: sem_step.call)

lemma sem_run_reach:
  "sem_run n mvs s = Some s' \<Longrightarrow> reach sem_init (sem_run_step wake n) s
     \<Longrightarrow> reach sem_init (sem_run_step wake n) s'"
proof (induction mvs arbitrary: s)
  case (Cons mv mvs)
  then obtain s1 where s1: "sem_move_on n mv s = Some s1" "has_room s" "has_room s1"
    "sem_run n mvs s1 = Some s'"
    by (auto split: option.splits if_splits)
  then have "sem_run_step wake n s s1" by (simp add: sem_run_step_def sem_move_on_step)
  with Cons s1 show ?case by (blast intro: reach.move)
qed simp

lemma sem_start_run: "sem_run n mvs sem_start = Some s \<Longrightarrow> reach sem_init (sem_run_step wake n) s"
  by (rule sem_run_reach) (auto intro: reach.start simp: sem_init_def sem_start_def)


text \<open>Thread 0 waits on an empty semaphore and parks; thread 1 signals one token, up to its wake call.\<close>

definition sem_park_moves :: "8 word sem_move list" where
  "sem_park_moves = [Do_Call 0 Wait_Sub, Do_Step 0 0, Do_Step 0 0, Do_Step 0 0, Do_Step 0 0]"

definition sem_parked_state :: "8 word sem_sys" where
  "sem_parked_state = \<lparr>mem = \<lparr>sem_value = -1, sem_credits = 0, sem_sleepers = 1\<rparr>,
     pc = (\<lambda>_. Idle)(0 := Parked), signalled = 0, taken = 0\<rparr>"

lemma sem_parked_state_run: "sem_run 2 sem_park_moves sem_start = Some sem_parked_state"
  by (simp add: sem_park_moves_def sem_parked_state_def sem_start_def sem_new_def sem_entry_def
      has_room_def parks_def word_sless_alt fun_upd_def cong: if_cong)

section \<open>Theorems\<close>





end
