(* ===== verification/CondvarSemaphore.thy ===== *)
theory CondvarSemaphore
  imports Semaphore
begin

text \<open>
  The condition-variable semaphore (threading/generic_semaphore.cpp), selected where there is no
  futex backend. \<open>exact\<close> is the build option PSI_SWEATER_EXACT_WORKER_SELECTION, which compiles
  another body for \<open>signal\<close>. Here is its protocol, which theory \<open>SemMonitor\<close>, the code call by call,
  refines: the regions under \<open>mutex_\<close> are atomic (that of \<open>wait\<close> in two parts, registration and
  the loop condition with the take), and so is each access to \<open>value_\<close>. After its unlock
  \<open>signal\<close> reads \<open>waiters_\<close>, which is not atomic, to choose between single notifications and one for all:
  a data race, so the protocol lets it choose either. The POSIX semaphore wrapper (posix/semaphore.hpp) is at the end.
\<close>

section \<open>State\<close>

record 'hc csem =
  cs_value :: "32 word"
  cs_waiters :: 'hc
  cs_to_release :: 'hc

definition csem_new :: "'h::len word csem" where
  "csem_new = \<lparr>cs_value = 0, cs_waiters = 0, cs_to_release = 0\<rparr>"

datatype 'hc csem_pc =
    C_Idle
  | C_Spin_Load "32 word"                     \<comment> \<open>spin_count\<close>
  | C_Spin "32 word" "32 word" "32 word"      \<comment> \<open>spin_count, spin_try, value\<close>
  | C_Wait_Sub
  | C_Wait_Lock
  | C_Asleep                                  \<comment> \<open>inside \<open>condition_.wait\<close>\<close>
  | C_Recheck                                 \<comment> \<open>registered, at the loop condition\<close>
  | C_Signal_Add 'hc                          \<comment> \<open>count\<close>
  | C_Signal_Lock 'hc                         \<comment> \<open>to_wake\<close>
  | C_Signal_Compare 'hc
  | C_Notify_One 'hc                          \<comment> \<open>notifications left\<close>
  | C_Notify_All

section \<open>The operations\<close>

text \<open>\<open>for (spin_try = 0; spin_try < spin_count; ++spin_try)\<close>: here a failed exchange counts as a try.\<close>

fun csem_next :: "bool \<Rightarrow> 'h::len word csem \<Rightarrow> 'h word csem_pc
    \<Rightarrow> (sem_event \<times> 'h word csem \<times> 'h word csem_pc) list" where
  "csem_next exact m (C_Spin_Load spin_count) = [(Tau, m, C_Spin spin_count 0 (cs_value m))]"
| "csem_next exact m (C_Spin spin_count spin_try v) =
     (if spin_try < spin_count
      then if 0 <s v
           then (if cs_value m = v then [(Took_Token, m\<lparr>cs_value := v - 1\<rparr>, C_Idle)] else [])
                @ [(Tau, m, C_Spin spin_count (spin_try + 1) (cs_value m))]
           else [(Tau, m, C_Spin spin_count (spin_try + 1) (cs_value m))]
      else [(Tau, m, C_Wait_Sub)])"
| "csem_next exact m C_Wait_Sub =
     (if 0 <s cs_value m
      then [(Took_Token, m\<lparr>cs_value := cs_value m - 1\<rparr>, C_Idle)]
      else [(Tau, m\<lparr>cs_value := cs_value m - 1\<rparr>, C_Wait_Lock)])"
| "csem_next exact m C_Wait_Lock =
     [(Tau, m\<lparr>cs_waiters := cs_waiters m + 1\<rparr>, C_Recheck)]"
| "csem_next exact m C_Recheck =
     (if cs_to_release m = 0 then [(Tau, m, C_Asleep)]
      else [(Took_Token, m\<lparr>cs_to_release := cs_to_release m - 1,
               cs_waiters := cs_waiters m - 1\<rparr>, C_Idle)])"
| "csem_next exact m (C_Signal_Add count) =
     (let old_value = cs_value m; m' = m\<lparr>cs_value := old_value + ucast count\<rparr>
      in [(Added_Tokens (unat count), m',
           if 0 <s old_value then C_Idle
           else C_Signal_Lock (if exact then 1 else min (ucast (- old_value)) count))])"
| "csem_next exact m (C_Signal_Lock to_wake) =
     [(Tau, m\<lparr>cs_to_release := cs_to_release m + to_wake\<rparr>,
       if cs_waiters m = 0 then C_Idle
       else if exact then C_Notify_One 1 else C_Signal_Compare to_wake)]"
| "csem_next exact m (C_Signal_Compare to_wake) =
     [(Tau, m, C_Notify_One to_wake), (Tau, m, C_Notify_All)]"
| "csem_next exact m (C_Notify_One left) = (if left = 0 then [(Tau, m, C_Idle)] else [])"
| "csem_next exact m _ = []"

section \<open>The system\<close>

record 'hc csem_sys =
  cmem :: "'hc csem"
  cpc :: "tid \<Rightarrow> 'hc csem_pc"
  csignalled :: int
  ctaken :: int

definition csem_init :: "'h::len word csem_sys \<Rightarrow> bool" where
  "csem_init s \<longleftrightarrow> cmem s = csem_new \<and> cpc s = (\<lambda>_. C_Idle) \<and> csignalled s = 0 \<and> ctaken s = 0"

fun crecord :: "sem_event \<Rightarrow> 'hc csem_sys \<Rightarrow> 'hc csem_sys" where
  "crecord Tau s = s"
| "crecord Took_Token s = s\<lparr>ctaken := ctaken s + 1\<rparr>"
| "crecord (Added_Tokens k) s = s\<lparr>csignalled := csignalled s + int k\<rparr>"

definition csem_entry :: "bool \<Rightarrow> 'h::len word csem_pc \<Rightarrow> bool" where
  "csem_entry exact p \<longleftrightarrow> p = C_Wait_Sub \<or> (\<exists>c. p = C_Spin_Load c)
     \<or> (\<exists>c. p = C_Signal_Add c \<and> (exact \<longrightarrow> c = 1))"

definition asleep :: "nat \<Rightarrow> (tid \<Rightarrow> 'hc csem_pc) \<Rightarrow> tid set" where
  "asleep n p = {t. t < n \<and> p t = C_Asleep}"

text \<open>
  \<open>notify_one\<close> wakes at least one sleeper if there is any, \<open>notify_all\<close> all of them; a sleeper
  may also wake by itself.
\<close>

inductive csem_step :: "bool \<Rightarrow> nat \<Rightarrow> 'h::len word csem_sys \<Rightarrow> 'h word csem_sys \<Rightarrow> bool"
  for exact n where
  call: "t < n \<Longrightarrow> cpc s t = C_Idle \<Longrightarrow> csem_entry exact p \<Longrightarrow>
    csem_step exact n s (s\<lparr>cpc := (cpc s)(t := p)\<rparr>)"
| internal: "t < n \<Longrightarrow> (e, m', p') \<in> set (csem_next exact (cmem s) (cpc s t)) \<Longrightarrow>
    csem_step exact n s (crecord e (s\<lparr>cmem := m', cpc := (cpc s)(t := p')\<rparr>))"
| spurious: "t < n \<Longrightarrow> cpc s t = C_Asleep \<Longrightarrow> csem_step exact n s (s\<lparr>cpc := (cpc s)(t := C_Recheck)\<rparr>)"
| notify_one: "t < n \<Longrightarrow> cpc s t = C_Notify_One left \<Longrightarrow> left \<noteq> 0 \<Longrightarrow>
    woken \<subseteq> asleep n (cpc s) \<Longrightarrow> (asleep n (cpc s) \<noteq> {} \<longrightarrow> woken \<noteq> {}) \<Longrightarrow>
    csem_step exact n s (s\<lparr>cpc := (move_all woken C_Recheck (cpc s))(t := C_Notify_One (left - 1))\<rparr>)"
| notify_all: "t < n \<Longrightarrow> cpc s t = C_Notify_All \<Longrightarrow>
    csem_step exact n s (s\<lparr>cpc := (move_all (asleep n (cpc s)) C_Recheck (cpc s))(t := C_Idle)\<rparr>)"

definition csem_room :: "'h::len word csem_sys \<Rightarrow> bool" where
  "csem_room s \<longleftrightarrow> sint (cs_value (cmem s)) < 2 ^ 31 - 2 ^ 16"

definition csem_run_step :: "bool \<Rightarrow> nat \<Rightarrow> 'h::len word csem_sys \<Rightarrow> 'h word csem_sys \<Rightarrow> bool" where
  "csem_run_step exact n s s' \<longleftrightarrow> csem_step exact n s s' \<and> csem_room s \<and> csem_room s'"

section \<open>The invariant of the build without exact worker selection\<close>

fun c_debt :: "'hc csem_pc \<Rightarrow> nat" where
  "c_debt C_Wait_Lock = 1" | "c_debt C_Asleep = 1" | "c_debt C_Recheck = 1" | "c_debt _ = 0"

fun c_awake :: "'hc csem_pc \<Rightarrow> nat" where
  "c_awake C_Wait_Lock = 1" | "c_awake C_Recheck = 1" | "c_awake _ = 0"

fun c_asleep :: "'hc csem_pc \<Rightarrow> nat" where
  "c_asleep C_Asleep = 1" | "c_asleep _ = 0"

fun c_registered :: "'hc csem_pc \<Rightarrow> nat" where
  "c_registered C_Asleep = 1" | "c_registered C_Recheck = 1" | "c_registered _ = 0"

fun c_undeposited :: "'h::len word csem_pc \<Rightarrow> nat" where
  "c_undeposited (C_Signal_Lock k) = unat k" | "c_undeposited _ = 0"

fun c_waking :: "'h::len word csem_pc \<Rightarrow> nat" where
  "c_waking (C_Signal_Compare k) = unat k" | "c_waking (C_Notify_One k) = unat k" | "c_waking _ = 0"

fun c_waking_all :: "'hc csem_pc \<Rightarrow> nat" where
  "c_waking_all C_Notify_All = 1" | "c_waking_all _ = 0"

definition c_balance :: "nat \<Rightarrow> 'h::len word csem_sys \<Rightarrow> bool" where
  "c_balance n s \<longleftrightarrow> weight n c_debt (cpc s) =
     uint (cs_to_release (cmem s)) + weight n c_undeposited (cpc s) + max 0 (- sint (cs_value (cmem s)))"

definition c_waiters_exact :: "nat \<Rightarrow> 'h::len word csem_sys \<Rightarrow> bool" where
  "c_waiters_exact n s \<longleftrightarrow> uint (cs_waiters (cmem s)) = weight n c_registered (cpc s)"

definition c_no_lost_wake :: "nat \<Rightarrow> 'h::len word csem_sys \<Rightarrow> bool" where
  "c_no_lost_wake n s \<longleftrightarrow> weight n c_asleep (cpc s) = 0 \<or> weight n c_waking_all (cpc s) > 0 \<or>
     uint (cs_to_release (cmem s)) \<le> weight n c_awake (cpc s) + weight n c_waking (cpc s)"

definition c_history :: "nat \<Rightarrow> 'h::len word csem_sys \<Rightarrow> bool" where
  "c_history n s \<longleftrightarrow> sint (cs_value (cmem s)) = csignalled s - ctaken s - weight n c_debt (cpc s)"

definition csem_inv :: "nat \<Rightarrow> 'h::len word csem_sys \<Rightarrow> bool" where
  "csem_inv n s \<longleftrightarrow> c_balance n s \<and> c_waiters_exact n s \<and> c_no_lost_wake n s \<and> c_history n s"

lemma csem_init_inv: "csem_init s \<Longrightarrow> csem_inv n s"
  by (simp add: csem_init_def csem_inv_def c_balance_def c_waiters_exact_def c_no_lost_wake_def
      c_history_def csem_new_def weight_def total_weight_def)

lemma c_debt_split:
  "weight n c_debt (p :: tid \<Rightarrow> 'hc csem_pc) = weight n c_awake p + weight n c_asleep p"
proof -
  have "c_debt = (\<lambda>q :: 'hc csem_pc. c_awake q + c_asleep q)"
  proof
    show "c_debt q = c_awake q + c_asleep q" for q :: "'hc csem_pc" by (cases q) auto
  qed
  from arg_cong [OF this, of "\<lambda>f. weight n f p"] show ?thesis by (simp only: weight_add)
qed

lemma c_debt_le: "weight n c_debt (p :: tid \<Rightarrow> 'hc csem_pc) \<le> int n"
proof (rule weight_le)
  show "c_debt q \<le> 1" for q :: "'hc csem_pc" by (cases q) auto
qed

lemma c_asleep_le_registered: "weight n c_asleep (p :: tid \<Rightarrow> 'hc csem_pc) \<le> weight n c_registered p"
proof -
  have "c_asleep q \<le> c_registered q" for q :: "'hc csem_pc" by (cases q) auto
  then show ?thesis by (simp add: weight_def total_weight_mono)
qed

lemma c_registered_le: "weight n c_registered (p :: tid \<Rightarrow> 'hc csem_pc) \<le> int n"
proof (rule weight_le)
  show "c_registered q \<le> 1" for q :: "'hc csem_pc" by (cases q) auto
qed

lemma card_asleep: "int (card (asleep n (p :: tid \<Rightarrow> 'hc csem_pc))) = weight n c_asleep p"
proof -
  have "c_asleep = (\<lambda>q :: 'hc csem_pc. of_bool (q = C_Asleep))"
  proof
    show "c_asleep q = of_bool (q = C_Asleep)" for q :: "'hc csem_pc" by (cases q) auto
  qed
  from arg_cong [OF this, of "\<lambda>f. weight n f p"] show ?thesis
    by (simp only: weight_card asleep_def)
qed

lemma csem_inv_bounds:
  assumes "csem_inv n s"
  shows "- int n \<le> sint (cs_value (cmem s))"
    and "uint (cs_to_release (cmem s)) + weight n c_undeposited (cpc s) \<le> int n"
proof -
  from assms have b: "weight n c_debt (cpc s) =
     uint (cs_to_release (cmem s)) + weight n c_undeposited (cpc s) + max 0 (- sint (cs_value (cmem s)))"
    by (simp add: csem_inv_def c_balance_def)
  note d = c_debt_le [of n "cpc s"] and w = weight_nonneg [of n c_undeposited "cpc s"]
  have "0 \<le> uint (cs_to_release (cmem s))" by simp
  with b d w show "- int n \<le> sint (cs_value (cmem s))"
    and "uint (cs_to_release (cmem s)) + weight n c_undeposited (cpc s) \<le> int n" by linarith+
qed

section \<open>Every step keeps it\<close>

lemma csem_inv_local:
  assumes inv: "csem_inv n s" and t: "t < n"
    and mem': "cmem s' = m'" and pc': "cpc s' = (cpc s)(t := p')"
    and hist: "csignalled s' - ctaken s' = csignalled s - ctaken s + d"
    and d_value: "sint (cs_value m') =
        sint (cs_value (cmem s)) + d - int (c_debt p') + int (c_debt (cpc s t))"
    and bal: "int (c_debt p') - int (c_debt (cpc s t)) =
        (uint (cs_to_release m') - uint (cs_to_release (cmem s)))
        + (int (c_undeposited p') - int (c_undeposited (cpc s t)))
        + (max 0 (- sint (cs_value m')) - max 0 (- sint (cs_value (cmem s))))"
    and sleep: "uint (cs_waiters m') - uint (cs_waiters (cmem s))
        = int (c_registered p') - int (c_registered (cpc s t))"
    and wake: "weight n c_asleep ((cpc s)(t := p')) = 0 \<or> c_waking_all p' > 0 \<or>
        (c_asleep p' \<le> c_asleep (cpc s t) \<and> c_waking_all p' = c_waking_all (cpc s t) \<and>
         uint (cs_to_release m') - uint (cs_to_release (cmem s)) \<le>
         int (c_awake p') - int (c_awake (cpc s t)) + int (c_waking p') - int (c_waking (cpc s t))) \<or>
        uint (cs_to_release m') = 0"
  shows "csem_inv n s'"
proof -
  from inv have b: "c_balance n s" and e: "c_waiters_exact n s" and l: "c_no_lost_wake n s"
    and h: "c_history n s"
    by (auto simp: csem_inv_def)
  have "c_balance n s'" using b bal by (simp add: c_balance_def mem' pc' weight_upd [OF t])
  moreover have "c_waiters_exact n s'" using e sleep
    by (simp add: c_waiters_exact_def mem' pc' weight_upd [OF t])
  moreover have "c_history n s'" using h hist d_value
    by (simp add: c_history_def mem' pc' weight_upd [OF t])
  moreover have "c_no_lost_wake n s'" using wake
  proof (elim disjE)
    assume "uint (cs_to_release m') = 0"
    then show ?thesis by (simp only: c_no_lost_wake_def mem' add_nonneg_nonneg weight_nonneg simp_thms)
  next
    assume "0 < c_waking_all p'"
    moreover have "int (c_waking_all ((cpc s') t)) \<le> weight n c_waking_all (cpc s')"
      by (rule weight_ge [OF t])
    ultimately show ?thesis by (simp add: c_no_lost_wake_def pc')
  next
    assume less: "c_asleep p' \<le> c_asleep (cpc s t) \<and> c_waking_all p' = c_waking_all (cpc s t) \<and>
         uint (cs_to_release m') - uint (cs_to_release (cmem s)) \<le>
         int (c_awake p') - int (c_awake (cpc s t)) + int (c_waking p') - int (c_waking (cpc s t))"
    have "weight n c_asleep (cpc s) = 0 \<Longrightarrow> weight n c_asleep (cpc s') = 0"
      using less weight_nonneg [of n c_asleep "cpc s'"] by (simp add: pc' weight_upd [OF t])
    with l less show ?thesis
      by (auto simp: c_no_lost_wake_def mem' pc' weight_upd [OF t] simp del: uint_nat)
  qed (simp add: c_no_lost_wake_def mem' pc')
  ultimately show ?thesis by (simp add: csem_inv_def)
qed

text \<open>The value word, as in the futex semaphore.\<close>

lemma csem_inv_value_dec:
  assumes "csem_inv n s" "n < 2 ^ 31"
  shows "sint (cs_value (cmem s) - 1) = sint (cs_value (cmem s)) - 1"
  using csem_inv_bounds(1) [OF assms(1)] assms(2) by (intro sint_minus_1) simp

lemma csem_inv_value_add:
  assumes "csem_inv n s" "n < 2 ^ 31" "csem_room s" "LENGTH('h::len) \<le> 16"
  shows "sint (cs_value (cmem s) + ucast (count :: 'h word)) = sint (cs_value (cmem s)) + int (unat count)"
proof (rule value_add_small [OF _ _ assms(4)])
  show "- (2 ^ 31) \<le> sint (cs_value (cmem s))"
    using csem_inv_bounds(1) [OF assms(1)] assms(2) by simp
  show "sint (cs_value (cmem s)) < 2 ^ 31 - 2 ^ 16" using assms(3) by (simp add: csem_room_def)
qed

lemma csem_inv_deficit_cast:
  assumes "csem_inv n s" "int n < 2 ^ LENGTH('h::len)" "sint (cs_value (cmem s)) \<le> 0"
  shows "int (unat (ucast (- cs_value (cmem s)) :: 'h word)) = - sint (cs_value (cmem s))"
  by (rule deficit_cast) (use csem_inv_bounds(1) [OF assms(1)] assms(2,3) in linarith)+

lemma csem_inv_next:
  fixes s :: "'h::len word csem_sys"
  assumes inv: "csem_inv n s" and t: "t < n" and small: "int n < 2 ^ LENGTH('h)" "n < 2 ^ 31"
    and width: "LENGTH('h) \<le> 16" and room: "csem_room s"
    and nxt: "(e, m', p') \<in> set (csem_next False (cmem s) (cpc s t))"
  shows "csem_inv n (crecord e (s\<lparr>cmem := m', cpc := (cpc s)(t := p')\<rparr>))"
proof -
  note local = csem_inv_local [OF inv t, where m' = m' and p' = p']
  have registered: "int (c_registered (cpc s t)) \<le> uint (cs_waiters (cmem s))"
    using weight_ge [OF t, of c_registered "cpc s"] inv by (simp add: csem_inv_def c_waiters_exact_def)
  have release_dec: "cs_to_release (cmem s) \<noteq> 0 \<Longrightarrow>
      uint (cs_to_release (cmem s) - 1) = uint (cs_to_release (cmem s)) - 1"
    by (rule uint_minus_1) (simp add: word_gt_0)
  show ?thesis
  proof (cases "cpc s t")
    case (C_Spin_Load c)
    with nxt show ?thesis by (intro local [where d = 0]) auto
  next
    case (C_Spin c i v)
    have dec: "sint (v - 1) = sint v - 1" if "cs_value (cmem s) = v"
      using csem_inv_value_dec [OF inv small(2)] that by simp
    show ?thesis
    proof (cases "e = Took_Token")
      case True
      with nxt C_Spin dec show ?thesis
        by (intro local [where d = "-1"]) (auto simp: word_sless_alt split: if_splits)
    next
      case False
      with nxt C_Spin show ?thesis by (intro local [where d = 0]) (auto split: if_splits)
    qed
  next
    case C_Wait_Sub
    note dec = csem_inv_value_dec [OF inv small(2)]
    show ?thesis
    proof (cases "0 <s cs_value (cmem s)")
      case True
      with nxt C_Wait_Sub dec show ?thesis by (intro local [where d = "-1"]) (auto simp: word_sless_alt)
    next
      case False
      with nxt C_Wait_Sub dec show ?thesis by (intro local [where d = 0]) (auto simp: word_sless_alt)
    qed
  next
    case C_Wait_Lock
    have "weight n c_registered ((cpc s)(t := C_Recheck)) \<le> int n" by (rule c_registered_le)
    then have "weight n c_registered (cpc s) + 1 < 2 ^ LENGTH('h)"
      using C_Wait_Lock small(1) by (simp add: weight_upd [OF t] del: of_nat_less_numeral_power_cancel_iff)
    then have "uint (cs_waiters (cmem s) + 1) = uint (cs_waiters (cmem s)) + 1"
      using inv by (subst uint_plus_small) (auto simp: csem_inv_def c_waiters_exact_def)
    with nxt C_Wait_Lock show ?thesis by (intro local [where d = 0]) simp_all
  next
    case C_Recheck
    with registered have "0 < cs_waiters (cmem s)" by (auto simp: word_less_alt)
    with nxt C_Recheck release_dec uint_minus_1 [of "cs_waiters (cmem s)"] show ?thesis
      by (cases "cs_to_release (cmem s) = 0")
        (simp_all add: csem_inv_local [OF inv t, where d = 0] csem_inv_local [OF inv t, where d = "-1"])
  next
    case (C_Signal_Add count)
    let ?v = "cs_value (cmem s)"
    note add = csem_inv_value_add [OF inv small(2) room width, of count]
    have e: "e = Added_Tokens (unat count)" and m': "m' = (cmem s)\<lparr>cs_value := ?v + ucast count\<rparr>"
      and p': "p' = (if 0 <s ?v then C_Idle else C_Signal_Lock (min (ucast (- ?v)) count))"
      using nxt C_Signal_Add by (auto simp: Let_def)
    have dep: "int (c_undeposited p') = max 0 (- sint ?v) - max 0 (- sint (?v + ucast count))"
    proof (cases "0 <s ?v")
      case True
      then have "0 \<le> sint ?v" "0 \<le> sint (?v + ucast count)"
        using add by (simp_all add: word_sless_alt del: uint_nat)
      with True show ?thesis by (simp add: p')
    next
      case False
      then have neg: "sint ?v \<le> 0" by (simp add: word_sless_alt)
      have "int (unat (min (ucast (- ?v)) count)) = min (- sint ?v) (int (unat count))"
        by (simp only: unat_min of_nat_min csem_inv_deficit_cast [OF inv small(1) neg])
      with False neg add show ?thesis by (simp add: p')
    qed
    have z: "c_debt p' = 0" "c_registered p' = 0" "c_asleep p' = 0" "c_awake p' = 0" "c_waking p' = 0"
      "c_waking_all p' = 0"
      by (simp_all add: p')
    show ?thesis unfolding e
      by (rule local [where d = "int (unat count)"])
        (simp_all add: m' z C_Signal_Add dep add del: uint_nat)
  next
    case (C_Signal_Lock k)
    have "int (c_undeposited (cpc s t)) \<le> weight n c_undeposited (cpc s)" by (rule weight_ge [OF t])
    then have "uint (cs_to_release (cmem s)) + int (unat k) < 2 ^ LENGTH('h)"
      using csem_inv_bounds(2) [OF inv] C_Signal_Lock small(1)
      by (simp del: of_nat_less_numeral_power_cancel_iff)
    then have dep: "uint (cs_to_release (cmem s) + k) = uint (cs_to_release (cmem s)) + uint k"
      by (subst uint_plus_small) simp_all
    have none: "weight n c_asleep ((cpc s)(t := C_Idle)) = 0" if "cs_waiters (cmem s) = 0"
      using that inv c_asleep_le_registered [of n "cpc s"] weight_nonneg [of n c_asleep "cpc s"]
      by (simp add: csem_inv_def c_waiters_exact_def weight_upd [OF t] C_Signal_Lock)
    from nxt C_Signal_Lock have e: "e = Tau" "m' = (cmem s)\<lparr>cs_to_release := cs_to_release (cmem s) + k\<rparr>"
      "p' = (if cs_waiters (cmem s) = 0 then C_Idle else C_Signal_Compare k)" by auto
    show ?thesis
      by (rule local [where d = 0]) (use none in \<open>auto simp: e C_Signal_Lock dep\<close>)
  next
    case (C_Signal_Compare k)
    with nxt show ?thesis by (intro local [where d = 0]) (auto split: if_splits)
  next
    case (C_Notify_One k)
    with nxt show ?thesis by (intro local [where d = 0]) (auto split: if_splits)
  qed (use nxt in auto)
qed

text \<open>Notifications: the sleepers woken go to the loop condition.\<close>

lemma csem_inv_notify:
  fixes s :: "'h::len word csem_sys"
  assumes inv: "csem_inv n s" and t: "t < n" and sub: "woken \<subseteq> asleep n (cpc s)"
    and flat: "c_debt (cpc s t) = 0" "c_registered (cpc s t) = 0" "c_undeposited (cpc s t) = 0"
      "c_debt p' = 0" "c_registered p' = 0" "c_undeposited p' = 0"
    and lost: "weight n c_asleep (cpc s) \<le> int (card woken) \<or>
      c_waking_all p' = c_waking_all (cpc s t) \<and>
      int (c_waking (cpc s t)) - int (c_waking p') \<le> int (card woken)"
  shows "csem_inv n (s\<lparr>cpc := (move_all woken C_Recheck (cpc s))(t := p')\<rparr>)"
proof -
  let ?p = "move_all woken C_Recheck (cpc s)" and ?q = "(move_all woken C_Recheck (cpc s))(t := p')"
    and ?w = "int (card woken)"
  have T: "woken \<subseteq> {..<n}" and same: "\<And>u. u \<in> woken \<Longrightarrow> cpc s u = C_Asleep"
    using sub by (auto simp: asleep_def)
  have "t \<notin> woken" using same [of t] flat(1) by auto
  then have pt: "?p t = cpc s t" by (simp add: move_all_def)
  have z: "c_asleep (cpc s t) = 0" "c_awake (cpc s t) = 0" "c_asleep p' = 0" "c_awake p' = 0"
    using flat by (cases "cpc s t"; cases p'; simp)+
  note mv = weight_move_all [OF T, where x = C_Recheck and pc = "cpc s"]
  have w: "weight n c_debt ?p = weight n c_debt (cpc s)"
    "weight n c_undeposited ?p = weight n c_undeposited (cpc s)"
    "weight n c_registered ?p = weight n c_registered (cpc s)"
    "weight n c_asleep ?p = weight n c_asleep (cpc s) - ?w"
    "weight n c_awake ?p = weight n c_awake (cpc s) + ?w"
    "weight n c_waking ?p = weight n c_waking (cpc s)"
    "weight n c_waking_all ?p = weight n c_waking_all (cpc s)"
    using mv [where f = c_debt and k = 1] mv [where f = c_undeposited and k = 0]
      mv [where f = c_registered and k = 1] mv [where f = c_asleep and k = 1]
      mv [where f = c_awake and k = 0] mv [where f = c_waking and k = 0]
      mv [where f = c_waking_all and k = 0] same
    by simp_all
  have q: "weight n c_debt ?q = weight n c_debt (cpc s)"
    "weight n c_undeposited ?q = weight n c_undeposited (cpc s)"
    "weight n c_registered ?q = weight n c_registered (cpc s)"
    "weight n c_asleep ?q = weight n c_asleep (cpc s) - ?w"
    "weight n c_awake ?q = weight n c_awake (cpc s) + ?w"
    "weight n c_waking ?q = weight n c_waking (cpc s) + int (c_waking p') - int (c_waking (cpc s t))"
    "weight n c_waking_all ?q =
       weight n c_waking_all (cpc s) + int (c_waking_all p') - int (c_waking_all (cpc s t))"
    by (simp_all add: weight_upd [OF t] pt w flat z)
  from inv have "weight n c_asleep (cpc s) = 0 \<or> weight n c_waking_all (cpc s) > 0 \<or>
     uint (cs_to_release (cmem s)) \<le> weight n c_awake (cpc s) + weight n c_waking (cpc s)"
    by (simp add: csem_inv_def c_no_lost_wake_def)
  with lost q weight_nonneg [of n c_asleep ?q] have "weight n c_asleep ?q = 0 \<or>
      weight n c_waking_all ?q > 0 \<or>
      uint (cs_to_release (cmem s)) \<le> weight n c_awake ?q + weight n c_waking ?q"
    by linarith
  then have "c_no_lost_wake n (s\<lparr>cpc := ?q\<rparr>)" by (simp add: c_no_lost_wake_def)
  moreover from inv have b: "c_balance n s" "c_waiters_exact n s" "c_history n s"
    by (simp_all add: csem_inv_def)
  then have "c_balance n (s\<lparr>cpc := ?q\<rparr>)" "c_waiters_exact n (s\<lparr>cpc := ?q\<rparr>)"
    "c_history n (s\<lparr>cpc := ?q\<rparr>)"
    by (simp_all add: c_balance_def c_waiters_exact_def c_history_def q(1-3))
  ultimately show ?thesis by (simp add: csem_inv_def)
qed

lemma csem_inv_step:
  fixes s :: "'h::len word csem_sys"
  assumes "csem_inv n s" "csem_run_step False n s s'" "int n < 2 ^ LENGTH('h)" "LENGTH('h) \<le> 16"
  shows "csem_inv n s'"
proof -
  have "(2::int) ^ LENGTH('h) \<le> 2 ^ 16" using assms(4) by (intro power_increasing) simp_all
  with assms(3) have "int n < 2 ^ 16" by (rule less_le_trans)
  then have n: "n < 2 ^ 31" by simp
  from assms(2) have step: "csem_step False n s s'" and room: "csem_room s"
    by (auto simp: csem_run_step_def)
  from step show ?thesis
  proof cases
    case (call t p)
    from call(4) have "c_debt p = 0" "c_registered p = 0" "c_asleep p = 0" "c_awake p = 0"
      "c_undeposited p = 0" "c_waking p = 0" "c_waking_all p = 0"
      by (auto simp: csem_entry_def)
    with call(1,3) show ?thesis
      by (intro csem_inv_local [OF assms(1) call(2), where d = 0 and m' = "cmem s" and p' = p]) simp_all
  next
    case (internal t e m' p')
    show ?thesis unfolding internal(1)
      by (rule csem_inv_next [OF assms(1) internal(2) assms(3) n assms(4) room internal(3)])
  next
    case (spurious t)
    then show ?thesis
      by (intro csem_inv_local [OF assms(1) spurious(2), where d = 0 and m' = "cmem s" and p' = C_Recheck])
        simp_all
  next
    case (notify_one t left woken)
    have fin: "finite (asleep n (cpc s))" by (simp add: asleep_def)
    have "unat (left - 1) = unat left - 1" "0 < unat left"
      using notify_one(4) by (simp_all add: unat_minus_one unat_gt_0)
    moreover have "asleep n (cpc s) \<noteq> {} \<Longrightarrow> 1 \<le> card woken"
      using notify_one(5,6) fin by (metis One_nat_def Suc_leI card_gt_0_iff finite_subset)
    moreover have "asleep n (cpc s) = {} \<Longrightarrow> weight n c_asleep (cpc s) = 0"
      using card_asleep [of n "cpc s"] by simp
    ultimately show ?thesis unfolding notify_one(1)
      by (intro csem_inv_notify [OF assms(1) notify_one(2,5)])
        (cases "asleep n (cpc s) = {}"; simp add: notify_one(3))+
  next
    case (notify_all t)
    show ?thesis unfolding notify_all(1)
      by (rule csem_inv_notify [OF assms(1) notify_all(2) subset_refl])
        (simp_all add: notify_all(3) card_asleep)
  qed
qed

section \<open>What it promises\<close>

definition csem_setting :: "nat \<Rightarrow> 'h::len word csem_sys \<Rightarrow> bool" where
  "csem_setting n s \<longleftrightarrow> int n < 2 ^ LENGTH('h) \<and> LENGTH('h) \<le> 16"

interpretation csem_machine: invariant_system csem_init "csem_run_step False n"
  "\<lambda>s. csem_setting n s \<longrightarrow> csem_inv n s" for n
  by unfold_locales (auto simp: csem_setting_def intro: csem_init_inv csem_inv_step)

lemma csem_inv_tokens:
  assumes "csem_inv n s"
  shows "csignalled s - ctaken s =
    max 0 (sint (cs_value (cmem s))) + uint (cs_to_release (cmem s)) + weight n c_undeposited (cpc s)"
proof -
  have "max 0 v + max 0 (- v) = v + 2 * max 0 (- v)" for v :: int by (simp add: max_def)
  from this [of "sint (cs_value (cmem s))"] assms show ?thesis
    unfolding csem_inv_def c_balance_def c_history_def by linarith
qed

definition csem_quiescent :: "nat \<Rightarrow> 'h::len word csem_sys \<Rightarrow> bool" where
  "csem_quiescent n s \<longleftrightarrow> (\<forall>t<n. cpc s t = C_Idle \<or> cpc s t = C_Asleep)"

lemma csem_inv_quiescent:
  assumes inv: "csem_inv n s" and q: "csem_quiescent n s"
  shows "cs_to_release (cmem s) = 0
    \<and> int (card (asleep n (cpc s))) = max 0 (- sint (cs_value (cmem s)))
    \<and> csignalled s - ctaken s = max 0 (sint (cs_value (cmem s)))"
proof -
  have still: "weight n c_awake (cpc s) = 0" "weight n c_waking (cpc s) = 0"
    "weight n c_waking_all (cpc s) = 0"
    "weight n c_undeposited (cpc s) = 0" "weight n c_debt (cpc s) = weight n c_asleep (cpc s)"
    using q by (auto simp: weight_zero csem_quiescent_def c_debt_split)
  have lost: "weight n c_asleep (cpc s) = 0 \<or> weight n c_waking_all (cpc s) > 0 \<or>
     uint (cs_to_release (cmem s)) \<le> weight n c_awake (cpc s) + weight n c_waking (cpc s)"
    using inv by (simp add: csem_inv_def c_no_lost_wake_def)
  have "weight n c_asleep (cpc s) = 0 \<Longrightarrow> uint (cs_to_release (cmem s)) = 0"
    using inv still uint_nonnegative [of "cs_to_release (cmem s)"]
    unfolding csem_inv_def c_balance_def by linarith
  then have c: "uint (cs_to_release (cmem s)) = 0"
    using lost still uint_nonnegative [of "cs_to_release (cmem s)"] by linarith
  moreover have "weight n c_asleep (cpc s) = max 0 (- sint (cs_value (cmem s)))"
    using inv still c unfolding csem_inv_def c_balance_def by linarith
  ultimately show ?thesis
    using csem_inv_tokens [OF inv] still by (simp add: card_asleep uint_0_iff)
qed

lemma csem_inv_taken: "csem_inv n s \<Longrightarrow> ctaken s \<le> csignalled s"
  using csem_inv_tokens [of n s] weight_nonneg [of n c_undeposited "cpc s"]
    uint_nonnegative [of "cs_to_release (cmem s)"] by linarith

lemma csem_inv_waiters:
  assumes inv: "csem_inv n s" and q: "csem_quiescent n s"
  shows "uint (cs_waiters (cmem s)) = int (card (asleep n (cpc s)))"
proof -
  have "(\<Sum>t<n. c_registered (cpc s t)) = (\<Sum>t<n. c_asleep (cpc s t))"
    using q by (intro sum.cong) (auto simp: csem_quiescent_def)
  then have "weight n c_registered (cpc s) = weight n c_asleep (cpc s)"
    by (simp add: weight_def total_weight_def)
  then show ?thesis using inv by (simp only: csem_inv_def c_waiters_exact_def card_asleep)
qed

lemma csem_reach_inv:
  fixes s :: "'h::len word csem_sys"
  assumes "reach csem_init (csem_run_step False n) s" "int n < 2 ^ LENGTH('h)" "LENGTH('h) \<le> 16"
  shows "csem_inv n s"
  using csem_machine.inv_reach [OF assms(1)] assms(2,3) by (simp add: csem_setting_def)

section \<open>Runs\<close>

fun csem_move_on :: "bool \<Rightarrow> nat \<Rightarrow> tid \<times> (nat + 'h word csem_pc) \<Rightarrow> 'h::len word csem_sys
    \<Rightarrow> 'h word csem_sys option" where
  "csem_move_on exact n (t, Inr p) s =
     (if t < n \<and> cpc s t = C_Idle \<and> csem_entry exact p then Some (s\<lparr>cpc := (cpc s)(t := p)\<rparr>) else None)"
| "csem_move_on exact n (t, Inl i) s =
     (if t < n \<and> i < length (csem_next exact (cmem s) (cpc s t))
      then case csem_next exact (cmem s) (cpc s t) ! i of (e, m', p') \<Rightarrow>
        Some (crecord e (s\<lparr>cmem := m', cpc := (cpc s)(t := p')\<rparr>))
      else None)"

fun csem_run :: "bool \<Rightarrow> nat \<Rightarrow> (tid \<times> (nat + 'h word csem_pc)) list \<Rightarrow> 'h::len word csem_sys
    \<Rightarrow> 'h word csem_sys option" where
  "csem_run exact n [] s = Some s"
| "csem_run exact n (mv # mvs) s =
     (case csem_move_on exact n mv s of None \<Rightarrow> None
      | Some s' \<Rightarrow> if csem_room s \<and> csem_room s' then csem_run exact n mvs s' else None)"

definition csem_start :: "'h::len word csem_sys" where
  "csem_start = \<lparr>cmem = csem_new, cpc = (\<lambda>_. C_Idle), csignalled = 0, ctaken = 0\<rparr>"

lemma csem_move_on_step: "csem_move_on exact n (t, mv) s = Some s' \<Longrightarrow> csem_step exact n s s'"
proof (cases mv)
  case (Inl i)
  moreover assume "csem_move_on exact n (t, mv) s = Some s'"
  ultimately obtain e m' p' where "t < n" "csem_next exact (cmem s) (cpc s t) ! i = (e, m', p')"
    "i < length (csem_next exact (cmem s) (cpc s t))"
    "s' = crecord e (s\<lparr>cmem := m', cpc := (cpc s)(t := p')\<rparr>)"
    by (auto split: if_splits prod.splits)
  then show ?thesis by (metis nth_mem csem_step.internal)
qed (auto split: if_splits intro: csem_step.call)

lemma csem_run_reach:
  "csem_run exact n mvs s = Some s' \<Longrightarrow> reach csem_init (csem_run_step exact n) s
     \<Longrightarrow> reach csem_init (csem_run_step exact n) s'"
proof (induction mvs arbitrary: s)
  case (Cons mv mvs)
  then obtain s1 where s1: "csem_move_on exact n mv s = Some s1" "csem_room s" "csem_room s1"
    "csem_run exact n mvs s1 = Some s'"
    by (auto split: option.splits if_splits)
  then have "csem_run_step exact n s s1" by (cases mv) (simp add: csem_run_step_def csem_move_on_step)
  with Cons s1 show ?case by (blast intro: reach.move)
qed simp

lemma csem_start_run:
  "csem_run exact n mvs csem_start = Some s \<Longrightarrow> reach csem_init (csem_run_step exact n) s"
  by (rule csem_run_reach) (auto intro: reach.start simp: csem_init_def csem_start_def)

definition csem_asleep_state :: "8 word csem_sys" where
  "csem_asleep_state = \<lparr>cmem = \<lparr>cs_value = -1, cs_waiters = 1, cs_to_release = 0\<rparr>,
     cpc = (\<lambda>_. C_Idle)(0 := C_Asleep), csignalled = 0, ctaken = 0\<rparr>"

lemma csem_asleep_run:
  "csem_run False 2 [(0, Inr C_Wait_Sub), (0, Inl 0), (0, Inl 0), (0, Inl 0)] csem_start = Some csem_asleep_state"
  by (simp add: csem_asleep_state_def csem_start_def csem_new_def csem_entry_def csem_room_def
      word_sless_alt fun_upd_def cong: if_cong)

text \<open>One signal on an idle semaphore, then two waits.\<close>

definition csem_over_state :: "8 word csem_sys" where
  "csem_over_state = \<lparr>cmem = \<lparr>cs_value = -1, cs_waiters = 0, cs_to_release = 0\<rparr>,
     cpc = (\<lambda>_. C_Idle), csignalled = 1, ctaken = 2\<rparr>"

lemma csem_over_run:
  "csem_run True 2 [(0, Inr (C_Signal_Add 1)), (0, Inl 0), (0, Inl 0), (1, Inr C_Wait_Sub), (1, Inl 0),
     (1, Inr C_Wait_Sub), (1, Inl 0), (1, Inl 0), (1, Inl 0)] csem_start = Some csem_over_state"
  by (simp add: csem_over_state_def csem_start_def csem_new_def csem_entry_def csem_room_def
      word_sless_alt fun_upd_def cong: if_cong)

lemma replicate_2: "replicate 2 x = [x, x]"
  by (simp add: numeral_2_eq_2)

section \<open>posix/semaphore.hpp\<close>

text \<open>
  The calls the wrapper makes on the \<open>sem_t\<close>; \<open>tries i\<close> is the outcome of its \<open>i\<close>-th
  \<open>sem_trywait\<close>.
\<close>

datatype posix_sem_call = Sem_Post | Sem_Trywait | Sem_Wait

function posix_signal :: "'h::len word \<Rightarrow> posix_sem_call list" where
  "posix_signal count = (if count \<noteq> 0 then Sem_Post # posix_signal (count - 1) else [])"
  by auto
termination
  by (relation "measure unat") (auto simp: unat_minus_one unat_gt_0)

declare posix_signal.simps [simp del]

function posix_spin :: "(nat \<Rightarrow> bool) \<Rightarrow> 32 word \<Rightarrow> 32 word \<Rightarrow> posix_sem_call list" where
  "posix_spin tries spin_try spin_count =
     (if spin_try < spin_count
      then if tries (unat spin_try) then [Sem_Trywait]
           else Sem_Trywait # posix_spin tries (spin_try + 1) spin_count
      else [Sem_Wait])"
  by auto
termination
  by (relation "measure (\<lambda>(tries, spin_try, spin_count). unat spin_count - unat spin_try)")
    (auto simp: unat_inc_below word_less_nat_alt)

declare posix_spin.simps [simp del]

definition posix_wait :: "(nat \<Rightarrow> bool) \<Rightarrow> 32 word \<Rightarrow> posix_sem_call list" where
  "posix_wait tries spin_count = posix_spin tries 0 spin_count"

text \<open>The number of calls each makes.\<close>

lemma posix_signal_posts: "posix_signal count = replicate (unat count) Sem_Post"
proof (induction count rule: posix_signal.induct)
  case (1 count)
  show ?case
  proof (cases "count = 0")
    case False
    then have "unat count = Suc (unat (count - 1))" by (simp add: unat_minus_one unat_gt_0)
    with 1 False show ?thesis by (subst posix_signal.simps) simp
  qed (simp add: posix_signal.simps)
qed

lemma posix_spin_calls:
  assumes "\<And>j. unat i \<le> j \<Longrightarrow> j < k \<Longrightarrow> \<not> tries j" and "unat i \<le> k" and "k \<le> unat n"
    and "k < unat n \<longrightarrow> tries k"
  shows "posix_spin tries i n = replicate (k - unat i) Sem_Trywait @ [if k < unat n then Sem_Trywait else Sem_Wait]"
  using assms
proof (induction tries i n rule: posix_spin.induct)
  case (1 tries i n)
  show ?case
  proof (cases "unat i = k")
    case True
    with 1(4,5) show ?thesis by (subst posix_spin.simps) (auto simp: word_less_nat_alt)
  next
    case False
    with 1 have lt: "i < n" "\<not> tries (unat i)" "unat i < k" by (auto simp: word_less_nat_alt)
    then have next_i: "unat (i + 1) = unat i + 1" by (simp add: unat_inc_below)
    have "posix_spin tries (i + 1) n =
        replicate (k - unat (i + 1)) Sem_Trywait @ [if k < unat n then Sem_Trywait else Sem_Wait]"
      using lt 1(2-5) next_i by (intro 1(1)) auto
    moreover have "k - unat i = Suc (k - unat (i + 1))" using lt next_i by simp
    ultimately show ?thesis using lt by (subst posix_spin.simps) simp
  qed
qed

section \<open>Theorems\<close>

text \<open>Without exact worker selection, no wait of the condvar semaphore takes a token that was
  not signalled, and when every thread is outside or asleep no release credit is left over and a
  thread sleeps only if every token has been taken.\<close>

theorem condvar_semaphore_correct:
  fixes s :: "'h::len word csem_sys"
  assumes "reach csem_init (csem_run_step False n) s" "int n < 2 ^ LENGTH('h)" "LENGTH('h) \<le> 16"
  shows "ctaken s \<le> csignalled s \<and> (csem_quiescent n s \<longrightarrow> cs_to_release (cmem s) = 0
    \<and> int (card (asleep n (cpc s))) = max 0 (- sint (cs_value (cmem s)))
    \<and> csignalled s - ctaken s = max 0 (sint (cs_value (cmem s))))"
  using csem_inv_taken [OF csem_reach_inv [OF assms]] csem_inv_quiescent [OF csem_reach_inv [OF assms]] by blast

theorem condvar_semaphore_correct_witness:
  "ctaken csem_asleep_state \<le> csignalled csem_asleep_state
    \<and> int (card (asleep 2 (cpc csem_asleep_state))) = 1"
proof -
  have "csem_quiescent 2 csem_asleep_state" by (simp add: csem_quiescent_def csem_asleep_state_def)
  then show ?thesis
    using condvar_semaphore_correct [OF csem_start_run [OF csem_asleep_run]]
    by (simp add: csem_asleep_state_def)
qed

text \<open>With exact worker selection the condvar semaphore over-releases: a signal that finds a
  zero token count adds both a token and a release credit, so one signal lets two waits through.\<close>

theorem condvar_semaphore_over_release:
  "\<exists>s :: 8 word csem_sys. reach csem_init (csem_run_step True 2) s \<and> csignalled s = 1 \<and> ctaken s = 2"
proof (intro exI conjI)
  show "reach csem_init (csem_run_step True 2) csem_over_state"
    by (rule csem_start_run [OF csem_over_run])
qed (simp_all add: csem_over_state_def)

text \<open>The POSIX wrapper posts exactly once per signalled token, and its spinning wait tries until
  the first success or \<open>spin_count\<close> tries, and only then blocks.\<close>

theorem posix_semaphore_calls:
  assumes "\<And>j. j < k \<Longrightarrow> \<not> tries j" and "k \<le> unat spin_count" and "k < unat spin_count \<longrightarrow> tries k"
  shows "posix_signal count = replicate (unat count) Sem_Post \<and>
    posix_wait tries spin_count =
      replicate k Sem_Trywait @ [if k < unat spin_count then Sem_Trywait else Sem_Wait]"
  using posix_spin_calls [of 0 k tries spin_count] assms
  by (simp add: posix_signal_posts posix_wait_def)

theorem posix_semaphore_calls_witness:
  "posix_signal (2 :: 8 word) = [Sem_Post, Sem_Post] \<and>
   posix_wait (\<lambda>i. i = 1) 5 = [Sem_Trywait, Sem_Trywait] \<and>
   posix_wait (\<lambda>i. i = 9) 2 = [Sem_Trywait, Sem_Trywait, Sem_Wait]"
  using posix_semaphore_calls [of 1 "\<lambda>i. i = 1" 5 "2 :: 8 word"]
    posix_semaphore_calls [of 2 "\<lambda>i. i = 9" 2 "2 :: 8 word"]
  by (simp add: replicate_2)

end
