(* ===== verification/SpinLock.thy ===== *)
theory SpinLock
  imports Prelude
begin

text \<open>
  cpp/spin_lock.cpp: the checked atomic counters of \<open>detail\<close>, the spin nops and the spin lock,
  as the machine of \<open>n\<close> threads that lock, try to lock and unlock it.
\<close>

section \<open>Checked counters\<close>

text \<open>The pair is what \<open>BOOST_VERIFY\<close> checks and the word after the operation.\<close>

definition overflow_checked_add :: "'a::len word \<Rightarrow> 'a word \<Rightarrow> bool \<times> 'a word" where
  "overflow_checked_add object value = (object < - 1, object + value)"

definition overflow_checked_inc :: "'a::len word \<Rightarrow> bool \<times> 'a word" where
  "overflow_checked_inc object = overflow_checked_add object 1"

definition underflow_checked_dec :: "'a::len word \<Rightarrow> bool \<times> 'a word" where
  "underflow_checked_dec object = (object > 0, object - 1)"

lemma below_max_word: "(object :: 'a::len word) < - 1 \<longleftrightarrow> unat object + 1 < 2 ^ LENGTH('a)"
proof -
  have "unat (- 1 :: 'a word) = 2 ^ LENGTH('a) - 1"
    by (simp only: unsigned_minus_1_eq_mask mask_eq_exp_minus_1)
  then show ?thesis by (auto simp: word_less_nat_alt)
qed

section \<open>The lock\<close>

datatype lock_pc =
    L_Out
  | L_Spin           \<comment> \<open>in the loop of \<open>lock\<close>\<close>
  | L_Try            \<comment> \<open>in \<open>try_lock\<close>\<close>
  | L_In

definition test_and_set :: "bool \<Rightarrow> bool \<times> bool" where
  "test_and_set flag = (flag, True)"

definition try_lock :: "bool \<Rightarrow> bool \<times> bool" where
  "try_lock flag = (case test_and_set flag of (was, flag') \<Rightarrow> (\<not> was, flag'))"

text \<open>One access of a thread: the new flag and where the thread is then.\<close>

fun lock_next :: "bool \<Rightarrow> lock_pc \<Rightarrow> bool \<times> lock_pc" where
  "lock_next flag L_Out = (flag, L_Out)"
| "lock_next flag L_Spin = (case try_lock flag of (ok, flag') \<Rightarrow> (flag', if ok then L_In else L_Spin))"
| "lock_next flag L_Try = (case try_lock flag of (ok, flag') \<Rightarrow> (flag', if ok then L_In else L_Out))"
| "lock_next flag L_In = (False, L_Out)"

record lock_sys =
  flag :: bool
  lock_pcs :: "tid \<Rightarrow> lock_pc"

definition lock_init :: "lock_sys \<Rightarrow> bool" where
  "lock_init s \<longleftrightarrow> \<not> flag s \<and> (\<forall>t. lock_pcs s t = L_Out)"

inductive lock_step :: "nat \<Rightarrow> lock_sys \<Rightarrow> lock_sys \<Rightarrow> bool" for n where
  enter: "t < n \<Longrightarrow> lock_pcs s t = L_Out \<Longrightarrow> p \<in> {L_Spin, L_Try} \<Longrightarrow>
    lock_step n s (s\<lparr>lock_pcs := (lock_pcs s)(t := p)\<rparr>)"
| act: "t < n \<Longrightarrow> lock_next (flag s) (lock_pcs s t) = (f, p) \<Longrightarrow>
    lock_step n s (s\<lparr>flag := f, lock_pcs := (lock_pcs s)(t := p)\<rparr>)"

definition holds :: "lock_pc \<Rightarrow> nat" where
  "holds p = of_bool (p = L_In)"

definition lock_inv :: "nat \<Rightarrow> lock_sys \<Rightarrow> bool" where
  "lock_inv n s \<longleftrightarrow> weight n holds (lock_pcs s) = of_bool (flag s)"

interpretation spin: invariant_system lock_init "lock_step n" "lock_inv n" for n
proof unfold_locales
  fix s s'
  show "lock_init s \<Longrightarrow> lock_inv n s"
    by (simp add: lock_init_def lock_inv_def weight_def total_weight_def holds_def)
  assume inv: "lock_inv n s" and "lock_step n s s'"
  from this(2) show "lock_inv n s'"
  proof cases
    case (enter t p)
    then show ?thesis using inv by (auto simp: lock_inv_def weight_upd holds_def)
  next
    case (act t f p)
    have "lock_pcs s t = L_In \<Longrightarrow> flag s"
      using inv weight_ge [OF act(2), of holds "lock_pcs s"]
      by (auto simp: lock_inv_def holds_def of_bool_def split: if_splits)
    with act inv show ?thesis
      by (cases "lock_pcs s t")
        (auto simp: lock_inv_def weight_upd holds_def try_lock_def test_and_set_def split: if_splits)
  qed
qed

section \<open>Theorems\<close>

text \<open>Two threads are never in the spin lock at once, and the flag is clear exactly when nobody
  is, so that the next \<open>try_lock\<close> succeeds.\<close>

theorem spin_lock_exclusive:
  assumes "reach lock_init (lock_step n) s"
  shows "card {t. t < n \<and> lock_pcs s t = L_In} \<le> 1
    \<and> (fst (try_lock (flag s)) \<longleftrightarrow> (\<forall>t<n. lock_pcs s t \<noteq> L_In))"
proof -
  have w: "weight n holds (lock_pcs s) = of_bool (flag s)"
    using spin.inv_reach [OF assms] by (simp add: lock_inv_def)
  moreover have "weight n holds (lock_pcs s) = int (card {t. t < n \<and> lock_pcs s t = L_In})"
    unfolding holds_def by (rule weight_card)
  with w have "int (card {t. t < n \<and> lock_pcs s t = L_In}) = int (of_bool (flag s))" by simp
  then have "card {t. t < n \<and> lock_pcs s t = L_In} = of_bool (flag s)" by (simp only: of_nat_eq_iff)
  moreover have "weight n holds (lock_pcs s) = 0 \<longleftrightarrow> (\<forall>t<n. lock_pcs s t \<noteq> L_In)"
    by (simp add: weight_zero holds_def)
  ultimately show ?thesis
    by (auto simp: try_lock_def test_and_set_def)
qed

theorem spin_lock_exclusive_witness:
  "fst (try_lock False) \<longleftrightarrow> (\<forall>t<2. ((\<lambda>_. L_Out)(0 := L_Try)) (t :: nat) \<noteq> L_In)"
proof -
  let ?s0 = "\<lparr>flag = False, lock_pcs = (\<lambda>_. L_Out)\<rparr>"
  have "reach lock_init (lock_step 2) ?s0" by (rule reach.start) (simp add: lock_init_def)
  moreover have "lock_step 2 ?s0 (?s0\<lparr>lock_pcs := (lock_pcs ?s0)(0 := L_Try)\<rparr>)"
    by (rule lock_step.enter) simp_all
  ultimately have "reach lock_init (lock_step 2) (?s0\<lparr>lock_pcs := (lock_pcs ?s0)(0 := L_Try)\<rparr>)"
    by (rule reach.move)
  from spin_lock_exclusive [OF this] show ?thesis by simp
qed

text \<open>The checks of the increment and the decrement fail exactly when the word wraps; the check
  of the addition looks only at the old value, and passes a sum that wraps.\<close>

theorem checked_counters:
  "(fst (overflow_checked_inc (object :: 'a::len word))
      \<longleftrightarrow> unat (snd (overflow_checked_inc object)) = unat object + 1)
   \<and> (fst (underflow_checked_dec object)
      \<longleftrightarrow> int (unat (snd (underflow_checked_dec object))) = int (unat object) - 1)
   \<and> overflow_checked_add (254 :: 8 word) 2 = (True, 0)"
proof (intro conjI)
  show "fst (overflow_checked_inc object) \<longleftrightarrow> unat (snd (overflow_checked_inc object)) = unat object + 1"
    unfolding overflow_checked_inc_def overflow_checked_add_def fst_conv snd_conv below_max_word
    using unat_lt2p [of "object + 1"] by (metis unat_1 unat_add_small)
  show "fst (underflow_checked_dec object)
      \<longleftrightarrow> int (unat (snd (underflow_checked_dec object))) = int (unat object) - 1"
  proof (cases "object = 0")
    case True
    have "int (unat (object - 1)) \<noteq> - 1" by linarith
    with True show ?thesis by (simp add: underflow_checked_dec_def del: uint_nat)
  next
    case False
    then show ?thesis using uint_minus_1 [of object] by (simp add: underflow_checked_dec_def word_gt_0)
  qed
  show "overflow_checked_add (254 :: 8 word) 2 = (True, 0)"
    by (simp add: overflow_checked_add_def)
qed

end
