(* ===== verification/Barrier.thy ===== *)
theory Barrier
  imports Futex SpinLock
begin

text \<open>
  The join barriers of a spread (threading/futex_barrier.cpp, threading/generic_barrier.cpp): one
  waiter, thread 0, and \<open>n - 1\<close> arrivers, the threads from 1. Each barrier has its blocking mode
  and, with PSI_SWEATER_USE_CALLER_THREAD, a spinning mode chosen by \<open>spin_wait\<close>.
\<close>

section \<open>The futex barrier\<close>

record futex_barrier =
  counter :: "32 word"
  use_spin_wait :: bool

definition barrier_new :: "'h::len word \<Rightarrow> bool \<Rightarrow> futex_barrier" where
  "barrier_new initial_value spin = \<lparr>counter = ucast initial_value, use_spin_wait = spin\<rparr>"

definition barrier_initialize :: "'h::len word \<Rightarrow> futex_barrier \<Rightarrow> futex_barrier" where
  "barrier_initialize initial_value b = b\<lparr>counter := ucast initial_value\<rparr>"

definition add_expected_arrival :: "futex_barrier \<Rightarrow> bool \<times> futex_barrier" where
  "add_expected_arrival b = (case overflow_checked_add (counter b) 1 of (ok, c) \<Rightarrow> (ok, b\<lparr>counter := c\<rparr>))"

text \<open>The 32-bit counter is cast to \<open>hardware_concurrency_t\<close>, here of width \<open>'h\<close>.\<close>

definition actives :: "futex_barrier \<Rightarrow> 'h::len word" where
  "actives b = ucast (counter b)"

definition everyone_arrived :: "'h::len itself \<Rightarrow> futex_barrier \<Rightarrow> bool" where
  "everyone_arrived h b \<longleftrightarrow> (actives b :: 'h word) = 0"

datatype bar_pc =
    B_Arrive                        \<comment> \<open>before \<open>arrive\<close>\<close>
  | B_Wake                          \<comment> \<open>the last arriver, before \<open>wake_one\<close>\<close>
  | B_Arrived
  | B_Load                          \<comment> \<open>\<open>wait\<close>, before the load\<close>
  | B_Park "32 word"                \<comment> \<open>\<open>non_arrived_count\<close>\<close>
  | B_Parked
  | B_Poll "32 word" "32 word"      \<comment> \<open>\<open>spin_wait\<close>: nop_spin_count, spin_tries\<close>
  | B_Yield
  | B_Returned bool                 \<comment> \<open>the result of \<open>spin_wait\<close>, \<open>True\<close> for \<open>wait\<close>\<close>

fun bar_next :: "'h::len itself \<Rightarrow> futex_barrier \<Rightarrow> bar_pc \<Rightarrow> (futex_barrier \<times> bar_pc) option" where
  "bar_next h b B_Arrive =
     (if use_spin_wait b then Some (b\<lparr>counter := snd (underflow_checked_dec (counter b))\<rparr>, B_Arrived)
      else Some (b\<lparr>counter := counter b - 1\<rparr>, if counter b = 1 then B_Wake else B_Arrived))"
| "bar_next h b B_Load =
     Some (b, if counter b = 0 then B_Returned True else B_Park (counter b))"
| "bar_next h b (B_Park non_arrived_count) =
     Some (b, if parks (counter b) non_arrived_count then B_Parked else B_Load)"
| "bar_next h b (B_Poll nop_spin_count spin_tries) =
     (if spin_tries \<noteq> 0
      then let spin_tries' = spin_tries - 1
           in Some (b, if everyone_arrived h b
                       then B_Returned (nop_spin_count - spin_tries' < nop_spin_count div 8)
                       else B_Poll nop_spin_count spin_tries')
      else Some (b, B_Yield))"
| "bar_next h b B_Yield = Some (b, if everyone_arrived h b then B_Returned True else B_Yield)"
| "bar_next h b _ = None"

record bar_sys =
  bar :: futex_barrier
  bpc :: "tid \<Rightarrow> bar_pc"

text \<open>The waiter calls \<open>wait\<close>, or \<open>spin_wait\<close> after \<open>use_spin_wait(true)\<close>.\<close>

definition bar_init :: "'h::len itself \<Rightarrow> nat \<Rightarrow> bar_sys \<Rightarrow> bool" where
  "bar_init h n s \<longleftrightarrow> bar s = barrier_new (of_nat (n - 1) :: 'h word) (use_spin_wait (bar s)) \<and>
     (\<forall>t. t \<noteq> 0 \<longrightarrow> bpc s t = B_Arrive) \<and>
     (if use_spin_wait (bar s) then \<exists>c. bpc s 0 = B_Poll c c else bpc s 0 = B_Load)"

definition bar_parked :: "nat \<Rightarrow> (tid \<Rightarrow> bar_pc) \<Rightarrow> parked" where
  "bar_parked n p = (\<lambda>t. if t < n \<and> p t = B_Parked then Some all_bits else None)"

inductive bar_step ::
  "(parked \<Rightarrow> tid set \<Rightarrow> bool) \<Rightarrow> 'h::len itself \<Rightarrow> nat \<Rightarrow> bar_sys \<Rightarrow> bar_sys \<Rightarrow> bool"
  for wake_one h n where
  act: "t < n \<Longrightarrow> bar_next h (bar s) (bpc s t) = Some (b, p) \<Longrightarrow>
    bar_step wake_one h n s (s\<lparr>bar := b, bpc := (bpc s)(t := p)\<rparr>)"
| spurious: "t < n \<Longrightarrow> bpc s t = B_Parked \<Longrightarrow>
    bar_step wake_one h n s (s\<lparr>bpc := (bpc s)(t := B_Load)\<rparr>)"
| wake: "t < n \<Longrightarrow> bpc s t = B_Wake \<Longrightarrow> wake_one (bar_parked n (bpc s)) woken \<Longrightarrow>
    bar_step wake_one h n s (s\<lparr>bpc := (move_all woken B_Load (bpc s))(t := B_Arrived)\<rparr>)"

section \<open>The invariant\<close>

fun arriving :: "bar_pc \<Rightarrow> nat" where
  "arriving B_Arrive = 1" | "arriving _ = 0"

fun arriver_pc :: "bar_pc \<Rightarrow> bool" where
  "arriver_pc B_Arrive = True" | "arriver_pc B_Wake = True" | "arriver_pc B_Arrived = True"
| "arriver_pc _ = False"

definition waiter_ok :: "nat \<Rightarrow> bar_sys \<Rightarrow> bool" where
  "waiter_ok n s \<longleftrightarrow> (case bpc s 0 of
       B_Park c \<Rightarrow> c \<noteq> 0 \<and> \<not> use_spin_wait (bar s)
     | B_Parked \<Rightarrow> (counter (bar s) \<noteq> 0 \<or> (\<exists>t<n. bpc s t = B_Wake)) \<and> \<not> use_spin_wait (bar s)
     | B_Load \<Rightarrow> \<not> use_spin_wait (bar s)
     | B_Poll c i \<Rightarrow> use_spin_wait (bar s)
     | B_Yield \<Rightarrow> use_spin_wait (bar s)
     | B_Returned r \<Rightarrow> counter (bar s) = 0
     | _ \<Rightarrow> False)"

definition bar_inv :: "'h::len itself \<Rightarrow> nat \<Rightarrow> bar_sys \<Rightarrow> bool" where
  "bar_inv h n s \<longleftrightarrow> uint (counter (bar s)) = weight n arriving (bpc s) \<and>
     (\<forall>t. t \<noteq> 0 \<longrightarrow> arriver_pc (bpc s t)) \<and> waiter_ok n s"

definition bar_setting :: "(parked \<Rightarrow> tid set \<Rightarrow> bool) \<Rightarrow> 'h::len itself \<Rightarrow> nat \<Rightarrow> bool" where
  "bar_setting wake_one h n \<longleftrightarrow> wakes_one wake_one \<and> 0 < n \<and> n \<le> 2 ^ LENGTH('h) \<and> LENGTH('h) \<le> 16"

lemma everyone_arrived_exact:
  "unat (counter b) < 2 ^ LENGTH('h) \<Longrightarrow> everyone_arrived TYPE('h::len) b \<longleftrightarrow> counter b = 0"
  using unat_ucast_small [of "counter b", where 'b = 'h]
  by (auto simp: everyone_arrived_def actives_def unsigned_eq_0_iff)

lemma arriving_le: "weight n arriving p \<le> int n"
proof (rule weight_le)
  show "arriving q \<le> 1" for q by (cases q) auto
qed

lemma bar_init_inv:
  assumes "bar_setting wake_one TYPE('h::len) n" and "bar_init TYPE('h) n s"
  shows "bar_inv TYPE('h) n s"
proof -
  from assms have n: "n - 1 < 2 ^ LENGTH('h)" and width: "LENGTH('h) \<le> LENGTH(32)" and "0 < n"
    by (auto simp: bar_setting_def)
  have "{..<n} = insert 0 {1..<n}" using \<open>0 < n\<close> by auto
  moreover have "arriving (bpc s 0) = 0" using assms(2) by (auto simp: bar_init_def split: if_splits)
  ultimately have "weight n arriving (bpc s) = int (n - 1)"
    using assms(2) by (simp add: weight_def total_weight_def bar_init_def)
  moreover have c: "counter (bar s) = ucast (of_nat (n - 1) :: 'h word)"
    using assms(2) by (metis bar_init_def barrier_new_def futex_barrier.select_convs(1))
  have "unat (counter (bar s)) = n - 1"
    unfolding c unat_ucast_widen [OF width] using n by (rule unat_of_nat_small)
  ultimately show ?thesis using assms(2)
    by (auto simp: bar_inv_def waiter_ok_def bar_init_def uint_nat split: if_splits simp del: of_nat_unat)
qed

lemma bar_inv_step:
  assumes setting: "bar_setting wake_one TYPE('h::len) n" and inv: "bar_inv TYPE('h) n s"
    and step: "bar_step wake_one TYPE('h) n s s'"
  shows "bar_inv TYPE('h) n s'"
  using step
proof cases
  case (act t b p)
  have u: "uint (counter (bar s)) = weight n arriving (bpc s)" and ok: "waiter_ok n s"
    and arr: "\<And>t. t \<noteq> 0 \<Longrightarrow> arriver_pc (bpc s t)"
    using inv by (auto simp: bar_inv_def)
  show ?thesis
  proof (cases "t = 0")
    case True
    have z: "bpc s 0 \<noteq> B_Arrive" using ok by (auto simp: waiter_ok_def)
    have "weight n arriving ((bpc s)(0 := B_Arrive)) \<le> int n" by (rule arriving_le)
    with z act(2) True u have "uint (counter (bar s)) < int n"
      by (cases "bpc s 0") (auto simp: weight_upd)
    moreover have "int n \<le> 2 ^ LENGTH('h)" using setting by (simp add: bar_setting_def)
    ultimately have "uint (counter (bar s)) < 2 ^ LENGTH('h)" by linarith
    then have "unat (counter (bar s)) < 2 ^ LENGTH('h)"
      by (simp only: unat_eq_nat_uint nat_less_iff uint_nonnegative of_nat_power of_nat_numeral)
    note exact = everyone_arrived_exact [OF this]
    have nx: "bar_next TYPE('h) (bar s) (bpc s 0) = Some (b, p)" using act(3) True by simp
    have b: "b = bar s" and quiet: "arriving p = 0" "arriving (bpc s 0) = 0"
      using nx z by (cases "bpc s 0"; auto simp: Let_def split: if_splits)+
    have "waiter_ok n s'"
      using nx ok unfolding waiter_ok_def act(1) b True
      by (cases "bpc s 0") (auto simp: exact Let_def parks_def split: if_splits)
    moreover have "weight n arriving ((bpc s)(0 := p)) = weight n arriving (bpc s)"
      using act(2) True quiet by (simp add: weight_upd)
    ultimately show ?thesis using u arr by (simp add: bar_inv_def act(1) b True)
  next
    case False
    then have p: "bpc s t = B_Arrive" using arr [OF False] act(3) by (cases "bpc s t") auto
    have "0 < counter (bar s)"
      using weight_ge [OF act(2), of arriving "bpc s"] u p by (simp add: word_less_alt)
    note dec = uint_minus_1 [OF this]
    have b: "counter b = counter (bar s) - 1" "use_spin_wait b = use_spin_wait (bar s)"
      and p': "p = B_Arrived \<or> p = B_Wake"
      and last: "counter b = 0 \<Longrightarrow> \<not> use_spin_wait (bar s) \<Longrightarrow> p = B_Wake"
      using act(3) p by (auto simp: underflow_checked_dec_def split: if_splits)
    have "weight n arriving ((bpc s)(t := p)) = weight n arriving (bpc s) - 1"
      using p p' act(2) by (auto simp: weight_upd)
    then have "uint (counter b) = weight n arriving ((bpc s)(t := p))" using u dec b by simp
    moreover have "waiter_ok n s'"
    proof (cases "bpc s 0")
      case B_Parked
      with ok have "\<not> use_spin_wait (bar s)" by (simp add: waiter_ok_def)
      with B_Parked False last act(2) show ?thesis by (auto simp: waiter_ok_def act(1) b(2))
    qed (use ok False b(2) \<open>0 < counter (bar s)\<close> in \<open>simp_all add: waiter_ok_def act(1)\<close>)
    moreover have "\<forall>u. u \<noteq> 0 \<longrightarrow> arriver_pc (bpc s' u)" using arr p' by (auto simp: act(1))
    ultimately show ?thesis by (simp add: bar_inv_def act(1))
  qed
next
  case (spurious t)
  then have "t = 0" using inv by (auto simp: bar_inv_def)
  with spurious inv show ?thesis by (auto simp: bar_inv_def waiter_ok_def weight_upd)
next
  case (wake t woken)
  have ok: "waiter_ok n s" and arr: "\<And>t. t \<noteq> 0 \<Longrightarrow> arriver_pc (bpc s t)"
    and u: "uint (counter (bar s)) = weight n arriving (bpc s)"
    using inv by (auto simp: bar_inv_def)
  have t: "t \<noteq> 0"
  proof
    assume "t = 0"
    with wake(3) ok show False by (simp add: waiter_ok_def)
  qed
  have n: "0 < n" using setting by (simp add: bar_setting_def)
  have dom: "dom (bar_parked n (bpc s)) = (if bpc s 0 = B_Parked then {0} else {})"
  proof -
    have "bpc s t = B_Parked \<Longrightarrow> t = 0" for t using arr [of t] by (cases "t = 0") auto
    then have "{t. t < n \<and> bpc s t = B_Parked} = (if bpc s 0 = B_Parked then {0} else {})"
      using n by auto
    moreover have "dom (bar_parked n (bpc s)) = {t. t < n \<and> bpc s t = B_Parked}"
      by (simp add: bar_parked_def dom_def)
    ultimately show ?thesis by simp
  qed
  have woken: "woken = (if bpc s 0 = B_Parked then {0} else {})"
    using setting wake(4) wakes_oneD [of wake_one "bar_parked n (bpc s)" woken]
    by (auto simp: dom bar_setting_def split: if_splits)
  have pc: "(move_all woken B_Load (bpc s))(t := B_Arrived)
      = (if bpc s 0 = B_Parked then (bpc s)(0 := B_Load, t := B_Arrived) else (bpc s)(t := B_Arrived))"
    by (auto simp: woken move_all_def)
  have "weight n arriving ((bpc s)(0 := B_Load, t := B_Arrived)) = weight n arriving (bpc s)"
    if "bpc s 0 = B_Parked" using that wake t n by (simp add: weight_upd)
  moreover have "weight n arriving ((bpc s)(t := B_Arrived)) = weight n arriving (bpc s)"
    using wake by (simp add: weight_upd)
  moreover have "bpc s 0 = B_Parked \<Longrightarrow> \<not> use_spin_wait (bar s)" using ok by (auto simp: waiter_ok_def)
  ultimately show ?thesis
    using u arr ok t unfolding wake(1) pc
    by (cases "bpc s 0") (auto simp: bar_inv_def waiter_ok_def)
qed

interpretation barrier_machine: invariant_system
  "\<lambda>s. bar_setting wake_one TYPE('h::len) n \<and> bar_init TYPE('h) n s"
  "bar_step wake_one TYPE('h) n"
  "\<lambda>s. bar_setting wake_one TYPE('h) n \<longrightarrow> bar_inv TYPE('h) n s" for wake_one n
  by unfold_locales (auto intro: bar_init_inv bar_inv_step)

text \<open>The wake calls the platforms make for \<open>wake_one\<close>.\<close>

lemma linux_wakes_one: "linux_spec K \<Longrightarrow> wakes_one (K linux_wake_one)"
  unfolding linux_wake_one_def by (rule wakes_enough_one [OF linux.wake_contract])

lemma apple_wakes_one: "address_spec K \<Longrightarrow> wakes_one (K apple_wake_one)"
  by (fastforce simp: address_spec_def wakes_one_def apple_wake_one_def)

lemma windows_wakes_one: "address_spec K \<Longrightarrow> wakes_one (K windows_wake_one)"
  by (fastforce simp: address_spec_def wakes_one_def windows_wake_one_def)

lemma emscripten_wakes_one: "emscripten_spec K \<Longrightarrow> wakes_one (K emscripten_wake_one)"
  unfolding emscripten_wake_one_def by (rule wakes_enough_one [OF emscripten.wake_contract])

lemma bar_inv_arrived:
  assumes "bar_inv TYPE('h::len) n s" "t < n"
  shows "counter (bar s) = 0 \<Longrightarrow> bpc s t \<noteq> B_Arrive"
    and "(\<And>t. t < n \<Longrightarrow> bpc s t \<noteq> B_Arrive) \<Longrightarrow> counter (bar s) = 0"
proof -
  have u: "uint (counter (bar s)) = weight n arriving (bpc s)"
    using assms(1) by (simp add: bar_inv_def)
  show "counter (bar s) = 0 \<Longrightarrow> bpc s t \<noteq> B_Arrive"
    using u weight_zero [of n arriving "bpc s"] assms(2) by fastforce
  assume "\<And>t. t < n \<Longrightarrow> bpc s t \<noteq> B_Arrive"
  then have "arriving (bpc s t) = 0" if "t < n" for t using that by (cases "bpc s t") auto
  then have "uint (counter (bar s)) = 0" using u weight_zero [of n arriving "bpc s"] by simp
  then show "counter (bar s) = 0" by (simp only: uint_0_iff)
qed

section \<open>The condition-variable barrier\<close>

text \<open>The counter is a \<open>hardware_concurrency_t\<close> here, and a region under \<open>mutex_\<close> is one step.\<close>

record 'hc generic_barrier =
  g_counter :: 'hc
  g_spin_wait :: bool

definition generic_initialize :: "'h::len word \<Rightarrow> 'h word generic_barrier \<Rightarrow> 'h word generic_barrier" where
  "generic_initialize initial_value b = b\<lparr>g_counter := initial_value\<rparr>"

definition generic_add_expected_arrival ::
  "'h::len word generic_barrier \<Rightarrow> bool \<times> 'h word generic_barrier" where
  "generic_add_expected_arrival b =
     (case overflow_checked_add (g_counter b) 1 of (ok, c) \<Rightarrow> (ok, b\<lparr>g_counter := c\<rparr>))"

definition generic_everyone_arrived :: "'h::len word generic_barrier \<Rightarrow> bool" where
  "generic_everyone_arrived b \<longleftrightarrow> g_counter b = 0"

datatype gbar_pc =
    G_Arrive
  | G_Arrived
  | G_Lock                          \<comment> \<open>\<open>wait\<close>, at the loop condition with the mutex held\<close>
  | G_Asleep
  | G_Poll "32 word" "32 word"
  | G_Yield
  | G_Returned bool

text \<open>The third component: whether the step notifies the condition variable.\<close>

fun gbar_next :: "'h::len word generic_barrier \<Rightarrow> gbar_pc
    \<Rightarrow> ('h word generic_barrier \<times> gbar_pc \<times> bool) option" where
  "gbar_next b G_Arrive =
     (if g_spin_wait b
      then Some (b\<lparr>g_counter := snd (underflow_checked_dec (g_counter b))\<rparr>, G_Arrived, False)
      else Some (b\<lparr>g_counter := g_counter b - 1\<rparr>, G_Arrived, g_counter b = 1))"
| "gbar_next b G_Lock = Some (b, if g_counter b \<noteq> 0 then G_Asleep else G_Returned True, False)"
| "gbar_next b (G_Poll nop_spin_count spin_tries) =
     (if spin_tries \<noteq> 0
      then let spin_tries' = spin_tries - 1
           in Some (b, if generic_everyone_arrived b
                       then G_Returned (nop_spin_count - spin_tries' < nop_spin_count div 8)
                       else G_Poll nop_spin_count spin_tries', False)
      else Some (b, G_Yield, False))"
| "gbar_next b G_Yield =
     Some (b, if generic_everyone_arrived b then G_Returned True else G_Yield, False)"
| "gbar_next b _ = None"

record 'hc gbar_sys =
  gbar :: "'hc generic_barrier"
  gpc :: "tid \<Rightarrow> gbar_pc"

definition gbar_init :: "nat \<Rightarrow> 'h::len word gbar_sys \<Rightarrow> bool" where
  "gbar_init n s \<longleftrightarrow> 0 < n \<and> n \<le> 2 ^ LENGTH('h) \<and> g_counter (gbar s) = of_nat (n - 1) \<and>
     (\<forall>t. t \<noteq> 0 \<longrightarrow> gpc s t = G_Arrive) \<and>
     (if g_spin_wait (gbar s) then \<exists>c. gpc s 0 = G_Poll c c else gpc s 0 = G_Lock)"

definition gbar_notify :: "bool \<Rightarrow> (tid \<Rightarrow> gbar_pc) \<Rightarrow> (tid \<Rightarrow> gbar_pc)" where
  "gbar_notify notify p = (if notify \<and> p 0 = G_Asleep then p(0 := G_Lock) else p)"

inductive gbar_step :: "nat \<Rightarrow> 'h::len word gbar_sys \<Rightarrow> 'h word gbar_sys \<Rightarrow> bool" for n where
  act: "t < n \<Longrightarrow> gbar_next (gbar s) (gpc s t) = Some (b, p, notify) \<Longrightarrow>
    gbar_step n s (s\<lparr>gbar := b, gpc := gbar_notify notify ((gpc s)(t := p))\<rparr>)"
| spurious: "t < n \<Longrightarrow> gpc s t = G_Asleep \<Longrightarrow> gbar_step n s (s\<lparr>gpc := (gpc s)(t := G_Lock)\<rparr>)"

definition g_arriving :: "gbar_pc \<Rightarrow> nat" where
  "g_arriving p = of_bool (p = G_Arrive)"

definition g_waiter_ok :: "'h::len word gbar_sys \<Rightarrow> bool" where
  "g_waiter_ok s \<longleftrightarrow> (case gpc s 0 of
       G_Lock \<Rightarrow> \<not> g_spin_wait (gbar s)
     | G_Asleep \<Rightarrow> \<not> g_spin_wait (gbar s) \<and> g_counter (gbar s) \<noteq> 0
     | G_Poll c i \<Rightarrow> g_spin_wait (gbar s)
     | G_Yield \<Rightarrow> g_spin_wait (gbar s)
     | G_Returned r \<Rightarrow> g_counter (gbar s) = 0
     | _ \<Rightarrow> False)"

definition gbar_inv :: "nat \<Rightarrow> 'h::len word gbar_sys \<Rightarrow> bool" where
  "gbar_inv n s \<longleftrightarrow> uint (g_counter (gbar s)) = weight n g_arriving (gpc s) \<and>
     (\<forall>t. t \<noteq> 0 \<longrightarrow> gpc s t = G_Arrive \<or> gpc s t = G_Arrived) \<and> g_waiter_ok s"

lemma gbar_init_inv: "gbar_init n s \<Longrightarrow> gbar_inv n (s :: 'h::len word gbar_sys)"
proof -
  assume init: "gbar_init n s"
  then have "{..<n} = insert 0 {1..<n}" by (auto simp: gbar_init_def)
  moreover have "g_arriving (gpc s 0) = 0"
    using init by (auto simp: gbar_init_def g_arriving_def split: if_splits)
  moreover have "(\<Sum>t\<in>{1..<n}. g_arriving (gpc s t)) = (\<Sum>t\<in>{1..<n}. 1)"
    using init by (intro sum.cong) (auto simp: gbar_init_def g_arriving_def)
  ultimately have "weight n g_arriving (gpc s) = int (n - 1)"
    by (simp add: weight_def total_weight_def)
  moreover have "n - 1 < 2 ^ LENGTH('h)" using init by (auto simp: gbar_init_def)
  then have "unat (g_counter (gbar s)) = n - 1"
    using init unat_of_nat_small [of "n - 1", where 'a = 'h] by (simp add: gbar_init_def)
  ultimately show ?thesis using init
    by (auto simp: gbar_inv_def g_waiter_ok_def gbar_init_def uint_nat split: if_splits simp del: of_nat_unat)
qed

lemma gbar_inv_step:
  fixes s :: "'h::len word gbar_sys"
  assumes inv: "gbar_inv n s" and step: "gbar_step n s s'"
  shows "gbar_inv n s'"
  using step
proof cases
  case (act t b p notify)
  have u: "uint (g_counter (gbar s)) = weight n g_arriving (gpc s)" and ok: "g_waiter_ok s"
    and arr: "\<And>t. t \<noteq> 0 \<Longrightarrow> gpc s t = G_Arrive \<or> gpc s t = G_Arrived"
    using inv by (auto simp: gbar_inv_def)
  show ?thesis
  proof (cases "t = 0")
    case True
    have nx: "gbar_next (gbar s) (gpc s 0) = Some (b, p, notify)" using act(3) True by simp
    have b: "b = gbar s" "\<not> notify" and quiet: "g_arriving p = 0" "g_arriving (gpc s 0) = 0"
      using nx ok by (cases "gpc s 0"; auto simp: Let_def g_arriving_def g_waiter_ok_def split: if_splits)+
    have "g_waiter_ok s'"
      using nx ok unfolding g_waiter_ok_def act(1) b True
      by (cases "gpc s 0") (auto simp: Let_def gbar_notify_def generic_everyone_arrived_def b split: if_splits)
    moreover have "weight n g_arriving ((gpc s)(0 := p)) = weight n g_arriving (gpc s)"
      using act(2) True quiet by (simp add: weight_upd)
    ultimately show ?thesis using u arr b by (simp add: gbar_inv_def act(1) True gbar_notify_def)
  next
    case False
    then have p: "gpc s t = G_Arrive" using arr [OF False] act(3) by auto
    have "0 < g_counter (gbar s)"
      using weight_ge [OF act(2), of g_arriving "gpc s"] u p by (simp add: word_less_alt g_arriving_def)
    note dec = uint_minus_1 [OF this]
    have b: "g_counter b = g_counter (gbar s) - 1" "g_spin_wait b = g_spin_wait (gbar s)" "p = G_Arrived"
      and last: "g_counter b = 0 \<Longrightarrow> \<not> g_spin_wait (gbar s) \<Longrightarrow> notify"
      using act(3) p by (auto simp: underflow_checked_dec_def split: if_splits)
    have keep: "weight n g_arriving (gbar_notify notify q) = weight n g_arriving q" for q
      using act(2) by (auto simp: gbar_notify_def weight_upd g_arriving_def)
    have "weight n g_arriving (gpc s') = weight n g_arriving (gpc s) - 1"
      using p act(2) by (simp add: act(1) keep weight_upd g_arriving_def b(3))
    then have "uint (g_counter (gbar s')) = weight n g_arriving (gpc s')" using u dec b by (simp add: act(1))
    moreover have "g_waiter_ok s'"
      using ok False b(2) \<open>0 < g_counter (gbar s)\<close> last
      by (cases "gpc s 0") (auto simp: g_waiter_ok_def act(1) gbar_notify_def)
    moreover have "\<forall>u. u \<noteq> 0 \<longrightarrow> gpc s' u = G_Arrive \<or> gpc s' u = G_Arrived"
      using arr b(3) by (auto simp: act(1) gbar_notify_def)
    ultimately show ?thesis by (simp add: gbar_inv_def)
  qed
next
  case (spurious t)
  then have "t = 0" using inv by (auto simp: gbar_inv_def)
  with spurious inv show ?thesis
    by (auto simp: gbar_inv_def g_waiter_ok_def weight_upd g_arriving_def)
qed

interpretation generic_barrier_machine: invariant_system "gbar_init n" "gbar_step n" "gbar_inv n" for n
  by unfold_locales (auto intro: gbar_init_inv gbar_inv_step)

section \<open>Theorems\<close>


definition bar_demo :: bar_sys where
  "bar_demo = \<lparr>bar = barrier_new (1 :: 8 word) False, bpc = (\<lambda>_. B_Arrive)(0 := B_Load)\<rparr>"


text \<open>The spinning poll reads the counter through \<open>hardware_concurrency_t\<close>: with 8 bits, 256
  outstanding arrivals read as none, where the blocking wait would park.\<close>

theorem barrier_poll_truncates:
  "(unat (counter b) < 2 ^ LENGTH('h::len) \<longrightarrow> everyone_arrived TYPE('h) b = (counter b = 0))
   \<and> (let b = \<lparr>counter = 256, use_spin_wait = True\<rparr> in everyone_arrived TYPE(8) b \<and>
        bar_next TYPE(8) b B_Yield = Some (b, B_Returned True) \<and>
        bar_next TYPE(8) b B_Load = Some (b, B_Park 256))"
proof (intro conjI impI)
  show "unat (counter b) < 2 ^ LENGTH('h) \<Longrightarrow> everyone_arrived TYPE('h) b = (counter b = 0)"
    by (rule everyone_arrived_exact)
qed (simp add: everyone_arrived_def actives_def Let_def)

theorem barrier_poll_truncates_witness:
  "everyone_arrived TYPE(16) \<lparr>counter = 256, use_spin_wait = True\<rparr> = False"
  using barrier_poll_truncates [of "\<lparr>counter = 256, use_spin_wait = True\<rparr>", where 'h = 16] by simp

text \<open>The condition-variable barrier: the waiter returns only when every arriver has arrived, and
  is never asleep once they have.\<close>

theorem generic_barrier_correct:
  fixes s :: "'h::len word gbar_sys"
  assumes "reach (gbar_init n) (gbar_step n) s"
  shows "(gpc s 0 = G_Returned r \<longrightarrow> (\<forall>t<n. gpc s t \<noteq> G_Arrive))
    \<and> ((\<forall>t<n. gpc s t \<noteq> G_Arrive) \<longrightarrow> gpc s 0 \<noteq> G_Asleep \<and> generic_everyone_arrived (gbar s))"
proof -
  have inv: "gbar_inv n s" by (rule generic_barrier_machine.inv_reach [OF assms])
  then have u: "uint (g_counter (gbar s)) = weight n g_arriving (gpc s)" and ok: "g_waiter_ok s"
    by (auto simp: gbar_inv_def)
  have "weight n g_arriving (gpc s) = 0 \<longleftrightarrow> (\<forall>t<n. gpc s t \<noteq> G_Arrive)"
    by (simp add: weight_zero g_arriving_def)
  with u have zero: "g_counter (gbar s) = 0 \<longleftrightarrow> (\<forall>t<n. gpc s t \<noteq> G_Arrive)"
    by (simp add: uint_0_iff [symmetric])
  show ?thesis using ok
    by (cases "gpc s 0") (simp_all add: zero [symmetric] g_waiter_ok_def generic_everyone_arrived_def)
qed

theorem generic_barrier_correct_witness:
  "let s = \<lparr>gbar = \<lparr>g_counter = (2 :: 8 word), g_spin_wait = False\<rparr>, gpc = (\<lambda>_. G_Arrive)(0 := G_Asleep)\<rparr>
   in \<not> (\<forall>t<3. gpc s t \<noteq> G_Arrive)"
proof -
  let ?s0 = "\<lparr>gbar = \<lparr>g_counter = (2 :: 8 word), g_spin_wait = False\<rparr>, gpc = (\<lambda>_. G_Arrive)(0 := G_Lock)\<rparr>"
  let ?s1 = "\<lparr>gbar = \<lparr>g_counter = (2 :: 8 word), g_spin_wait = False\<rparr>, gpc = (\<lambda>_. G_Arrive)(0 := G_Asleep)\<rparr>"
  have "reach (gbar_init 3) (gbar_step 3) ?s0" by (rule reach.start) (simp add: gbar_init_def)
  moreover have "gbar_step 3 ?s0 (?s0\<lparr>gbar := gbar ?s0, gpc := gbar_notify False ((gpc ?s0)(0 := G_Asleep))\<rparr>)"
    by (rule gbar_step.act) simp_all
  ultimately have "reach (gbar_init 3) (gbar_step 3)
      (?s0\<lparr>gbar := gbar ?s0, gpc := gbar_notify False ((gpc ?s0)(0 := G_Asleep))\<rparr>)"
    by (rule reach.move)
  then have "reach (gbar_init 3) (gbar_step 3) ?s1" by (simp add: gbar_notify_def)
  from generic_barrier_correct [OF this, of True] show ?thesis unfolding Let_def by force
qed

end
