(* ===== verification/RwMutex.thy ===== *)
theory RwMutex
  imports Futex
begin

unbundle bit_operations_syntax

text \<open>
  The futex reader-writer mutex (threading/futex_rw_mutex.hpp, futex_rw_mutex.cpp), at the width of
  the Linux and macOS futex, 32 bits: the state word, the acquire and release of both sides, the
  try variants, and the machine of \<open>n\<close> threads that use it. The two admission policies differ
  in \<open>reader_blocking_bits\<close> alone.
\<close>

section \<open>The state word\<close>

definition writer_locked_bit :: futex_value where
  "writer_locked_bit = push_bit 31 1"

definition writer_waiting_bit :: futex_value where
  "writer_waiting_bit = push_bit 30 1"

definition reader_parked_bit :: futex_value where
  "reader_parked_bit = push_bit 29 1"

definition parked_bits :: futex_value where
  "parked_bits = writer_waiting_bit OR reader_parked_bit"

definition reader_mask :: futex_value where
  "reader_mask = reader_parked_bit - 1"

definition reader_wait_bits :: futex_value where
  "reader_wait_bits = 1"

definition writer_wait_bits :: futex_value where
  "writer_wait_bits = 2"

definition either_wait_bits :: futex_value where
  "either_wait_bits = reader_wait_bits OR writer_wait_bits"

text \<open>The policies: \<open>futex_rw_mutex\<close> and \<open>reader_preferring_futex_rw_mutex\<close>.\<close>

definition writer_preferring :: futex_value where
  "writer_preferring = writer_locked_bit OR writer_waiting_bit"

definition reader_preferring :: futex_value where
  "reader_preferring = writer_locked_bit"

definition is_locked :: "futex_value \<Rightarrow> bool" where
  "is_locked state \<longleftrightarrow> state \<noteq> 0"

section \<open>The operations, one access to the word at a time\<close>

datatype rw_pc =
    Rw_Out
  | Ro_Load                    \<comment> \<open>\<open>acquire_ro_core\<close>, loop top\<close>
  | Ro_Eval futex_value        \<comment> \<open>with \<open>observed\<close>\<close>
  | Ro_Parked
  | Ro_Held
  | Ro_Wake                    \<comment> \<open>\<open>release_ro\<close>, before \<open>wake_all(writer_wait_bits)\<close>\<close>
  | Try_Ro
  | Try_Ro_Cas futex_value
  | Rw_Load                    \<comment> \<open>\<open>acquire_rw\<close>, before a load\<close>
  | Rw_Eval futex_value
  | Rw_Parked
  | Rw_Held
  | Rw_Wake                    \<comment> \<open>\<open>release_rw\<close>, before \<open>wake_all(either_wait_bits)\<close>\<close>
  | Try_Rw
  | Try_Rw_Cas futex_value

text \<open>The weak exchanges may fail spuriously, hence a list; the strong ones do not.\<close>

fun acquire_ro_core :: "futex_value \<Rightarrow> futex_value \<Rightarrow> futex_value \<Rightarrow> (futex_value \<times> rw_pc) list" where
  "acquire_ro_core reader_blocking_bits state observed =
     (if observed AND reader_blocking_bits = 0
      then (if state = observed then [(observed + 1, Ro_Held)] else []) @ [(state, Ro_Load)]
      else if observed AND reader_parked_bit = 0
      then (if state = observed then [(observed OR reader_parked_bit, Ro_Load)] else []) @ [(state, Ro_Load)]
      else [(state, if parks state observed then Ro_Parked else Ro_Load)])"

definition release_ro :: "futex_value \<Rightarrow> futex_value \<times> rw_pc" where
  "release_ro old =
     (old - 1, if old AND reader_mask = 1 \<and> old AND writer_waiting_bit \<noteq> 0 then Ro_Wake else Rw_Out)"

definition try_acquire_ro_core :: "futex_value \<Rightarrow> futex_value \<Rightarrow> futex_value \<Rightarrow> futex_value \<times> rw_pc" where
  "try_acquire_ro_core reader_blocking_bits state observed =
     (if observed AND reader_blocking_bits \<noteq> 0 then (state, Rw_Out)
      else if state = observed then (observed + 1, Ro_Held) else (state, Rw_Out))"

fun acquire_rw :: "futex_value \<Rightarrow> futex_value \<Rightarrow> (futex_value \<times> rw_pc) list" where
  "acquire_rw state observed =
     (if observed AND (reader_mask OR writer_locked_bit) = 0
      then (if state = observed
            then [(writer_locked_bit OR (observed AND parked_bits), Rw_Held)] else [])
           @ [(state, Rw_Eval state)]
      else if observed AND writer_waiting_bit = 0
      then (if state = observed
            then [(observed OR writer_waiting_bit, Rw_Eval (observed OR writer_waiting_bit))] else [])
           @ [(state, Rw_Eval state)]
      else [(state, if parks state observed then Rw_Parked else Rw_Load)])"

definition release_rw :: "futex_value \<Rightarrow> futex_value \<times> rw_pc" where
  "release_rw old_state = (0, if old_state AND parked_bits \<noteq> 0 then Rw_Wake else Rw_Out)"

definition try_acquire_rw :: "futex_value \<Rightarrow> futex_value \<Rightarrow> futex_value \<times> rw_pc" where
  "try_acquire_rw state observed =
     (if observed AND (reader_mask OR writer_locked_bit) \<noteq> 0 then (state, Rw_Out)
      else if state = observed then (writer_locked_bit OR (observed AND parked_bits), Rw_Held)
      else (state, Rw_Out))"

fun rw_next :: "futex_value \<Rightarrow> futex_value \<Rightarrow> rw_pc \<Rightarrow> (futex_value \<times> rw_pc) list" where
  "rw_next blocking state Ro_Load = [(state, Ro_Eval state)]"
| "rw_next blocking state (Ro_Eval observed) = acquire_ro_core blocking state observed"
| "rw_next blocking state Ro_Held = [release_ro state]"
| "rw_next blocking state Try_Ro = [(state, Try_Ro_Cas state)]"
| "rw_next blocking state (Try_Ro_Cas observed) = [try_acquire_ro_core blocking state observed]"
| "rw_next blocking state Rw_Load = [(state, Rw_Eval state)]"
| "rw_next blocking state (Rw_Eval observed) = acquire_rw state observed"
| "rw_next blocking state Rw_Held = [release_rw state]"
| "rw_next blocking state Try_Rw = [(state, Try_Rw_Cas state)]"
| "rw_next blocking state (Try_Rw_Cas observed) = [try_acquire_rw state observed]"
| "rw_next blocking state _ = []"

section \<open>The system\<close>

record rw_sys =
  rw_state :: futex_value
  rw_pcs :: "tid \<Rightarrow> rw_pc"

definition rw_init :: "rw_sys \<Rightarrow> bool" where
  "rw_init s \<longleftrightarrow> rw_state s = 0 \<and> rw_pcs s = (\<lambda>_. Rw_Out)"

definition rw_parked :: "nat \<Rightarrow> (tid \<Rightarrow> rw_pc) \<Rightarrow> parked" where
  "rw_parked n p = (\<lambda>t. if t < n then (case p t of Ro_Parked \<Rightarrow> Some reader_wait_bits
     | Rw_Parked \<Rightarrow> Some writer_wait_bits | _ \<Rightarrow> None) else None)"

fun resume :: "rw_pc \<Rightarrow> rw_pc" where
  "resume Ro_Parked = Ro_Load" | "resume Rw_Parked = Rw_Load" | "resume p = p"

definition resume_all :: "tid set \<Rightarrow> (tid \<Rightarrow> rw_pc) \<Rightarrow> (tid \<Rightarrow> rw_pc)" where
  "resume_all T p = (\<lambda>t. if t \<in> T then resume (p t) else p t)"

inductive rw_step ::
  "(futex_value \<Rightarrow> parked \<Rightarrow> tid set \<Rightarrow> bool) \<Rightarrow> futex_value \<Rightarrow> nat \<Rightarrow> rw_sys \<Rightarrow> rw_sys \<Rightarrow> bool"
  for wake_all blocking n where
  call: "t < n \<Longrightarrow> rw_pcs s t = Rw_Out \<Longrightarrow> p \<in> {Ro_Load, Rw_Load, Try_Ro, Try_Rw} \<Longrightarrow>
    rw_step wake_all blocking n s (s\<lparr>rw_pcs := (rw_pcs s)(t := p)\<rparr>)"
| act: "t < n \<Longrightarrow> (w, p) \<in> set (rw_next blocking (rw_state s) (rw_pcs s t)) \<Longrightarrow>
    rw_step wake_all blocking n s (s\<lparr>rw_state := w, rw_pcs := (rw_pcs s)(t := p)\<rparr>)"
| spurious: "t < n \<Longrightarrow> rw_pcs s t \<in> {Ro_Parked, Rw_Parked} \<Longrightarrow>
    rw_step wake_all blocking n s (s\<lparr>rw_pcs := (rw_pcs s)(t := resume (rw_pcs s t))\<rparr>)"
| wake_writers: "t < n \<Longrightarrow> rw_pcs s t = Ro_Wake \<Longrightarrow>
    wake_all writer_wait_bits (rw_parked n (rw_pcs s)) woken \<Longrightarrow>
    rw_step wake_all blocking n s (s\<lparr>rw_pcs := (resume_all woken (rw_pcs s))(t := Rw_Out)\<rparr>)"
| wake_either: "t < n \<Longrightarrow> rw_pcs s t = Rw_Wake \<Longrightarrow>
    wake_all either_wait_bits (rw_parked n (rw_pcs s)) woken \<Longrightarrow>
    rw_step wake_all blocking n s (s\<lparr>rw_pcs := (resume_all woken (rw_pcs s))(t := Rw_Out)\<rparr>)"

section \<open>Reading the word\<close>

definition locked :: "futex_value \<Rightarrow> bool" where
  "locked w \<longleftrightarrow> bit w 31"

definition waiting :: "futex_value \<Rightarrow> bool" where
  "waiting w \<longleftrightarrow> bit w 30"

definition announced :: "futex_value \<Rightarrow> bool" where
  "announced w \<longleftrightarrow> bit w 29"

definition readers :: "futex_value \<Rightarrow> nat" where
  "readers w = unat w mod 2 ^ 29"

lemma and_bit_0: "w AND push_bit k 1 = 0 \<longleftrightarrow> \<not> bit w k" for w :: futex_value
  by (simp add: push_bit_of_1 and_exp_eq_0_iff_not_bit)

lemma and_locked [simp]: "w AND writer_locked_bit = 0 \<longleftrightarrow> \<not> locked w"
  by (simp only: writer_locked_bit_def and_bit_0 locked_def)

lemma and_waiting [simp]: "w AND writer_waiting_bit = 0 \<longleftrightarrow> \<not> waiting w"
  by (simp only: writer_waiting_bit_def and_bit_0 waiting_def)

lemma and_announced [simp]: "w AND reader_parked_bit = 0 \<longleftrightarrow> \<not> announced w"
  by (simp only: reader_parked_bit_def and_bit_0 announced_def)

lemma and_or_0: "w AND (a OR b) = 0 \<longleftrightarrow> w AND a = 0 \<and> w AND b = 0" for w :: futex_value
  by (auto simp: bit_eq_iff bit_simps)

lemma reader_mask_mask: "reader_mask = mask 29"
  by (simp add: reader_mask_def reader_parked_bit_def mask_eq_exp_minus_1 push_bit_of_1)

lemma unat_and_mask: "unat (w AND reader_mask) = readers w"
  by (simp add: reader_mask_mask readers_def flip: take_bit_eq_mask)
    (simp add: take_bit_eq_mod unat_mod_eq)

lemma and_mask_0 [simp]: "w AND reader_mask = 0 \<longleftrightarrow> readers w = 0"
  using unat_and_mask [of w] by (metis unat_0 unsigned_eq_0_iff)

lemma and_mask_1 [simp]: "w AND reader_mask = 1 \<longleftrightarrow> readers w = 1"
  using unat_and_mask [of w] by (metis unat_1 word_unat_eq_iff)

lemma and_writer_preferring [simp]: "w AND writer_preferring = 0 \<longleftrightarrow> \<not> locked w \<and> \<not> waiting w"
  by (simp add: writer_preferring_def and_or_0)

lemma and_reader_preferring [simp]: "w AND reader_preferring = 0 \<longleftrightarrow> \<not> locked w"
  by (simp add: reader_preferring_def)

lemma and_parked_bits [simp]: "w AND parked_bits = 0 \<longleftrightarrow> \<not> waiting w \<and> \<not> announced w"
  by (simp add: parked_bits_def and_or_0)

lemma and_free [simp]: "w AND (reader_mask OR writer_locked_bit) = 0 \<longleftrightarrow> readers w = 0 \<and> \<not> locked w"
  by (simp add: and_or_0)

text \<open>The effect of each write.\<close>

lemma bit_high:
  fixes w :: futex_value
  assumes "29 \<le> k" "k < 32"
  shows "bit w k \<longleftrightarrow> odd (unat w div 2 ^ 29 div 2 ^ (k - 29))"
proof -
  from assms have "(2::nat) ^ k = 2 ^ 29 * 2 ^ (k - 29)" by (metis le_add_diff_inverse power_add)
  moreover have "bit (unat w) k \<longleftrightarrow> bit w k" by (simp add: bit_simps)
  then have "bit w k \<longleftrightarrow> odd (unat w div 2 ^ k)" by (simp only: bit_iff_odd [of "unat w"])
  ultimately show ?thesis by (simp only: div_mult2_eq)
qed

lemmas word_flags = locked_def waiting_def announced_def

lemma flags_by_high:
  assumes "unat v div 2 ^ 29 = unat w div 2 ^ 29"
  shows "locked v \<longleftrightarrow> locked w" "waiting v \<longleftrightarrow> waiting w" "announced v \<longleftrightarrow> announced w"
  using assms by (simp_all add: word_flags bit_high)

lemma succ_div: "x mod m < m - 1 \<Longrightarrow> (x + 1) div m = x div m" for x m :: nat
  by (auto simp: div_Suc mod_Suc)

lemma succ_mod: "x mod m < m - 1 \<Longrightarrow> (x + 1) mod m = x mod m + 1" for x m :: nat
  by (auto simp: mod_Suc)

lemma pred_mod: "0 < x mod m \<Longrightarrow> (x - 1) mod m = x mod m - 1" for x m :: nat
  by (cases x) (auto simp: mod_Suc split: if_splits)

lemma word_inc:
  assumes "readers w < 2 ^ 29 - 1"
  shows "locked (w + 1) \<longleftrightarrow> locked w" "waiting (w + 1) \<longleftrightarrow> waiting w"
    "announced (w + 1) \<longleftrightarrow> announced w" "readers (w + 1) = readers w + 1"
proof -
  have "unat w \<noteq> 2 ^ 32 - 1" using assms by (auto simp: readers_def)
  then have u: "unat (w + 1) = unat w + 1"
    using unat_lt2p [of w] by (subst unat_add_small) simp_all
  have "unat (w + 1) div 2 ^ 29 = unat w div 2 ^ 29"
    using assms unfolding u readers_def by (rule succ_div)
  note flags_by_high [OF this]
  then show "locked (w + 1) \<longleftrightarrow> locked w" "waiting (w + 1) \<longleftrightarrow> waiting w"
    "announced (w + 1) \<longleftrightarrow> announced w" by auto
  show "readers (w + 1) = readers w + 1"
    using assms unfolding readers_def u by (rule succ_mod)
qed

lemma word_dec:
  assumes "0 < readers w"
  shows "locked (w - 1) \<longleftrightarrow> locked w" "waiting (w - 1) \<longleftrightarrow> waiting w"
    "announced (w - 1) \<longleftrightarrow> announced w" "readers (w - 1) = readers w - 1"
proof -
  have "readers (w - 1) < 2 ^ 29 - 1"
  proof -
    have "w \<noteq> 0" using assms by (auto simp: readers_def)
    then have "unat (w - 1) = unat w - 1" by (simp add: unat_minus_one)
    then have "readers (w - 1) = readers w - 1"
      using assms unfolding readers_def by (simp only: pred_mod)
    moreover have "readers w < 2 ^ 29" by (simp add: readers_def)
    ultimately show ?thesis using assms by linarith
  qed
  from word_inc [OF this] show "locked (w - 1) \<longleftrightarrow> locked w" "waiting (w - 1) \<longleftrightarrow> waiting w"
    "announced (w - 1) \<longleftrightarrow> announced w" "readers (w - 1) = readers w - 1" by auto
qed

lemma readers_or_high:
  assumes "a AND mask 29 = 0"
  shows "readers (w OR a) = readers w"
proof -
  have "(w OR a) AND mask 29 = w AND mask 29"
    using assms by (simp add: and.commute [of _ "mask 29"] bit.conj_disj_distrib)
  then show ?thesis by (simp only: unat_and_mask [symmetric] reader_mask_mask)
qed

lemma word_announce_reader:
  "locked (w OR reader_parked_bit) \<longleftrightarrow> locked w" "waiting (w OR reader_parked_bit) \<longleftrightarrow> waiting w"
  "announced (w OR reader_parked_bit)" "readers (w OR reader_parked_bit) = readers w"
  by (simp_all add: word_flags reader_parked_bit_def bit_simps readers_or_high push_bit_of_1 mask_eq_exp_minus_1)

lemma word_announce_writer:
  "locked (w OR writer_waiting_bit) \<longleftrightarrow> locked w" "waiting (w OR writer_waiting_bit)"
  "announced (w OR writer_waiting_bit) \<longleftrightarrow> announced w" "readers (w OR writer_waiting_bit) = readers w"
  by (simp_all add: word_flags writer_waiting_bit_def bit_simps readers_or_high push_bit_of_1 mask_eq_exp_minus_1)

lemma word_take:
  "locked (writer_locked_bit OR (w AND parked_bits))"
  "waiting (writer_locked_bit OR (w AND parked_bits)) \<longleftrightarrow> waiting w"
  "announced (writer_locked_bit OR (w AND parked_bits)) \<longleftrightarrow> announced w"
  "readers (writer_locked_bit OR (w AND parked_bits)) = 0"
proof -
  let ?v = "writer_locked_bit OR (w AND parked_bits)"
  show "locked ?v" "waiting ?v \<longleftrightarrow> waiting w" "announced ?v \<longleftrightarrow> announced w"
    by (auto simp: word_flags writer_locked_bit_def parked_bits_def writer_waiting_bit_def
        reader_parked_bit_def bit_simps)
  have "?v AND mask 29 = 0"
    by (rule bit_eqI) (auto simp: writer_locked_bit_def parked_bits_def writer_waiting_bit_def
        reader_parked_bit_def bit_simps simp del: push_bit_numeral push_bit_of_1)
  then show "readers ?v = 0" by (metis and_mask_0 reader_mask_mask)
qed

lemma word_zero: "\<not> locked 0" "\<not> waiting 0" "\<not> announced 0" "readers 0 = 0"
  by (simp_all add: word_flags readers_def)

section \<open>The invariant\<close>

fun ro_hold :: "rw_pc \<Rightarrow> nat" where
  "ro_hold Ro_Held = 1" | "ro_hold _ = 0"

fun rw_hold :: "rw_pc \<Rightarrow> nat" where
  "rw_hold Rw_Held = 1" | "rw_hold _ = 0"

fun wakes_writers :: "rw_pc \<Rightarrow> bool" where
  "wakes_writers Ro_Wake = True" | "wakes_writers Rw_Wake = True" | "wakes_writers _ = False"

fun writer_loop :: "rw_pc \<Rightarrow> bool" where
  "writer_loop Rw_Load = True" | "writer_loop (Rw_Eval _) = True" | "writer_loop Rw_Parked = True"
| "writer_loop _ = False"

definition some :: "nat \<Rightarrow> (rw_pc \<Rightarrow> bool) \<Rightarrow> (tid \<Rightarrow> rw_pc) \<Rightarrow> bool" where
  "some n P pcs \<longleftrightarrow> (\<exists>t<n. P (pcs t))"

definition busy :: "futex_value \<Rightarrow> bool" where
  "busy w \<longleftrightarrow> locked w \<or> 0 < readers w"

definition blocked :: "futex_value \<Rightarrow> futex_value \<Rightarrow> bool" where
  "blocked blocking w \<longleftrightarrow> w AND blocking \<noteq> 0"

text \<open>
  \<open>holders\<close>: the word counts the holders, and never both kinds. \<open>writer_parks\<close>,
  \<open>reader_parks\<close>: whoever is parked has its announcement in a word that still excludes it, or a
  wake call for it is on its way. \<open>waiting_owned\<close>: a waiting bit on an unlocked word belongs to
  a writer still in its acquire loop.
\<close>

definition holders :: "nat \<Rightarrow> rw_sys \<Rightarrow> bool" where
  "holders n s \<longleftrightarrow> int (readers (rw_state s)) = weight n ro_hold (rw_pcs s) \<and>
     of_bool (locked (rw_state s)) = weight n rw_hold (rw_pcs s) \<and>
     (locked (rw_state s) \<longrightarrow> readers (rw_state s) = 0)"

definition writer_parks :: "nat \<Rightarrow> rw_sys \<Rightarrow> bool" where
  "writer_parks n s \<longleftrightarrow> (some n (\<lambda>p. p = Rw_Parked) (rw_pcs s) \<longrightarrow>
     waiting (rw_state s) \<and> busy (rw_state s) \<or> some n wakes_writers (rw_pcs s))"

definition reader_parks :: "futex_value \<Rightarrow> nat \<Rightarrow> rw_sys \<Rightarrow> bool" where
  "reader_parks blocking n s \<longleftrightarrow> (some n (\<lambda>p. p = Ro_Parked) (rw_pcs s) \<longrightarrow>
     announced (rw_state s) \<and> blocked blocking (rw_state s) \<or> some n (\<lambda>p. p = Rw_Wake) (rw_pcs s))"

definition waiting_owned :: "nat \<Rightarrow> rw_sys \<Rightarrow> bool" where
  "waiting_owned n s \<longleftrightarrow> (waiting (rw_state s) \<and> \<not> locked (rw_state s) \<longrightarrow>
     some n writer_loop (rw_pcs s))"

definition rw_inv :: "futex_value \<Rightarrow> nat \<Rightarrow> rw_sys \<Rightarrow> bool" where
  "rw_inv blocking n s \<longleftrightarrow> holders n s \<and> writer_parks n s \<and> reader_parks blocking n s \<and> waiting_owned n s"

lemma rw_init_inv: "rw_init s \<Longrightarrow> rw_inv blocking n s"
  by (simp add: rw_init_def rw_inv_def holders_def writer_parks_def reader_parks_def
      waiting_owned_def some_def word_zero weight_def total_weight_def)

lemma some_upd: "t < n \<Longrightarrow> some n P (pcs(t := p)) \<longleftrightarrow> P p \<or> (\<exists>u<n. u \<noteq> t \<and> P (pcs u))"
  by (auto simp: some_def)

lemma some_split: "t < n \<Longrightarrow> some n P pcs \<longleftrightarrow> P (pcs t) \<or> (\<exists>u<n. u \<noteq> t \<and> P (pcs u))"
  by (auto simp: some_def)

lemma ro_hold_le: "weight n ro_hold pcs \<le> int n"
proof (rule weight_le)
  show "ro_hold q \<le> 1" for q by (cases q) auto
qed

text \<open>A local step of thread \<open>t\<close>, from the word \<open>w\<close> to \<open>w'\<close>, reduced to \<open>t\<close>.\<close>

lemma rw_inv_local:
  assumes inv: "rw_inv blocking n s" and t: "t < n"
    and not_waking: "\<not> wakes_writers (rw_pcs s t)"
    and state': "rw_state s' = w'" and pcs': "rw_pcs s' = (rw_pcs s)(t := p')"
    and count: "int (readers w') =
        int (readers (rw_state s)) + int (ro_hold p') - int (ro_hold (rw_pcs s t))"
    and lock: "of_bool (locked w') =
        of_bool (locked (rw_state s)) + int (rw_hold p') - int (rw_hold (rw_pcs s t))"
    and excl: "locked w' \<Longrightarrow> readers w' = 0"
    and w1: "p' = Rw_Parked \<Longrightarrow> waiting w' \<and> busy w'"
    and w2: "waiting (rw_state s) \<Longrightarrow> busy (rw_state s) \<Longrightarrow> (waiting w' \<and> busy w') \<or> wakes_writers p'"
    and r1: "p' = Ro_Parked \<Longrightarrow> announced w' \<and> blocked blocking w'"
    and r2: "announced (rw_state s) \<Longrightarrow> blocked blocking (rw_state s) \<Longrightarrow>
        (announced w' \<and> blocked blocking w') \<or> p' = Rw_Wake"
    and q: "waiting w' \<Longrightarrow> \<not> locked w' \<Longrightarrow> writer_loop p' \<or>
        (waiting (rw_state s) \<and> \<not> locked (rw_state s) \<and> \<not> writer_loop (rw_pcs s t))"
  shows "rw_inv blocking n s'"
proof -
  from inv have i: "holders n s" "writer_parks n s" "reader_parks blocking n s" "waiting_owned n s"
    by (auto simp: rw_inv_def)
  have "holders n s'" using i(1) count lock excl
    by (simp add: holders_def state' pcs' weight_upd [OF t])
  moreover have "writer_parks n s'" using i(2) w1 w2 not_waking
    unfolding writer_parks_def state' pcs' some_upd [OF t] some_split [OF t, of _ "rw_pcs s"] by blast
  moreover have "reader_parks blocking n s'" using i(3) r1 r2 not_waking
    unfolding reader_parks_def state' pcs' some_upd [OF t] some_split [OF t, of _ "rw_pcs s"]
    by (metis wakes_writers.simps(2))
  moreover have "waiting_owned n s'" using i(4) q
    unfolding waiting_owned_def state' pcs' some_upd [OF t] some_split [OF t, of _ "rw_pcs s"] by blast
  ultimately show ?thesis by (simp add: rw_inv_def)
qed

section \<open>Every step keeps it\<close>

lemma blocked_policies [simp]:
  "blocked writer_preferring w \<longleftrightarrow> locked w \<or> waiting w"
  "blocked reader_preferring w \<longleftrightarrow> locked w"
  by (simp_all add: blocked_def)

definition policy :: "futex_value \<Rightarrow> bool" where
  "policy blocking \<longleftrightarrow> blocking = writer_preferring \<or> blocking = reader_preferring"

text \<open>What admits a reader: neither a writer in nor, for writer preference, one queued.\<close>

lemma rw_inv_admit_reader:
  assumes inv: "rw_inv blocking n s" and t: "t < n" and n: "n < 2 ^ 29" and pol: "policy blocking"
    and out: "ro_hold (rw_pcs s t) = 0" "rw_hold (rw_pcs s t) = 0" "\<not> wakes_writers (rw_pcs s t)"
      "\<not> writer_loop (rw_pcs s t)"
    and free: "rw_state s AND blocking = 0"
  shows "rw_inv blocking n (s\<lparr>rw_state := rw_state s + 1, rw_pcs := (rw_pcs s)(t := Ro_Held)\<rparr>)"
proof -
  have "weight n ro_hold ((rw_pcs s)(t := Ro_Held)) \<le> int n" by (rule ro_hold_le)
  moreover have "int (readers (rw_state s)) = weight n ro_hold (rw_pcs s)"
    using inv by (simp add: rw_inv_def holders_def)
  ultimately have "readers (rw_state s) < 2 ^ 29 - 1"
    using n out(1) by (simp add: weight_upd [OF t])
  note inc = word_inc [OF this]
  have "\<not> locked (rw_state s)" using free pol by (auto simp: policy_def)
  with free pol out show ?thesis
    by (intro rw_inv_local [OF inv t, where w' = "rw_state s + 1" and p' = Ro_Held])
      (auto simp: inc busy_def policy_def)
qed

lemma rw_inv_admit_writer:
  assumes inv: "rw_inv blocking n s" and t: "t < n" and pol: "policy blocking"
    and out: "ro_hold (rw_pcs s t) = 0" "rw_hold (rw_pcs s t) = 0" "\<not> wakes_writers (rw_pcs s t)"
    and free: "readers (rw_state s) = 0" "\<not> locked (rw_state s)"
  shows "rw_inv blocking n (s\<lparr>rw_state := writer_locked_bit OR (rw_state s AND parked_bits),
    rw_pcs := (rw_pcs s)(t := Rw_Held)\<rparr>)"
  using pol out free
  by (intro rw_inv_local [OF inv t, where p' = Rw_Held
        and w' = "writer_locked_bit OR (rw_state s AND parked_bits)"])
    (auto simp: word_take busy_def policy_def)

text \<open>Steps that leave the word alone and keep the thread away from every role.\<close>

lemma rw_inv_move:
  assumes inv: "rw_inv blocking n s" and t: "t < n"
    and out: "ro_hold (rw_pcs s t) = 0" "rw_hold (rw_pcs s t) = 0" "\<not> wakes_writers (rw_pcs s t)"
      "ro_hold p' = 0" "rw_hold p' = 0" "writer_loop (rw_pcs s t) \<Longrightarrow> writer_loop p'"
    and parks: "p' = Rw_Parked \<Longrightarrow> waiting (rw_state s) \<and> busy (rw_state s)"
      "p' = Ro_Parked \<Longrightarrow> announced (rw_state s) \<and> blocked blocking (rw_state s)"
  shows "rw_inv blocking n (s\<lparr>rw_pcs := (rw_pcs s)(t := p')\<rparr>)"
proof -
  have "locked (rw_state s) \<Longrightarrow> readers (rw_state s) = 0"
    using inv by (simp add: rw_inv_def holders_def)
  with out parks show ?thesis
    by (intro rw_inv_local [OF inv t, where w' = "rw_state s" and p' = p']) auto
qed

lemma rw_inv_announce:
  assumes inv: "rw_inv blocking n s" and t: "t < n" and pol: "policy blocking"
    and out: "ro_hold (rw_pcs s t) = 0" "rw_hold (rw_pcs s t) = 0" "\<not> wakes_writers (rw_pcs s t)"
  shows "writer_loop (rw_pcs s t) \<Longrightarrow> rw_inv blocking n (s\<lparr>rw_state := rw_state s OR writer_waiting_bit,
      rw_pcs := (rw_pcs s)(t := Rw_Eval w)\<rparr>)"
    and "\<not> writer_loop (rw_pcs s t) \<Longrightarrow> rw_inv blocking n (s\<lparr>rw_state := rw_state s OR reader_parked_bit,
      rw_pcs := (rw_pcs s)(t := Ro_Load)\<rparr>)"
proof -
  have excl: "locked (rw_state s) \<Longrightarrow> readers (rw_state s) = 0"
    using inv by (simp add: rw_inv_def holders_def)
  then show "writer_loop (rw_pcs s t) \<Longrightarrow> rw_inv blocking n (s\<lparr>rw_state := rw_state s OR writer_waiting_bit,
      rw_pcs := (rw_pcs s)(t := Rw_Eval w)\<rparr>)"
    using out pol
    by (intro rw_inv_local [OF inv t, where w' = "rw_state s OR writer_waiting_bit" and p' = "Rw_Eval w"])
      (auto simp: word_announce_writer busy_def policy_def)
  show "\<not> writer_loop (rw_pcs s t) \<Longrightarrow> rw_inv blocking n (s\<lparr>rw_state := rw_state s OR reader_parked_bit,
      rw_pcs := (rw_pcs s)(t := Ro_Load)\<rparr>)"
    using out pol excl
    by (intro rw_inv_local [OF inv t, where w' = "rw_state s OR reader_parked_bit" and p' = Ro_Load])
      (auto simp: word_announce_reader busy_def policy_def)
qed

lemma rw_inv_release_ro:
  assumes inv: "rw_inv blocking n s" and t: "t < n" and pol: "policy blocking" and p: "rw_pcs s t = Ro_Held"
    and rel: "release_ro (rw_state s) = (w, p')"
  shows "rw_inv blocking n (s\<lparr>rw_state := w, rw_pcs := (rw_pcs s)(t := p')\<rparr>)"
proof -
  have h: "int (readers (rw_state s)) = weight n ro_hold (rw_pcs s)"
    "locked (rw_state s) \<Longrightarrow> readers (rw_state s) = 0"
    using inv by (auto simp: rw_inv_def holders_def)
  have "0 < readers (rw_state s)" using weight_ge [OF t, of ro_hold "rw_pcs s"] h(1) p by simp
  note dec = word_dec [OF this] and r = this
  have w: "w = rw_state s - 1"
    and p': "p' = (if readers (rw_state s) = 1 \<and> waiting (rw_state s) then Ro_Wake else Rw_Out)"
    using rel by (auto simp: release_ro_def)
  have "\<not> locked (rw_state s)" using h(2) r by auto
  then show ?thesis using r p pol
    by (intro rw_inv_local [OF inv t, where w' = w and p' = p'])
      (auto simp: w p' dec busy_def policy_def split: if_splits)
qed

lemma rw_inv_release_rw:
  assumes inv: "rw_inv blocking n s" and t: "t < n" and p: "rw_pcs s t = Rw_Held"
    and rel: "release_rw (rw_state s) = (w, p')"
  shows "rw_inv blocking n (s\<lparr>rw_state := w, rw_pcs := (rw_pcs s)(t := p')\<rparr>)"
proof -
  have h: "of_bool (locked (rw_state s)) = weight n rw_hold (rw_pcs s)"
    "locked (rw_state s) \<longrightarrow> readers (rw_state s) = 0"
    using inv by (auto simp: rw_inv_def holders_def)
  have "locked (rw_state s)"
    using weight_ge [OF t, of rw_hold "rw_pcs s"] h(1) p by (cases "locked (rw_state s)") auto
  moreover have "w = 0" and p': "p' = (if waiting (rw_state s) \<or> announced (rw_state s) then Rw_Wake else Rw_Out)"
    using rel by (auto simp: release_rw_def)
  ultimately show ?thesis using p h(2)
    by (intro rw_inv_local [OF inv t, where w' = w and p' = p']) (auto simp: word_zero split: if_splits)
qed

lemma rw_inv_next:
  assumes inv: "rw_inv blocking n s" and t: "t < n" and n: "n < 2 ^ 29" and pol: "policy blocking"
    and nxt: "(w, p') \<in> set (rw_next blocking (rw_state s) (rw_pcs s t))"
  shows "rw_inv blocking n (s\<lparr>rw_state := w, rw_pcs := (rw_pcs s)(t := p')\<rparr>)"
proof -
  note move = rw_inv_move [OF inv t] and admit_ro = rw_inv_admit_reader [OF inv t n pol]
    and admit_rw = rw_inv_admit_writer [OF inv t pol] and announce = rw_inv_announce [OF inv t pol]
  have same: "s\<lparr>rw_state := rw_state s, rw_pcs := q\<rparr> = s\<lparr>rw_pcs := q\<rparr>" for q by simp
  show ?thesis
  proof (cases "rw_pcs s t")
    case (Ro_Eval observed)
    with nxt show ?thesis
      by (auto simp: same parks_def blocked_def split: if_splits intro!: move admit_ro announce(2))
  next
    case (Try_Ro_Cas observed)
    with nxt show ?thesis
      by (auto simp: same try_acquire_ro_core_def split: if_splits intro!: move admit_ro)
  next
    case (Rw_Eval observed)
    with nxt show ?thesis
      by (auto simp: same parks_def busy_def split: if_splits intro!: move admit_rw announce(1))
  next
    case (Try_Rw_Cas observed)
    with nxt show ?thesis
      by (auto simp: same try_acquire_rw_def split: if_splits intro!: move admit_rw)
  next
    case Ro_Held
    with nxt show ?thesis by (intro rw_inv_release_ro [OF inv t pol]) auto
  next
    case Rw_Held
    with nxt show ?thesis by (intro rw_inv_release_rw [OF inv t]) auto
  qed (use nxt in \<open>auto simp: same intro!: move\<close>)
qed

text \<open>A wake call: everyone it targets resumes.\<close>

lemma rw_inv_wake:
  assumes inv: "rw_inv blocking n s" and t: "t < n" and sub: "woken \<subseteq> dom (rw_parked n (rw_pcs s))"
    and which: "rw_pcs s t = Ro_Wake \<and> (\<forall>u<n. rw_pcs s u = Rw_Parked \<longrightarrow> u \<in> woken) \<or>
      rw_pcs s t = Rw_Wake \<and> (\<forall>u<n. rw_pcs s u \<in> {Ro_Parked, Rw_Parked} \<longrightarrow> u \<in> woken)"
  shows "rw_inv blocking n (s\<lparr>rw_pcs := (resume_all woken (rw_pcs s))(t := Rw_Out)\<rparr>)"
proof -
  let ?q = "(resume_all woken (rw_pcs s))(t := Rw_Out)"
  have r: "ro_hold (resume p) = ro_hold p" "rw_hold (resume p) = rw_hold p"
    "writer_loop (resume p) = writer_loop p" "wakes_writers (resume p) = wakes_writers p"
    "resume p = Rw_Wake \<longleftrightarrow> p = Rw_Wake" "resume p \<noteq> Rw_Parked" "resume p \<noteq> Ro_Parked" for p
    by (cases p; simp)+
  have at: "ro_hold (rw_pcs s t) = 0" "rw_hold (rw_pcs s t) = 0" "\<not> writer_loop (rw_pcs s t)"
    using which by auto
  have w: "weight n ro_hold ?q = weight n ro_hold (rw_pcs s)" "weight n rw_hold ?q = weight n rw_hold (rw_pcs s)"
    unfolding weight_def total_weight_def
    by (rule arg_cong [where f = int], rule sum.cong; auto simp: resume_all_def r at)+
  from inv have i: "holders n s" "writer_parks n s" "reader_parks blocking n s" "waiting_owned n s"
    by (auto simp: rw_inv_def)
  have "holders n (s\<lparr>rw_pcs := ?q\<rparr>)" using i(1) by (simp add: holders_def w)
  moreover have "writer_parks n (s\<lparr>rw_pcs := ?q\<rparr>)"
    using which by (auto simp: writer_parks_def some_def resume_all_def r)
  moreover have "reader_parks blocking n (s\<lparr>rw_pcs := ?q\<rparr>)"
  proof -
    have at_q: "?q u = (if u = t then Rw_Out else if u \<in> woken then resume (rw_pcs s u) else rw_pcs s u)" for u
      by (simp add: resume_all_def)
    have from_q: "some n (\<lambda>p. p = Ro_Parked) ?q \<Longrightarrow>
        some n (\<lambda>p. p = Ro_Parked) (rw_pcs s) \<and> rw_pcs s t = Ro_Wake"
      using which unfolding some_def at_q by (auto simp: r split: if_splits)
    have to_q: "some n (\<lambda>p. p = Rw_Wake) ?q"
      if wake: "some n (\<lambda>p. p = Rw_Wake) (rw_pcs s)" and "rw_pcs s t = Ro_Wake"
    proof -
      from wake obtain v where "v < n" "rw_pcs s v = Rw_Wake" by (auto simp: some_def)
      with \<open>rw_pcs s t = Ro_Wake\<close> have "v < n \<and> ?q v = Rw_Wake" by (auto simp: resume_all_def)
      then show ?thesis unfolding some_def by blast
    qed
    from i(3) from_q to_q show ?thesis by (auto simp: reader_parks_def)
  qed
  moreover have "waiting_owned n (s\<lparr>rw_pcs := ?q\<rparr>)"
    using i(4) at by (auto simp: waiting_owned_def some_def resume_all_def r)
  ultimately show ?thesis by (simp add: rw_inv_def)
qed

lemma listening_writers: "u < n \<Longrightarrow> p u = Rw_Parked \<Longrightarrow> u \<in> listening writer_wait_bits (rw_parked n p)"
  by (simp add: listening_def rw_parked_def writer_wait_bits_def)

lemma listening_either:
  "u < n \<Longrightarrow> p u \<in> {Ro_Parked, Rw_Parked} \<Longrightarrow> u \<in> listening either_wait_bits (rw_parked n p)"
  by (auto simp: listening_def rw_parked_def either_wait_bits_def reader_wait_bits_def writer_wait_bits_def)

lemma rw_inv_step:
  assumes inv: "rw_inv blocking n s" and step: "rw_step wake_all blocking n s s'"
    and n: "n < 2 ^ 29" and pol: "policy blocking" and wake: "wakes_targets wake_all"
  shows "rw_inv blocking n s'"
proof -
  have sub: "dom (rw_parked n p) \<subseteq> {..<n}" for p by (auto simp: rw_parked_def split: if_splits)
  then have fin: "finite (dom (rw_parked n p))" and card: "card (dom (rw_parked n p)) < 2 ^ 31" for p
    using n card_mono [OF _ sub, of p] by (auto intro: finite_subset)
  note targets = wakes_targetsD(2) [OF wake fin _ card] and parked = wakes_targetsD(1) [OF wake fin]
  from step show ?thesis
  proof cases
    case (call t p)
    then show ?thesis by (auto intro!: rw_inv_move [OF inv])
  next
    case (act t w p)
    then show ?thesis using rw_inv_next [OF inv _ n pol] by simp
  next
    case (spurious t)
    then show ?thesis by (auto intro!: rw_inv_move [OF inv])
  next
    case (wake_writers t woken)
    have "\<forall>u<n. rw_pcs s u = Rw_Parked \<longrightarrow> u \<in> woken"
      using targets [OF wake_writers(4)] listening_writers by blast
    with wake_writers(3) show ?thesis unfolding wake_writers(1)
      by (intro rw_inv_wake [OF inv wake_writers(2) parked [OF wake_writers(4)]]) simp
  next
    case (wake_either t woken)
    have "\<forall>u<n. rw_pcs s u \<in> {Ro_Parked, Rw_Parked} \<longrightarrow> u \<in> woken"
      using targets [OF wake_either(4)] listening_either by blast
    with wake_either(3) show ?thesis unfolding wake_either(1)
      by (intro rw_inv_wake [OF inv wake_either(2) parked [OF wake_either(4)]]) simp
  qed
qed

interpretation rw_machine: invariant_system rw_init "rw_step wake_all blocking n"
  "\<lambda>s. n < 2 ^ 29 \<and> policy blocking \<and> wakes_targets wake_all \<longrightarrow> rw_inv blocking n s"
  for wake_all blocking n
  by unfold_locales (auto intro: rw_init_inv rw_inv_step)

section \<open>What follows from the invariant\<close>

lemma rw_inv_exclusive:
  assumes inv: "rw_inv blocking n s" and t: "t < n" "rw_pcs s t = Rw_Held" and u: "u < n" "u \<noteq> t"
  shows "rw_pcs s u \<noteq> Rw_Held \<and> rw_pcs s u \<noteq> Ro_Held"
proof -
  from inv have h: "int (readers (rw_state s)) = weight n ro_hold (rw_pcs s)"
    "of_bool (locked (rw_state s)) = weight n rw_hold (rw_pcs s)"
    "locked (rw_state s) \<longrightarrow> readers (rw_state s) = 0"
    by (auto simp: rw_inv_def holders_def)
  have l: "locked (rw_state s)"
    using weight_ge [OF t(1), of rw_hold "rw_pcs s"] h(2) t(2) by (cases "locked (rw_state s)") auto
  with h have "total_weight n rw_hold (rw_pcs s) = 1" "weight n ro_hold (rw_pcs s) = 0"
    by (simp_all add: weight_def)
  moreover have "rw_hold (rw_pcs s t) + rw_hold (rw_pcs s u) \<le> total_weight n rw_hold (rw_pcs s)"
    using t u by (intro total_weight_ge2) auto
  moreover have "rw_hold (rw_pcs s t) = 1" by (simp add: t(2))
  ultimately have "rw_hold (rw_pcs s u) = 0" "ro_hold (rw_pcs s u) = 0"
    using u(1) weight_zero [of n ro_hold "rw_pcs s"] by (linarith, blast)
  then show ?thesis by (cases "rw_pcs s u") simp_all
qed

definition rw_settled :: "nat \<Rightarrow> rw_sys \<Rightarrow> bool" where
  "rw_settled n s \<longleftrightarrow> (\<forall>t<n. rw_pcs s t \<in> {Rw_Out, Ro_Parked, Rw_Parked})"

lemma rw_inv_settled:
  assumes inv: "rw_inv blocking n s" and pol: "policy blocking" and still: "rw_settled n s" and t: "t < n"
  shows "rw_pcs s t = Rw_Out"
proof -
  from inv have h: "int (readers (rw_state s)) = weight n ro_hold (rw_pcs s)"
    "of_bool (locked (rw_state s)) = weight n rw_hold (rw_pcs s)"
    and p: "writer_parks n s" "reader_parks blocking n s" "waiting_owned n s"
    by (auto simp: rw_inv_def holders_def)
  have "weight n ro_hold (rw_pcs s) = 0" "weight n rw_hold (rw_pcs s) = 0"
    using still by (auto simp: weight_zero rw_settled_def)
  with h have free: "readers (rw_state s) = 0" "\<not> locked (rw_state s)" by auto
  have no_wake: "\<not> some n wakes_writers (rw_pcs s)" "\<not> some n (\<lambda>p. p = Rw_Wake) (rw_pcs s)"
    using still by (auto simp: rw_settled_def some_def)
  have nw: "\<not> some n (\<lambda>p. p = Rw_Parked) (rw_pcs s)"
    using p(1) no_wake free by (auto simp: writer_parks_def busy_def)
  then have "\<not> some n writer_loop (rw_pcs s)"
    using still by (auto simp: rw_settled_def some_def)
  then have "\<not> waiting (rw_state s)" using p(3) free by (auto simp: waiting_owned_def)
  then have "\<not> some n (\<lambda>p. p = Ro_Parked) (rw_pcs s)"
    using p(2) no_wake free pol by (auto simp: reader_parks_def policy_def)
  with nw still t show ?thesis by (auto simp: rw_settled_def some_def)
qed

section \<open>A run\<close>

text \<open>Thread 0 takes the write lock; thread 1 finds it taken, announces itself and parks.\<close>

fun rw_run :: "futex_value \<Rightarrow> (tid \<times> (nat + rw_pc)) list \<Rightarrow> rw_sys \<Rightarrow> rw_sys option" where
  "rw_run blocking [] s = Some s"
| "rw_run blocking ((t, Inr p) # mvs) s =
     (if rw_pcs s t = Rw_Out \<and> p \<in> {Ro_Load, Rw_Load, Try_Ro, Try_Rw}
      then rw_run blocking mvs (s\<lparr>rw_pcs := (rw_pcs s)(t := p)\<rparr>) else None)"
| "rw_run blocking ((t, Inl i) # mvs) s =
     (if i < length (rw_next blocking (rw_state s) (rw_pcs s t))
      then case rw_next blocking (rw_state s) (rw_pcs s t) ! i of (w, p) \<Rightarrow>
        rw_run blocking mvs (s\<lparr>rw_state := w, rw_pcs := (rw_pcs s)(t := p)\<rparr>)
      else None)"

definition rw_start :: rw_sys where
  "rw_start = \<lparr>rw_state = 0, rw_pcs = (\<lambda>_. Rw_Out)\<rparr>"

lemma rw_run_reach:
  "rw_run blocking mvs s = Some s' \<Longrightarrow> \<forall>(t, m)\<in>set mvs. t < n \<Longrightarrow>
     reach rw_init (rw_step wake_all blocking n) s \<Longrightarrow> reach rw_init (rw_step wake_all blocking n) s'"
proof (induction blocking mvs s rule: rw_run.induct)
  case (2 blocking t p mvs s)
  then show ?case by (auto split: if_splits intro: reach.move rw_step.call)
next
  case (3 blocking t i mvs s)
  then obtain w p where wp: "rw_next blocking (rw_state s) (rw_pcs s t) ! i = (w, p)"
    "i < length (rw_next blocking (rw_state s) (rw_pcs s t))"
    by (auto split: if_splits prod.splits)
  then have "(w, p) \<in> set (rw_next blocking (rw_state s) (rw_pcs s t))" by (metis nth_mem)
  with 3 wp show ?case
    by (auto split: if_splits intro: reach.move rw_step.act)
qed simp

lemma rw_start_run:
  "rw_run blocking mvs rw_start = Some s \<Longrightarrow> \<forall>(t, m)\<in>set mvs. t < n \<Longrightarrow>
     reach rw_init (rw_step wake_all blocking n) s"
  by (erule rw_run_reach) (auto intro: reach.start simp: rw_start_def rw_init_def)

definition rw_demo :: rw_sys where
  "rw_demo = \<lparr>rw_state = writer_locked_bit OR reader_parked_bit,
     rw_pcs = (\<lambda>_. Rw_Out)(0 := Rw_Held, 1 := Ro_Parked)\<rparr>"

lemma rw_demo_run:
  "rw_run writer_preferring [(0, Inr Rw_Load), (0, Inl 0), (0, Inl 0), (1, Inr Ro_Load), (1, Inl 0),
     (1, Inl 0), (1, Inl 0), (1, Inl 0)] rw_start = Some rw_demo"
  by (simp add: rw_start_def rw_demo_def word_zero word_take word_announce_reader release_ro_def
      parks_def fun_upd_def writer_preferring_def writer_locked_bit_def reader_parked_bit_def
      writer_waiting_bit_def reader_mask_def parked_bits_def cong: if_cong)

lemma rw_demo_reach: "reach rw_init (rw_step wake_all writer_preferring 2) rw_demo"
  by (rule rw_start_run [OF rw_demo_run]) simp

text \<open>A reader holds; under reader preference the word admits the next reader.\<close>

lemma rw_inv_reader_in:
  assumes inv: "rw_inv blocking n s" and t: "t < n" "rw_pcs s t = Ro_Held"
  shows "\<not> locked (rw_state s) \<and> 0 < readers (rw_state s)"
  using inv weight_ge [OF t(1), of ro_hold "rw_pcs s"] t(2)
  by (auto simp: rw_inv_def holders_def)

definition rw_read_demo :: rw_sys where
  "rw_read_demo = \<lparr>rw_state = 1, rw_pcs = (\<lambda>_. Rw_Out)(0 := Ro_Held)\<rparr>"

lemma rw_read_demo_run:
  "rw_run reader_preferring [(0, Inr Ro_Load), (0, Inl 0), (0, Inl 0)] rw_start = Some rw_read_demo"
  by (simp add: rw_start_def rw_read_demo_def)

section \<open>Theorems\<close>

text \<open>Mutual exclusion of the futex reader-writer mutex, for both admission policies: while a
  thread holds the write lock no other thread holds either lock.\<close>

theorem rw_mutex_exclusive:
  assumes "reach rw_init (rw_step wake_all blocking n) s"
    and "n < 2 ^ 29" "policy blocking" "wakes_targets wake_all"
    and "t < n" "rw_pcs s t = Rw_Held" "u < n" "u \<noteq> t"
  shows "rw_pcs s u \<noteq> Rw_Held \<and> rw_pcs s u \<noteq> Ro_Held"
proof -
  have "rw_inv blocking n s" using rw_machine.inv_reach [OF assms(1)] assms(2-4) by blast
  then show ?thesis using assms(5-8) by (rule rw_inv_exclusive)
qed

theorem rw_mutex_exclusive_witness: "rw_pcs rw_demo 1 \<noteq> Rw_Held \<and> rw_pcs rw_demo 1 \<noteq> Ro_Held"
  by (rule rw_mutex_exclusive [OF rw_demo_reach [of "\<lambda>b. linux_futex (linux_wake_all b)"], of 0])
    (simp_all add: policy_def linux.wake_all_contract [OF linux_futex_spec] rw_demo_def)

text \<open>C9. The futex reader-writer mutex strands nobody: when every thread is outside or parked, no
  thread is parked, although the release paths skip the wake call when no announcement bit is set and
  wake only the category they target.\<close>

theorem rw_mutex_no_stranding:
  assumes "reach rw_init (rw_step wake_all blocking n) s"
    and "n < 2 ^ 29" "policy blocking" "wakes_targets wake_all"
    and "rw_settled n s" "t < n"
  shows "rw_pcs s t = Rw_Out"
proof -
  have "rw_inv blocking n s" using rw_machine.inv_reach [OF assms(1)] assms(2-4) by blast
  then show ?thesis using assms(3,5,6) by (rule rw_inv_settled)
qed

theorem rw_mutex_no_stranding_witness: "rw_pcs rw_start 0 = Rw_Out"
proof (rule rw_mutex_no_stranding)
  show "reach rw_init (rw_step (\<lambda>b. linux_futex (linux_wake_all b)) writer_preferring 2) rw_start"
    by (rule reach.start) (simp add: rw_start_def rw_init_def)
qed (simp_all add: policy_def linux.wake_all_contract [OF linux_futex_spec] rw_settled_def rw_start_def)

text \<open>Under reader preference a nested or further read never parks while a reader holds the lock:
  every outcome of \<open>acquire_ro_core\<close> on the current word is the hold or a retry, and the hold is one
  of them.\<close>

theorem rw_nested_read:
  assumes "reach rw_init (rw_step wake_all reader_preferring n) s"
    and "n < 2 ^ 29" "wakes_targets wake_all" "t < n" "rw_pcs s t = Ro_Held"
  shows "set (acquire_ro_core reader_preferring (rw_state s) (rw_state s)) =
    {(rw_state s + 1, Ro_Held), (rw_state s, Ro_Load)}"
proof -
  have "rw_inv reader_preferring n s"
    using rw_machine.inv_reach [OF assms(1)] assms(2,3) by (auto simp: policy_def)
  from rw_inv_reader_in [OF this assms(4,5)] show ?thesis by simp
qed

theorem rw_nested_read_witness:
  "set (acquire_ro_core reader_preferring (rw_state rw_read_demo) (rw_state rw_read_demo)) =
    {(2, Ro_Held), (1, Ro_Load)}"
proof -
  have "reach rw_init (rw_step (\<lambda>b. linux_futex (linux_wake_all b)) reader_preferring 2) rw_read_demo"
    by (rule rw_start_run [OF rw_read_demo_run]) simp
  from rw_nested_read [OF this, of 0] show ?thesis
    by (simp add: linux.wake_all_contract [OF linux_futex_spec] rw_read_demo_def)
qed

end
