(* ===== verification/Future.thy ===== *)
theory Future
  imports Prelude
begin

text \<open>
  The single-use promise/future pairs: threading/future.hpp (throws what the work threw) and
  threading/outcome_future.hpp (returns it as an outcome). Both are a slot with a completion
  semaphore and two owners. A work item's result is a sum: \<open>Inl\<close> what it threw, \<open>Inr\<close> its
  value. \<open>'e\<close> stands for what user code can throw.
\<close>

section \<open>The slots\<close>

datatype 'e exception_ptr = Broken_Promise | Thrown 'e

type_synonym ('v, 'e) result = "'e exception_ptr + 'v"

record ('v, 'e) future_state =
  exception :: "'e exception_ptr option"
  storage :: "'v option"
  has_value :: bool
  completed :: bool
  waited :: bool
  tokens :: nat                   \<comment> \<open>of the completion semaphore\<close>

definition future_state_new :: "('v, 'e) future_state" where
  "future_state_new = \<lparr>exception = None, storage = None, has_value = False, completed = False,
     waited = False, tokens = 0\<rparr>"

definition fs_set_value :: "'v \<Rightarrow> ('v, 'e) future_state \<Rightarrow> ('v, 'e) future_state" where
  "fs_set_value v s = s\<lparr>storage := Some v, has_value := True, completed := True, tokens := tokens s + 1\<rparr>"

definition fs_set_exception :: "'e exception_ptr \<Rightarrow> ('v, 'e) future_state \<Rightarrow> ('v, 'e) future_state" where
  "fs_set_exception p s = s\<lparr>exception := Some p, completed := True, tokens := tokens s + 1\<rparr>"

text \<open>\<open>None\<close>: the wait blocks.\<close>

definition fs_wait :: "('v, 'e) future_state \<Rightarrow> ('v, 'e) future_state option" where
  "fs_wait s = (if \<not> waited s
     then if 0 < tokens s then Some (s\<lparr>tokens := tokens s - 1, waited := True\<rparr>) else None
     else Some s)"

text \<open>The result of \<open>get\<close>, after its \<open>wait\<close>: rethrown, moved out of the storage, or neither.\<close>

definition fs_result :: "('v, 'e) future_state \<Rightarrow> ('v, 'e) result option" where
  "fs_result s = (case exception s of Some p \<Rightarrow> Some (Inl p)
     | None \<Rightarrow> if has_value s then map_option Inr (storage s) else None)"

text \<open>
  \<open>get\<close> moves the value out: the storage keeps what the value's move leaves behind, \<open>moved\<close>, a
  parameter because the type is the user's (for a plain number it is the number itself).
\<close>

definition fs_get :: "('v \<Rightarrow> 'v) \<Rightarrow> ('v, 'e) future_state \<Rightarrow> (('v, 'e) result \<times> ('v, 'e) future_state) option" where
  "fs_get moved s = (case fs_wait s of None \<Rightarrow> None
     | Some s' \<Rightarrow> map_option
         (\<lambda>r. (r, case r of Inl _ \<Rightarrow> s' | Inr _ \<Rightarrow> s'\<lparr>storage := map_option moved (storage s')\<rparr>)) (fs_result s'))"

record ('v, 'e) outcome_state =
  o_storage :: "('v, 'e) result option"
  o_completed :: bool
  o_waited :: bool
  o_tokens :: nat

definition outcome_state_new :: "('v, 'e) outcome_state" where
  "outcome_state_new = \<lparr>o_storage = None, o_completed = False, o_waited = False, o_tokens = 0\<rparr>"

definition os_set :: "('v, 'e) result \<Rightarrow> ('v, 'e) outcome_state \<Rightarrow> ('v, 'e) outcome_state" where
  "os_set r s = s\<lparr>o_storage := Some r, o_completed := True, o_tokens := o_tokens s + 1\<rparr>"

definition os_set_value :: "'v \<Rightarrow> ('v, 'e) outcome_state \<Rightarrow> ('v, 'e) outcome_state" where
  "os_set_value v = os_set (Inr v)"

definition os_set_exception :: "'e exception_ptr \<Rightarrow> ('v, 'e) outcome_state \<Rightarrow> ('v, 'e) outcome_state" where
  "os_set_exception p = os_set (Inl p)"

definition os_wait :: "('v, 'e) outcome_state \<Rightarrow> ('v, 'e) outcome_state option" where
  "os_wait s = (if \<not> o_waited s
     then if 0 < o_tokens s then Some (s\<lparr>o_tokens := o_tokens s - 1, o_waited := True\<rparr>) else None
     else Some s)"

text \<open>Here the whole outcome is moved, an exception included.\<close>

definition os_get :: "(('v, 'e) result \<Rightarrow> ('v, 'e) result) \<Rightarrow> ('v, 'e) outcome_state
    \<Rightarrow> (('v, 'e) result \<times> ('v, 'e) outcome_state) option" where
  "os_get moved s = (case os_wait s of None \<Rightarrow> None
     | Some s' \<Rightarrow> if o_completed s'
         then map_option (\<lambda>r. (r, s'\<lparr>o_storage := Some (moved r)\<rparr>)) (o_storage s') else None)"

section \<open>The promise\<close>

text \<open>
  \<open>run\<close> and \<open>abandon\<close> have the same text in both headers, over their slot's operations. The
  argument of \<open>run\<close> is what the work did.
\<close>

definition promise_run ::
  "('v \<Rightarrow> 's \<Rightarrow> 's) \<Rightarrow> ('e exception_ptr \<Rightarrow> 's \<Rightarrow> 's) \<Rightarrow> 'e + 'v \<Rightarrow> 's \<Rightarrow> 's" where
  "promise_run set_value set_exception work s =
     (case work of Inr v \<Rightarrow> set_value v s | Inl e \<Rightarrow> set_exception (Thrown e) s)"

definition promise_abandon ::
  "('e exception_ptr \<Rightarrow> 's \<Rightarrow> 's) \<Rightarrow> ('s \<Rightarrow> bool) \<Rightarrow> 's \<Rightarrow> 's" where
  "promise_abandon set_exception is_completed s =
     (if \<not> is_completed s then set_exception Broken_Promise s else s)"

text \<open>A promise's life as its slot sees it: run or not, then destroyed.\<close>

definition promise_life ::
  "('v \<Rightarrow> 's \<Rightarrow> 's) \<Rightarrow> ('e exception_ptr \<Rightarrow> 's \<Rightarrow> 's) \<Rightarrow> ('s \<Rightarrow> bool) \<Rightarrow> ('e + 'v) option \<Rightarrow> 's \<Rightarrow> 's"
where
  "promise_life set_value set_exception is_completed work s =
     promise_abandon set_exception is_completed
       (case work of None \<Rightarrow> s | Some w \<Rightarrow> promise_run set_value set_exception w s)"

definition expected :: "('e + 'v) option \<Rightarrow> ('v, 'e) result" where
  "expected work = (case work of None \<Rightarrow> Inl Broken_Promise | Some (Inl e) \<Rightarrow> Inl (Thrown e)
     | Some (Inr v) \<Rightarrow> Inr v)"

section \<open>The contract of a slot\<close>

text \<open>\<open>holds s r\<close>: the slot is completed and its storage is \<open>r\<close>; \<open>left r\<close> is what \<open>get\<close> leaves.\<close>

locale one_shot_slot =
  fixes fresh :: "'s \<Rightarrow> bool"
    and set_value :: "'v \<Rightarrow> 's \<Rightarrow> 's"
    and set_exception :: "'e exception_ptr \<Rightarrow> 's \<Rightarrow> 's"
    and is_completed :: "'s \<Rightarrow> bool"
    and wait_op :: "'s \<Rightarrow> 's option"
    and get_op :: "'s \<Rightarrow> (('v, 'e) result \<times> 's) option"
    and holds :: "'s \<Rightarrow> ('v, 'e) result \<Rightarrow> bool"
    and left :: "('v, 'e) result \<Rightarrow> ('v, 'e) result"
  assumes fresh_open: "fresh s \<Longrightarrow> \<not> is_completed s"
    and fresh_blocks: "fresh s \<Longrightarrow> wait_op s = None \<and> get_op s = None"
    and value_held: "fresh s \<Longrightarrow> holds (set_value v s) (Inr v)"
    and exception_held: "fresh s \<Longrightarrow> holds (set_exception p s) (Inl p)"
    and held_completed: "holds s r \<Longrightarrow> is_completed s"
    and held_wait: "holds s r \<Longrightarrow> \<exists>s'. wait_op s = Some s' \<and> holds s' r"
    and held_get: "holds s r \<Longrightarrow> \<exists>s'. get_op s = Some (r, s') \<and> holds s' (left r)"
begin

lemma run_held:
  assumes "fresh s"
  shows "holds (promise_run set_value set_exception work s) (expected (Some work))"
  using value_held [OF assms] exception_held [OF assms]
  by (cases work) (simp_all add: promise_run_def expected_def)

lemma drop_held: "fresh s \<Longrightarrow> holds (promise_abandon set_exception is_completed s) (expected None)"
  using fresh_open exception_held by (simp add: promise_abandon_def expected_def)

lemma abandon_held: "holds s r \<Longrightarrow> promise_abandon set_exception is_completed s = s"
  using held_completed by (simp add: promise_abandon_def)

lemma life_held:
  assumes "fresh s"
  shows "holds (promise_life set_value set_exception is_completed work s) (expected work)"
proof (cases work)
  case None
  then show ?thesis using drop_held [OF assms] by (simp add: promise_life_def)
next
  case (Some w)
  then show ?thesis using run_held [OF assms, of w] abandon_held by (simp add: promise_life_def)
qed

lemma life_delivers:
  assumes "fresh s"
  shows "\<exists>s' s''. get_op (promise_life set_value set_exception is_completed work s) = Some (expected work, s') \<and>
    get_op s' = Some (left (expected work), s'')"
  using life_held [OF assms] held_get by meson

end

definition future_fresh :: "('v, 'e) future_state \<Rightarrow> bool" where
  "future_fresh s \<longleftrightarrow> s = future_state_new"

definition outcome_fresh :: "('v, 'e) outcome_state \<Rightarrow> bool" where
  "outcome_fresh s \<longleftrightarrow> s = outcome_state_new"

definition fs_holds :: "('v, 'e) future_state \<Rightarrow> ('v, 'e) result \<Rightarrow> bool" where
  "fs_holds s r \<longleftrightarrow> completed s \<and> (waited s \<or> 0 < tokens s) \<and> fs_result s = Some r"

definition os_holds :: "('v, 'e) outcome_state \<Rightarrow> ('v, 'e) result \<Rightarrow> bool" where
  "os_holds s r \<longleftrightarrow> o_completed s \<and> (o_waited s \<or> 0 < o_tokens s) \<and> o_storage s = Some r"

lemmas future_slot_defs = future_fresh_def future_state_new_def fs_set_value_def fs_set_exception_def
  fs_wait_def fs_get_def fs_result_def fs_holds_def

lemmas outcome_slot_defs = outcome_fresh_def outcome_state_new_def os_set_def os_set_value_def
  os_set_exception_def os_wait_def os_get_def os_holds_def

interpretation future_slot: one_shot_slot
  future_fresh fs_set_value fs_set_exception completed fs_wait "fs_get moved" fs_holds "map_sum id moved" for moved
  by unfold_locales (auto simp: future_slot_defs split: option.splits if_splits)

interpretation outcome_slot: one_shot_slot
  outcome_fresh os_set_value os_set_exception o_completed os_wait "os_get moved" os_holds moved for moved
  by unfold_locales (auto simp: outcome_slot_defs)

section \<open>The two owners\<close>

text \<open>
  The promise's thread and the future's thread, one access to the slot per step. \<open>signal\<close> goes on
  reading the semaphore after it has made its token visible (\<open>P_Touch\<close>). Each side ends with
  \<open>release\<close>, the last of the two deletes the slot. \<open>did_set\<close> and \<open>did_get\<close> are histories: the result set and the first one read.
\<close>

datatype promise_pc = P_Hold | P_Touch | P_Completed | P_Release | P_Gone

datatype future_pc = F_Hold | F_Release | F_Gone

record ('s, 'r) life =
  slot :: 's
  owners :: "8 word"
  freed :: bool
  ppc :: promise_pc
  fpc :: future_pc
  did_set :: "'r option"
  did_get :: "'r option"

definition life_release :: "('s, 'r) life \<Rightarrow> ('s, 'r) life" where
  "life_release s = (if owners s = 1 then s\<lparr>owners := owners s - 1, freed := True\<rparr>
     else s\<lparr>owners := owners s - 1\<rparr>)"

definition life_init :: "('s \<Rightarrow> bool) \<Rightarrow> ('s, 'r) life \<Rightarrow> bool" where
  "life_init fresh s \<longleftrightarrow> fresh (slot s) \<and> owners s = 2 \<and> \<not> freed s \<and> ppc s = P_Hold \<and> fpc s = F_Hold
     \<and> did_set s = None \<and> did_get s = None"

inductive life_step :: "('v \<Rightarrow> 's \<Rightarrow> 's) \<Rightarrow> ('e exception_ptr \<Rightarrow> 's \<Rightarrow> 's) \<Rightarrow> ('s \<Rightarrow> bool)
    \<Rightarrow> ('s \<Rightarrow> 's option) \<Rightarrow> ('s \<Rightarrow> (('v, 'e) result \<times> 's) option)
    \<Rightarrow> ('s, ('v, 'e) result) life \<Rightarrow> ('s, ('v, 'e) result) life \<Rightarrow> bool"
  for set_value set_exception is_completed wait_op get_op where
  run: "ppc s = P_Hold \<Longrightarrow> life_step set_value set_exception is_completed wait_op get_op s
    (s\<lparr>slot := promise_run set_value set_exception work (slot s), ppc := P_Touch,
       did_set := Some (expected (Some work))\<rparr>)"
| drop: "ppc s = P_Hold \<Longrightarrow> life_step set_value set_exception is_completed wait_op get_op s
    (s\<lparr>slot := promise_abandon set_exception is_completed (slot s), ppc := P_Touch,
       did_set := Some (expected None)\<rparr>)"
| touch: "ppc s = P_Touch \<Longrightarrow> life_step set_value set_exception is_completed wait_op get_op s
    (s\<lparr>ppc := P_Completed\<rparr>)"
| destroy: "ppc s = P_Completed \<Longrightarrow> life_step set_value set_exception is_completed wait_op get_op s
    (s\<lparr>slot := promise_abandon set_exception is_completed (slot s), ppc := P_Release\<rparr>)"
| promise_release: "ppc s = P_Release \<Longrightarrow> life_step set_value set_exception is_completed wait_op get_op s
    (life_release s\<lparr>ppc := P_Gone\<rparr>)"
| get: "fpc s = F_Hold \<Longrightarrow> get_op (slot s) = Some (r, s') \<Longrightarrow>
    life_step set_value set_exception is_completed wait_op get_op s (s\<lparr>slot := s', did_get := (if did_get s = None then Some r else did_get s)\<rparr>)"
| wait: "fpc s = F_Hold \<Longrightarrow> wait_op (slot s) = Some s' \<Longrightarrow>
    life_step set_value set_exception is_completed wait_op get_op s (s\<lparr>slot := s', fpc := F_Release\<rparr>)"
| future_release: "fpc s = F_Release \<Longrightarrow> life_step set_value set_exception is_completed wait_op get_op s
    (life_release s\<lparr>fpc := F_Gone\<rparr>)"

definition life_inv :: "('s \<Rightarrow> bool) \<Rightarrow> ('s \<Rightarrow> 'r \<Rightarrow> bool) \<Rightarrow> ('s, 'r) life \<Rightarrow> bool" where
  "life_inv fresh holds s \<longleftrightarrow>
     owners s = of_bool (ppc s \<noteq> P_Gone) + of_bool (fpc s \<noteq> F_Gone) \<and>
     (freed s \<longleftrightarrow> ppc s = P_Gone \<and> fpc s = F_Gone) \<and>
     (if ppc s = P_Hold then fresh (slot s) \<and> did_set s = None \<and> did_get s = None \<and> fpc s = F_Hold
      else \<exists>r x. did_set s = Some r \<and> holds (slot s) x \<and> (did_get s = None \<longrightarrow> x = r) \<and> (did_get s = None \<or> did_get s = Some r))"

context one_shot_slot
begin

lemma life_inv_step:
  assumes inv: "life_inv fresh holds s"
    and step: "life_step set_value set_exception is_completed wait_op get_op s s'"
  shows "life_inv fresh holds s'"
  using step
proof cases
  case (run work)
  with inv run_held [of "slot s" work] show ?thesis by (simp add: life_inv_def)
next
  case drop
  with inv drop_held [of "slot s"] show ?thesis by (auto simp: life_inv_def)
next
  case touch
  with inv show ?thesis by (auto simp: life_inv_def)
next
  case destroy
  with inv abandon_held [of "slot s"] show ?thesis by (auto simp: life_inv_def)
next
  case promise_release
  with inv show ?thesis by (cases "fpc s") (auto simp: life_inv_def life_release_def)
next
  case (get r s'')
  with inv fresh_blocks [of "slot s"] held_get [of "slot s"]
  show ?thesis by (fastforce simp: life_inv_def split: if_splits)
next
  case (wait s'')
  with inv fresh_blocks [of "slot s"] held_wait [of "slot s"]
  show ?thesis by (fastforce simp: life_inv_def split: if_splits)
next
  case future_release
  with inv show ?thesis by (cases "ppc s") (auto simp: life_inv_def life_release_def)
qed

lemma life_inv_reach:
  assumes "reach (life_init fresh) (life_step set_value set_exception is_completed wait_op get_op) s"
  shows "life_inv fresh holds s"
  using assms
proof (induction rule: reach.induct)
  case (start s)
  then show ?case by (simp add: life_init_def life_inv_def)
next
  case (move s s')
  then show ?case using life_inv_step by blast
qed

lemma life_safe:
  assumes "reach (life_init fresh) (life_step set_value set_exception is_completed wait_op get_op) s"
  shows "(freed s \<longleftrightarrow> ppc s = P_Gone \<and> fpc s = F_Gone) \<and>
    (\<forall>r. did_get s = Some r \<longrightarrow> did_set s = Some r) \<and> (ppc s \<noteq> P_Hold \<longrightarrow> wait_op (slot s) \<noteq> None)"
  using life_inv_reach [OF assms] held_wait [of "slot s"] by (fastforce simp: life_inv_def split: if_splits)

end

section \<open>Theorems\<close>

text \<open>C31. Whatever the promise does before it dies, the future's first \<open>get\<close> returns that result: the
  work's value, what the work threw, or a broken promise; before completion \<open>wait\<close> blocks. A second
  \<open>get\<close> throws the same exception again, but returns what moving left of a value; of the outcome
  pair it returns what moving left of the outcome, so \<open>get\<close> is not idempotent as the headers say.\<close>

theorem future_delivers:
  "fs_wait future_state_new = None \<and> os_wait outcome_state_new = None \<and>
   (\<exists>s' s''. fs_get moved (promise_life fs_set_value fs_set_exception completed work future_state_new) =
       Some (expected work, s') \<and> fs_get moved s' = Some (map_sum id moved (expected work), s'')) \<and>
   (\<exists>s' s''. os_get moved_outcome (promise_life os_set_value os_set_exception o_completed work outcome_state_new) =
       Some (expected work, s') \<and> os_get moved_outcome s' = Some (moved_outcome (expected work), s''))"
  using future_slot.fresh_blocks [of future_state_new] outcome_slot.fresh_blocks [of outcome_state_new]
    future_slot.life_delivers [of future_state_new moved work]
    outcome_slot.life_delivers [of outcome_state_new moved_outcome work]
  by (auto simp: future_fresh_def outcome_fresh_def)

text \<open>C11. In any interleaving of the two sides the slot is deleted exactly when both are done with it,
  so that no access follows the deletion and none is leaked; the first result read is the result set; and once
  the promise has completed or died, the future's wait does not block.\<close>

theorem future_lifetime:
  assumes "reach (life_init future_fresh) (life_step fs_set_value fs_set_exception completed fs_wait (fs_get moved)) s"
  shows "(freed s \<longleftrightarrow> ppc s = P_Gone \<and> fpc s = F_Gone) \<and>
    (\<forall>r. did_get s = Some r \<longrightarrow> did_set s = Some r) \<and> (ppc s \<noteq> P_Hold \<longrightarrow> fs_wait (slot s) \<noteq> None)"
  using future_slot.life_safe [OF assms] .

definition future_demo :: "((nat, nat) future_state, (nat, nat) result) life" where
  "future_demo = \<lparr>slot = future_state_new, owners = 2, freed = False, ppc = P_Hold, fpc = F_Hold,
     did_set = None, did_get = None\<rparr>"

theorem future_lifetime_witness:
  "let s = future_demo\<lparr>slot := fs_set_value 7 future_state_new, ppc := P_Touch, did_set := Some (Inr 7)\<rparr>
   in \<not> freed s \<and> fs_wait (slot s) \<noteq> None"
proof -
  let ?st = "life_step fs_set_value fs_set_exception completed fs_wait (fs_get id)"
  let ?s = "future_demo\<lparr>slot := promise_run fs_set_value fs_set_exception (Inr 7) (slot future_demo),
    ppc := P_Touch, did_set := Some (expected (Some (Inr 7)))\<rparr>"
  have "reach (life_init future_fresh) ?st future_demo"
    by (rule reach.start) (simp add: life_init_def future_demo_def future_fresh_def)
  moreover have "?st future_demo ?s" by (rule life_step.run) (simp add: future_demo_def)
  ultimately have "reach (life_init future_fresh) ?st ?s" by (rule reach.move)
  from future_lifetime [OF this] show ?thesis
    by (simp add: future_demo_def promise_run_def expected_def)
qed

end
