(* ===== verification/SpreadPlan.thy ===== *)
theory SpreadPlan
  imports Prelude
begin

text \<open>
  How the generic backend splits a spread (impls/generic.cpp: \<open>dispatch_workers\<close>,
  \<open>spread_work\<close>): the parts, the caller's share, the slices for work stealing, the two ways of
  handing them out (per-worker queues, one bulk enqueue) and the arrivals and items they account
  for. \<open>'h\<close> is \<open>hardware_concurrency_t\<close>. What is executed by which thread is the subject of
  theories Shop and ShopRun; the pieces and their owners are the result here.
\<close>

section \<open>Slicing one part\<close>

definition spread_work_stealing_division_min :: "8 word" where
  "spread_work_stealing_division_min = 4"

definition spread_work_stealing_division_max :: "8 word" where
  "spread_work_stealing_division_max = 16"

definition slice_div :: "8 word \<Rightarrow> iterations_t \<Rightarrow> 8 word" where
  "slice_div stealing_division iterations_per_part =
     ucast (min (ucast stealing_division) (max iterations_per_part 1) :: iterations_t)"

text \<open>
  The inner loop of \<open>dispatch_workers\<close>. \<open>room\<close> is what is left of the array of \<open>slice_div\<close>
  elements; the source assumes that it never runs out, here that is the result \<open>None\<close>.
\<close>

fun part_slices :: "nat \<Rightarrow> iterations_t \<Rightarrow> iterations_t \<Rightarrow> iterations_t \<Rightarrow> iterations_t \<Rightarrow> piece list option"
where
  "part_slices room iter end_iteration slice_iter first_slice_extra_iter =
     (if iter < end_iteration
      then case room of 0 \<Rightarrow> None
        | Suc room' \<Rightarrow>
            let chunk_end = iter + first_slice_extra_iter + slice_iter
            in map_option ((#) (iter, chunk_end)) (part_slices room' chunk_end end_iteration slice_iter 0)
      else Some [])"

declare part_slices.simps [simp del]

section \<open>dispatch_workers\<close>

text \<open>\<open>parts_left\<close> is \<open>max_parts\<close> less \<open>work_part\<close>. The result: the next worker, the next
  iteration, and the slices enqueued to each worker.\<close>

fun dispatch_loop :: "8 word \<Rightarrow> iterations_t \<Rightarrow> iterations_t \<Rightarrow> iterations_t \<Rightarrow> nat \<Rightarrow> 32 word
    \<Rightarrow> 'h::len word \<Rightarrow> iterations_t \<Rightarrow> ('h word \<times> iterations_t \<times> ('h word \<times> piece list) list) option"
where
  "dispatch_loop sd iterations_per_part parts_with_extra iterations 0 work_part worker iteration =
     Some (worker, iteration, [])"
| "dispatch_loop sd iterations_per_part parts_with_extra iterations (Suc parts_left) work_part worker iteration =
     (if iteration \<noteq> iterations
      then let part = iterations_per_part + of_bool (work_part < parts_with_extra);
               end_iteration = iteration + part
           in case part_slices (unat sd) iteration end_iteration (part div ucast sd) (part mod ucast sd) of
                None \<Rightarrow> None
              | Some slices \<Rightarrow>
                  map_option (\<lambda>(w, i, rest). (w, i, (worker, slices) # rest))
                    (dispatch_loop sd iterations_per_part parts_with_extra iterations parts_left
                       (work_part + 1) (worker + 1) end_iteration)
      else Some (worker, iteration, []))"

definition dispatch_workers :: "8 word \<Rightarrow> 'h::len word \<Rightarrow> iterations_t \<Rightarrow> 'h word \<Rightarrow> iterations_t
    \<Rightarrow> iterations_t \<Rightarrow> iterations_t \<Rightarrow> ('h word \<times> iterations_t \<times> ('h word \<times> piece list) list) option"
where
  "dispatch_workers stealing_division worker_index iteration max_parts iterations_per_part parts_with_extra iterations =
     dispatch_loop (slice_div stealing_division iterations_per_part) iterations_per_part parts_with_extra
       iterations (unat max_parts) 0 worker_index iteration"

section \<open>The slices tile their part\<close>

lemma part_slices_even:
  assumes "0 < unat slice_iter"
    and "unat iter + d * unat slice_iter = unat end_iteration" and "d \<le> room"
  shows "\<exists>ps. part_slices room iter end_iteration slice_iter 0 = Some ps \<and> length ps = d \<and>
    tiles (unat iter) (as_nats ps) (unat end_iteration)"
  using assms
proof (induction d arbitrary: iter room)
  case 0
  then show ?case by (subst part_slices.simps) (simp add: word_less_nat_alt)
next
  case (Suc d)
  then obtain room' where room: "room = Suc room'" by (cases room) auto
  let ?e = "iter + slice_iter"
  have e: "unat ?e = unat iter + unat slice_iter"
    using Suc.prems(2) unat_lt2p [of end_iteration] by (subst unat_add_small) simp_all
  then have "unat ?e + d * unat slice_iter = unat end_iteration" using Suc.prems(2) by simp
  with Suc.IH [of ?e room'] Suc.prems room obtain ps where
    ps: "part_slices room' ?e end_iteration slice_iter 0 = Some ps" "length ps = d"
      "tiles (unat ?e) (as_nats ps) (unat end_iteration)" by auto
  have "iter < end_iteration" using Suc.prems by (simp add: word_less_nat_alt)
  with ps e Suc.prems(1) show ?case by (subst part_slices.simps) (simp add: room Let_def)
qed

lemma part_slices_tiles:
  assumes part: "0 < unat part" and sd: "0 < unat sd" "unat sd \<le> unat part"
    and e: "unat iter + unat part = unat end_iteration"
  shows "\<exists>ps. part_slices (unat sd) iter end_iteration (part div ucast sd) (part mod ucast (sd :: 8 word))
      = Some ps \<and> length ps = unat sd \<and> tiles (unat iter) (as_nats ps) (unat end_iteration)"
proof -
  let ?q = "part div ucast sd" and ?r = "part mod ucast sd"
  have sd32: "unat (ucast sd :: iterations_t) = unat sd" by (intro unat_ucast_widen) simp
  have q: "unat ?q = unat part div unat sd" and r: "unat ?r = unat part mod unat sd"
    by (simp_all only: word_nat sd32)
  have pos: "0 < unat ?q" using sd by (simp add: q div_greater_zero_iff)
  obtain m where m: "unat sd = Suc m" using sd(1) by (cases "unat sd") auto
  have sum: "unat part = unat ?r + unat ?q + m * unat ?q"
    using div_mult_mod_eq [of "unat part" "unat sd"] by (simp add: q r m algebra_simps)
  have lt: "unat iter + unat ?r + unat ?q < 2 ^ LENGTH(32)"
    using e sum unat_lt2p [of end_iteration] by linarith
  then have c1: "unat (iter + ?r) = unat iter + unat ?r" by (intro unat_add_small) linarith
  with lt have c: "unat (iter + ?r + ?q) = unat iter + unat ?r + unat ?q"
    by (subst unat_add_small) (simp_all only: c1)
  have "unat (iter + ?r + ?q) + m * unat ?q = unat end_iteration" using e sum c by linarith
  from part_slices_even [OF pos this order_refl] obtain ps where
    ps: "part_slices m (iter + ?r + ?q) end_iteration ?q 0 = Some ps" "length ps = m"
      "tiles (unat (iter + ?r + ?q)) (as_nats ps) (unat end_iteration)" by blast
  have "iter < end_iteration" using e part by (simp add: word_less_nat_alt)
  with ps have "part_slices (unat sd) iter end_iteration ?q ?r = Some ((iter, iter + ?r + ?q) # ps)"
    by (subst part_slices.simps) (simp add: m Let_def)
  moreover have "unat iter < unat (iter + ?r + ?q)" using c pos by linarith
  ultimately show ?thesis using ps by (simp add: m)
qed

lemma slice_div_range:
  assumes "spread_work_stealing_division_min \<le> sd" "sd \<le> spread_work_stealing_division_max"
  shows "0 < unat (slice_div sd ipp)" "unat (slice_div sd ipp) \<le> 16"
    "unat (slice_div sd ipp) \<le> max (unat ipp) 1"
proof -
  have w: "unat (ucast sd :: iterations_t) = unat sd" by (intro unat_ucast_widen) simp
  have b: "4 \<le> unat sd" "unat sd \<le> 16"
    using assms by (simp_all add: spread_work_stealing_division_min_def
        spread_work_stealing_division_max_def word_le_nat_alt)
  have m: "unat (min (ucast sd) (max ipp 1) :: iterations_t) = min (unat sd) (max (unat ipp) 1)"
    by (simp add: word_nat w)
  have "unat (slice_div sd ipp) = min (unat sd) (max (unat ipp) 1)"
    unfolding slice_div_def by (subst unat_ucast_small) (use b in \<open>simp_all only: m, simp_all\<close>)
  with b show "0 < unat (slice_div sd ipp)" "unat (slice_div sd ipp) \<le> 16"
    "unat (slice_div sd ipp) \<le> max (unat ipp) 1" by simp_all
qed

section \<open>The dispatched slices tile the dispatched range\<close>

text \<open>Where a dispatch of \<open>k\<close> parts from part \<open>wp\<close> at \<open>it\<close> ends.\<close>

definition dispatch_end :: "nat \<Rightarrow> nat \<Rightarrow> nat \<Rightarrow> nat \<Rightarrow> nat \<Rightarrow> nat" where
  "dispatch_end ipp extra k wp it = it + k * ipp + min k (extra - wp)"

lemma dispatch_end_Suc:
  "dispatch_end ipp extra (Suc k) wp it = dispatch_end ipp extra k (Suc wp) (it + ipp + of_bool (wp < extra))"
  by (auto simp: dispatch_end_def)

text \<open>The workers are consecutive, and each gets as many slices as the division says.\<close>

definition consecutive :: "'h::len word \<Rightarrow> nat \<Rightarrow> ('h word \<times> piece list) list \<Rightarrow> bool" where
  "consecutive worker d ws \<longleftrightarrow> (\<forall>i<length ws. fst (ws ! i) = worker + of_nat i \<and> length (snd (ws ! i)) = d)"

lemma consecutive_Cons:
  "length ps = d \<Longrightarrow> consecutive (worker + 1) d ws \<Longrightarrow> consecutive worker d ((worker, ps) # ws)"
  by (auto simp: consecutive_def nth_Cons split: nat.splits)

lemma dispatch_loop_tiles:
  fixes worker :: "'h::len word"
  assumes sd: "0 < unat sd" "unat sd \<le> max (unat ipp) 1"
    and room: "dispatch_end (unat ipp) (unat extra) k (unat wp) (unat it) \<le> unat iters"
    and full: "0 < unat ipp \<or> dispatch_end (unat ipp) (unat extra) k (unat wp) (unat it) = unat iters"
    and wp: "unat wp + k < 2 ^ 32"
  shows "\<exists>w' it' ws. dispatch_loop sd ipp extra iters k wp worker it = Some (w', it', ws) \<and>
    unat it' = dispatch_end (unat ipp) (unat extra) k (unat wp) (unat it) \<and>
    tiles (unat it) (as_nats (concat (map snd ws))) (unat it') \<and>
    length ws \<le> k \<and> (0 < unat ipp \<longrightarrow> length ws = k) \<and> consecutive worker (unat sd) ws \<and>
    w' = worker + of_nat (length ws)"
  using room full wp
proof (induction k arbitrary: wp worker it)
  case 0
  then show ?case by (simp add: dispatch_end_def consecutive_def)
next
  case (Suc k)
  show ?case
  proof (cases "it = iters")
    case True
    with Suc.prems have "unat ipp = 0 \<and> unat extra \<le> unat wp" by (auto simp: dispatch_end_def)
    with True show ?thesis by (simp add: dispatch_end_def consecutive_def)
  next
    case False
    let ?x = "of_bool (wp < extra) :: iterations_t" and ?part = "ipp + of_bool (wp < extra)"
    let ?e = "it + ?part"
    have wx: "unat wp < unat extra \<longleftrightarrow> wp < extra" by (simp add: word_less_nat_alt)
    note rest = dispatch_end_Suc [of "unat ipp" "unat extra" k "unat wp" "unat it"]
    have part_le: "unat it + (unat ipp + of_bool (wp < extra)) \<le> unat iters"
      using Suc.prems(1) unfolding rest by (simp add: dispatch_end_def wx)
    have iters: "unat iters < 2 ^ LENGTH(32)" using unat_lt2p [of iters] by simp
    have part: "unat ?part = unat ipp + of_bool (wp < extra)"
      using part_le iters by (subst unat_add_small) simp_all
    have e: "unat ?e = unat it + unat ?part"
    proof (rule unat_add_small)
      show "unat it + unat ?part < 2 ^ LENGTH(32)" unfolding part using part_le iters by linarith
    qed
    have pos: "0 < unat ?part"
    proof (cases "0 < unat ipp")
      case False
      with Suc.prems(2) have "unat it + min (Suc k) (unat extra - unat wp) = unat iters"
        by (auto simp: dispatch_end_def)
      moreover have "unat it \<noteq> unat iters" using \<open>it \<noteq> iters\<close> by (simp add: word_unat_eq_iff)
      ultimately have "unat wp < unat extra" by auto
      then show ?thesis using wx unfolding part by simp
    next
      case True
      then show ?thesis unfolding part by linarith
    qed
    have sd_part: "unat sd \<le> unat ?part" using sd(2) pos part by (auto simp: max_def split: if_splits)
    from part_slices_tiles [OF pos sd(1) sd_part e [symmetric]] obtain ps where
      ps: "part_slices (unat sd) it ?e (?part div ucast sd) (?part mod ucast sd) = Some ps"
        "length ps = unat sd" "tiles (unat it) (as_nats ps) (unat ?e)" by blast
    have wp1: "unat (wp + 1) = Suc (unat wp)" using Suc.prems(3) by (subst unat_add_small) simp_all
    have ends: "dispatch_end (unat ipp) (unat extra) k (unat (wp + 1)) (unat ?e)
        = dispatch_end (unat ipp) (unat extra) (Suc k) (unat wp) (unat it)"
      unfolding rest wp1 e part by (simp add: wx)
    let ?D = "dispatch_end (unat ipp) (unat extra) k (unat (wp + 1)) (unat ?e)"
    have p1: "?D \<le> unat iters" and p2: "0 < unat ipp \<or> ?D = unat iters"
      using Suc.prems(1,2) by (simp_all only: ends)
    have p3: "unat (wp + 1) + k < 2 ^ 32" using Suc.prems(3) by (simp add: wp1)
    obtain w' it' ws where IH: "dispatch_loop sd ipp extra iters k (wp + 1) (worker + 1) ?e = Some (w', it', ws)"
      "unat it' = dispatch_end (unat ipp) (unat extra) (Suc k) (unat wp) (unat it)"
      "tiles (unat ?e) (as_nats (concat (map snd ws))) (unat it')" "length ws \<le> k"
      "0 < unat ipp \<longrightarrow> length ws = k" "consecutive (worker + 1) (unat sd) ws"
      "w' = worker + 1 + of_nat (length ws)"
      using Suc.IH [OF p1 p2 p3, of "worker + 1"] unfolding ends by (elim exE conjE) (rule that)
    have "dispatch_loop sd ipp extra iters (Suc k) wp worker it = Some (w', it', (worker, ps) # ws)"
      using False ps(1) IH(1) by (simp add: Let_def add.assoc)
    moreover have "tiles (unat it) (as_nats (concat (map snd ((worker, ps) # ws)))) (unat it')"
      using ps(3) IH(3) by auto
    moreover have "consecutive worker (unat sd) ((worker, ps) # ws)"
      using consecutive_Cons [OF ps(2) IH(6)] .
    ultimately show ?thesis using IH(2,4,5,7) by (auto simp: add.assoc)
  qed
qed

section \<open>spread_work: the parts\<close>

text \<open>The build options and the run-time facts that choose a path.\<close>

record build =
  exact_worker_selection :: bool
  use_caller_thread :: bool
  parallelization_cost :: bool
  slow_thread_signals :: bool
  single_cpu_linux :: bool

record 'hc spread_context =
  worker_threads :: 'hc            \<comment> \<open>\<open>pool_.size()\<close>\<close>
  items_in_shop :: 'hc
  on_worker :: bool                \<comment> \<open>the caller is one of the pool's threads\<close>
  stealing_division :: "8 word"
  enqueue_ok :: bool               \<comment> \<open>the result of \<open>enqueue_bulk\<close>\<close>

definition number_of_workers :: "build \<Rightarrow> 'h::len word spread_context \<Rightarrow> 'h word" where
  "number_of_workers b c = of_nat (unat (worker_threads c) + of_bool (use_caller_thread b))"

definition free_workers :: "build \<Rightarrow> 'h::len word spread_context \<Rightarrow> 'h word" where
  "free_workers b c = of_int (max 0 (int (unat (number_of_workers b c)) - int (unat (items_in_shop c))))"

definition max_work_parts :: "build \<Rightarrow> 'h::len word spread_context \<Rightarrow> 'h word" where
  "max_work_parts b c = (if free_workers b c \<noteq> 0 then free_workers b c else worker_threads c)"

definition queue_and_wait :: "build \<Rightarrow> 'h::len word spread_context \<Rightarrow> bool" where
  "queue_and_wait b c \<longleftrightarrow> free_workers b c = 0"

definition caller_takes_part :: "build \<Rightarrow> 'h::len word spread_context \<Rightarrow> bool" where
  "caller_takes_part b c \<longleftrightarrow> use_caller_thread b \<and> \<not> queue_and_wait b c"

record 'hc spread_plan =
  work_parts :: 'hc
  dispatched_parts :: 'hc
  iterations_per_part :: iterations_t
  parts_with_extra :: iterations_t
  first_iteration :: iterations_t
  caller_end :: iterations_t

text \<open>A zero divisor is undefined in C++: the result is \<open>None\<close>.\<close>

definition plan_parts :: "iterations_t \<Rightarrow> iterations_t \<Rightarrow> 'h::len word \<Rightarrow> bool \<Rightarrow> 'h word spread_plan option"
where
  "plan_parts iterations parallelizable_iterations_count max_parts use_caller =
     (if parallelizable_iterations_count = 0 then None
      else let parallelizable_parts = max 1 (iterations div parallelizable_iterations_count);
               number_of_work_parts = (ucast (min parallelizable_parts (ucast max_parts)) :: 'h word)
           in if number_of_work_parts = 0 then None
              else let dispatched = of_int (max 0 (int (unat number_of_work_parts) - of_bool use_caller));
                       ipp = iterations div ucast number_of_work_parts;
                       extra = iterations mod ucast number_of_work_parts;
                       extra_iteration = (of_bool (use_caller \<and> extra \<noteq> 0) :: iterations_t);
                       c_end = (if use_caller then ipp + extra_iteration else 0)
                   in Some \<lparr>work_parts = number_of_work_parts, dispatched_parts = dispatched,
                        iterations_per_part = ipp, parts_with_extra = extra - extra_iteration,
                        first_iteration = c_end, caller_end = c_end\<rparr>)"

text \<open>The numbers of a plan: no part is empty, and caller and dispatch together make up the range.\<close>

definition sound_plan :: "nat \<Rightarrow> nat \<Rightarrow> bool \<Rightarrow> 'h::len word spread_plan \<Rightarrow> bool" where
  "sound_plan n max_parts use_caller p \<longleftrightarrow>
     1 \<le> unat (work_parts p) \<and> unat (work_parts p) \<le> max_parts \<and>
     unat (dispatched_parts p) = unat (work_parts p) - of_bool use_caller \<and>
     0 < unat (iterations_per_part p) \<and> unat (parts_with_extra p) \<le> unat (dispatched_parts p) \<and>
     (if use_caller then 0 < unat (caller_end p) else caller_end p = 0) \<and>
     first_iteration p = caller_end p \<and>
     unat (caller_end p) + unat (dispatched_parts p) * unat (iterations_per_part p)
       + unat (parts_with_extra p) = n"

lemma share_arith:
  fixes n p :: nat
  assumes "1 \<le> p" "p \<le> n"
  shows "n div p + of_bool (n mod p \<noteq> 0) + (p - 1) * (n div p) + (n mod p - of_bool (n mod p \<noteq> 0)) = n"
    and "n mod p - of_bool (n mod p \<noteq> 0) \<le> p - 1" and "0 < n div p"
    and "n div p + of_bool (n mod p \<noteq> 0) \<le> n"
proof -
  have d: "n = p * (n div p) + n mod p" by simp
  obtain q where q: "p = Suc q" using assms by (cases p) auto
  show "n div p + of_bool (n mod p \<noteq> 0) + (p - 1) * (n div p) + (n mod p - of_bool (n mod p \<noteq> 0)) = n"
    using d by (simp add: q)
  then show "n div p + of_bool (n mod p \<noteq> 0) \<le> n" by linarith
  have "n mod p < p" using assms by simp
  then show "n mod p - of_bool (n mod p \<noteq> 0) \<le> p - 1" by linarith
  show "0 < n div p" using assms by (simp add: div_greater_zero_iff)
qed

lemma sound_planI:
  assumes p: "unat (work_parts p) = m" "unat (dispatched_parts p) = m - of_bool u"
      "unat (iterations_per_part p) = n div m"
      "unat (parts_with_extra p) = n mod m - of_bool (u \<and> n mod m \<noteq> 0)"
      "unat (caller_end p) = (if u then n div m + of_bool (n mod m \<noteq> 0) else 0)"
      "first_iteration p = caller_end p"
    and m: "1 \<le> m" "m \<le> max_parts" "m \<le> n"
  shows "sound_plan n max_parts u p"
proof (cases u)
  case True
  then show ?thesis using p m share_arith [OF m(1,3)] by (simp add: sound_plan_def)
next
  case False
  have "n mod m \<le> m" "m * (n div m) + n mod m = n" using m(1) by (simp_all add: less_imp_le)
  then show ?thesis using False p m share_arith(3) [OF m(1,3)] by (simp add: sound_plan_def unat_eq_0)
qed

lemma max_diff_of_bool: "1 \<le> m \<Longrightarrow> max 0 (int m - of_bool u) = int (m - of_bool u)"
  by (cases u) auto

lemma plan_parts_sound:
  fixes max_parts :: "'h::len word"
  assumes n: "0 < unat n" and pic: "0 < unat pic" and mp: "0 < unat max_parts" and wide: "LENGTH('h) \<le> 32"
  shows "\<exists>p. plan_parts n pic max_parts use_caller = Some p \<and> sound_plan (unat n) (unat max_parts) use_caller p"
proof -
  let ?k = "min (max 1 (n div pic)) (ucast max_parts) :: iterations_t"
  let ?p = "ucast ?k :: 'h word"
  have mp32: "unat (ucast max_parts :: iterations_t) = unat max_parts"
    using wide by (intro unat_ucast_widen) simp
  have k: "unat ?k = min (max 1 (unat n div unat pic)) (unat max_parts)" by (simp add: word_nat mp32)
  have p: "unat ?p = unat ?k"
  proof (intro unat_ucast_small)
    show "unat ?k < 2 ^ LENGTH('h)" unfolding k using unat_lt2p [of max_parts] by linarith
  qed
  then have p_bounds: "1 \<le> unat ?p" "unat ?p \<le> unat max_parts" "unat ?p \<le> unat n"
    using n mp div_le_dividend [of "unat n" "unat pic"] unfolding p k by linarith+
  have p32: "unat (ucast ?p :: iterations_t) = unat ?p" using wide by (intro unat_ucast_widen) simp
  let ?ipp = "n div ucast ?p" and ?ex = "n mod ucast ?p"
  have ipp: "unat ?ipp = unat n div unat ?p" and ex: "unat ?ex = unat n mod unat ?p"
    by (simp_all only: word_nat p32)
  note sh = share_arith [OF p_bounds(1,3)]
  have d: "unat (of_int (max 0 (int (unat ?p) - of_bool use_caller)) :: 'h word) = unat ?p - of_bool use_caller"
  proof -
    have "max 0 (int (unat ?p) - of_bool use_caller) = int (unat ?p - of_bool use_caller)"
      using p_bounds(1) by (rule max_diff_of_bool)
    moreover have "unat ?p - of_bool use_caller < 2 ^ LENGTH('h)" using unat_lt2p [of ?p] by linarith
    ultimately show ?thesis by (simp only: of_int_of_nat_eq unat_of_nat_small)
  qed
  have nz: "?ex \<noteq> 0 \<longleftrightarrow> unat n mod unat ?p \<noteq> 0" unfolding ex [symmetric] by (simp add: unat_eq_0)
  let ?x = "of_bool (use_caller \<and> ?ex \<noteq> 0) :: iterations_t"
  have ux: "unat ?x = of_bool (use_caller \<and> unat n mod unat ?p \<noteq> 0)" using nz by simp
  have c: "unat (if use_caller then ?ipp + ?x else 0)
      = (if use_caller then unat n div unat ?p + of_bool (unat n mod unat ?p \<noteq> 0) else 0)"
  proof (cases use_caller)
    case True
    have "unat ?ipp + unat ?x = unat n div unat ?p + of_bool (unat n mod unat ?p \<noteq> 0)"
      unfolding ipp ux using True by (simp only: simp_thms)
    moreover from this have "unat ?ipp + unat ?x < 2 ^ LENGTH(32)"
      using sh(4) unat_lt2p [of n] by linarith
    ultimately show ?thesis using True by (simp only: unat_add_small if_True)
  qed (simp only: if_False unat_0)
  have e: "unat (?ex - ?x) = unat n mod unat ?p - of_bool (use_caller \<and> unat n mod unat ?p \<noteq> 0)"
  proof (subst unat_sub_le)
    show "unat ?x \<le> unat ?ex" unfolding ux ex by (simp only: of_bool_def) simp
  qed (simp only: ux ex)
  let ?plan = "\<lparr>work_parts = ?p, dispatched_parts = of_int (max 0 (int (unat ?p) - of_bool use_caller)),
      iterations_per_part = ?ipp, parts_with_extra = ?ex - ?x,
      first_iteration = (if use_caller then ?ipp + ?x else 0),
      caller_end = (if use_caller then ?ipp + ?x else 0)\<rparr>"
  have "plan_parts n pic max_parts use_caller = Some ?plan"
  proof -
    have "pic \<noteq> 0" using pic by auto
    moreover have "?p \<noteq> 0" using p_bounds(1) by (metis not_one_le_zero unat_0)
    ultimately show ?thesis by (simp only: plan_parts_def Let_def if_False)
  qed
  moreover have "sound_plan (unat n) (unat max_parts) use_caller ?plan"
    by (rule sound_planI [OF _ _ _ _ _ _ p_bounds]) (simp_all only: spread_plan.simps d ipp e c)
  ultimately show ?thesis by blast
qed

section \<open>spread_work: one bulk enqueue\<close>

text \<open>Slicing the parts of the shared queue, when no other work is in the shop.\<close>

definition bulk_slices :: "8 word \<Rightarrow> 'h::len word spread_plan \<Rightarrow> 'h word spread_plan" where
  "bulk_slices division p =
     (let s = slice_div division (iterations_per_part p)
      in p\<lparr>parts_with_extra := parts_with_extra p
               + (iterations_per_part p mod ucast s) * ucast (dispatched_parts p),
           iterations_per_part := iterations_per_part p div ucast s,
           dispatched_parts := dispatched_parts p * ucast s\<rparr>)"

fun bulk_loop :: "iterations_t \<Rightarrow> iterations_t \<Rightarrow> nat \<Rightarrow> 'h::len word \<Rightarrow> iterations_t \<Rightarrow> piece list" where
  "bulk_loop ipp extra 0 work_part iteration = []"
| "bulk_loop ipp extra (Suc parts_left) work_part iteration =
     (let end_iteration = iteration + ipp + of_bool (ucast work_part < extra)
      in (iteration, end_iteration) # bulk_loop ipp extra parts_left (work_part + 1) end_iteration)"

definition bulk_pieces :: "'h::len word spread_plan \<Rightarrow> piece list" where
  "bulk_pieces p = bulk_loop (iterations_per_part p) (parts_with_extra p) (unat (dispatched_parts p))
     (0 :: 'h word) (first_iteration p)"

lemma bulk_loop_tiles:
  fixes work_part :: "'h::len word"
  assumes "0 < unat ipp" "dispatch_end (unat ipp) (unat extra) k (unat work_part) (unat it) < 2 ^ 32"
    and "unat work_part + k < 2 ^ LENGTH('h)" and wide: "LENGTH('h) \<le> 32"
  shows "tiles (unat it) (as_nats (bulk_loop ipp extra k work_part it))
      (dispatch_end (unat ipp) (unat extra) k (unat work_part) (unat it))
    \<and> length (bulk_loop ipp extra k work_part it) = k"
  using assms(2,3)
proof (induction k arbitrary: work_part it)
  case 0
  then show ?case by (simp add: dispatch_end_def)
next
  case (Suc k)
  let ?b = "ucast work_part < extra" and ?e = "it + ipp + of_bool (ucast work_part < extra)"
  have w: "unat (ucast work_part :: iterations_t) = unat work_part"
    using wide by (intro unat_ucast_widen) simp
  then have b: "?b \<longleftrightarrow> unat work_part < unat extra" by (simp add: word_less_nat_alt)
  note rest = dispatch_end_Suc [of "unat ipp" "unat extra" k "unat work_part" "unat it"]
  have small: "unat it + unat ipp + of_bool ?b < 2 ^ LENGTH(32)"
    using Suc.prems(1) unfolding rest by (simp add: dispatch_end_def b)
  have i: "unat (it + ipp) = unat it + unat ipp" using small by (intro unat_add_small) linarith
  have "unat ?e = unat (it + ipp) + unat (of_bool ?b :: iterations_t)"
    using small by (intro unat_add_small) (simp only: i unat_of_bool)
  then have e: "unat ?e = unat it + unat ipp + of_bool (unat work_part < unat extra)"
    by (simp only: i unat_of_bool b)
  have wp: "unat (work_part + 1) = Suc (unat work_part)"
    using Suc.prems(2) by (subst unat_add_small) simp_all
  have "tiles (unat ?e) (as_nats (bulk_loop ipp extra k (work_part + 1) ?e))
      (dispatch_end (unat ipp) (unat extra) k (unat (work_part + 1)) (unat ?e))
    \<and> length (bulk_loop ipp extra k (work_part + 1) ?e) = k"
  proof (rule Suc.IH)
    show "dispatch_end (unat ipp) (unat extra) k (unat (work_part + 1)) (unat ?e) < 2 ^ 32"
      using Suc.prems(1) by (simp only: rest e wp)
    show "unat (work_part + 1) + k < 2 ^ LENGTH('h)" using Suc.prems(2) by (simp add: wp)
  qed
  moreover have "unat it < unat ?e" using assms(1) unfolding e by linarith
  ultimately show ?case by (simp add: Let_def rest e wp)
qed

section \<open>spread_work\<close>

record 'hc spread =
  caller_pieces :: "piece list"
  worker_pieces :: "('hc \<times> piece list) list"
  shared_pieces :: "piece list"
  arrivals :: "32 word"            \<comment> \<open>expected by the completion barrier, in all\<close>
  items_added :: 'hc               \<comment> \<open>to \<open>work_items_\<close>, in all\<close>
  spin_join :: bool
  succeeded :: bool

definition all_pieces :: "'hc spread \<Rightarrow> piece list" where
  "all_pieces s = caller_pieces s @ concat (map snd (worker_pieces s)) @ shared_pieces s"

definition caller_piece :: "iterations_t \<Rightarrow> piece list" where
  "caller_piece iterations = (if iterations \<noteq> 0 then [(0, iterations)] else [])"

definition caller_only :: "iterations_t \<Rightarrow> 'h::len word spread" where
  "caller_only iterations = \<lparr>caller_pieces = [(0, iterations)], worker_pieces = [], shared_pieces = [],
     arrivals = 1, items_added = 1, spin_join = False, succeeded = True\<rparr>"

text \<open>The non-HMP dispatch; each \<open>perform_caller_work\<close> adds one arrival and one item of its own.\<close>

definition spread_dispatch :: "build \<Rightarrow> 'h::len word spread_context \<Rightarrow> iterations_t \<Rightarrow> 'h word spread_plan
    \<Rightarrow> 'h word spread option" where
  "spread_dispatch b c iterations p =
     (if exact_worker_selection b \<and> \<not> slow_thread_signals b \<and> items_in_shop c = 0
      then map_option
        (\<lambda>(worker, iteration, ws).
           let caller = caller_piece (caller_end p); n = length (concat (map snd ws)) + length caller
           in \<lparr>caller_pieces = caller, worker_pieces = ws, shared_pieces = [], arrivals = of_nat n,
               items_added = of_nat n, spin_join = \<not> queue_and_wait b c, succeeded = True\<rparr>)
        (dispatch_workers (stealing_division c) 0 (first_iteration p) (dispatched_parts p)
           (iterations_per_part p) (parts_with_extra p) iterations)
      else if dispatched_parts p \<noteq> 0
      then let p' = (if items_in_shop c = 0 then bulk_slices (stealing_division c) p else p);
               pieces = bulk_pieces p';
               caller = caller_piece (if enqueue_ok c then caller_end p else iterations)
           in Some \<lparr>caller_pieces = caller, worker_pieces = [],
                shared_pieces = (if enqueue_ok c then pieces else []),
                arrivals = (if enqueue_ok c then ucast (dispatched_parts p') else 0) + of_nat (length caller),
                items_added = dispatched_parts p' + of_nat (length caller),
                spin_join = \<not> queue_and_wait b c, succeeded = enqueue_ok c\<rparr>
      else if use_caller_thread b
      then let caller = caller_piece (caller_end p)
           in Some \<lparr>caller_pieces = caller, worker_pieces = [], shared_pieces = [],
                arrivals = of_nat (length caller), items_added = of_nat (length caller),
                spin_join = \<not> queue_and_wait b c, succeeded = True\<rparr>
      else None)"

definition spread_work :: "build \<Rightarrow> 'h::len word spread_context \<Rightarrow> iterations_t \<Rightarrow> iterations_t
    \<Rightarrow> 'h word spread option" where
  "spread_work b c iterations parallelizable_iterations_count =
     (if iterations = 0
      then Some \<lparr>caller_pieces = [], worker_pieces = [], shared_pieces = [], arrivals = 0, items_added = 0,
             spin_join = False, succeeded = True\<rparr>
      else if items_in_shop c \<noteq> 0 \<and>
              (use_caller_thread b \<and> single_cpu_linux b \<and> worker_threads c = 0 \<or> on_worker c)
      then Some (caller_only iterations)
      else case plan_parts iterations
             (if parallelization_cost b then parallelizable_iterations_count else 1)
             (max_work_parts b c) (caller_takes_part b c) of
             None \<Rightarrow> None
           | Some p \<Rightarrow> spread_dispatch b c iterations p)"

text \<open>What \<open>work_items_\<close> keeps when every piece has run: each run piece is one \<open>work_completed\<close>.\<close>

definition items_left :: "'h::len word spread \<Rightarrow> 'h word" where
  "items_left s = items_added s - of_nat (length (all_pieces s))"

section \<open>Each path covers the range\<close>

lemma tiles_caller: "tiles 0 (as_nats (caller_piece c)) (unat c)"
  by (simp add: caller_piece_def unat_gt_0)

lemma length_caller: "length (caller_piece c) = of_bool (c \<noteq> 0)"
  by (simp add: caller_piece_def)

lemma bulk_slices_sound:
  fixes p :: "'h::len word spread_plan"
  assumes p: "sound_plan n mp u p" "n < 2 ^ 32"
    and sd: "spread_work_stealing_division_min \<le> sd" "sd \<le> spread_work_stealing_division_max"
    and fits: "unat (dispatched_parts p) * 16 < 2 ^ LENGTH('h)" and wide: "8 \<le> LENGTH('h)" "LENGTH('h) \<le> 32"
  shows "0 < unat (iterations_per_part (bulk_slices sd p))"
    and "unat (parts_with_extra (bulk_slices sd p)) \<le> unat (dispatched_parts (bulk_slices sd p))"
    and "unat (dispatched_parts (bulk_slices sd p))
      = unat (dispatched_parts p) * unat (slice_div sd (iterations_per_part p))"
    and "unat (caller_end p) + unat (dispatched_parts (bulk_slices sd p))
        * unat (iterations_per_part (bulk_slices sd p)) + unat (parts_with_extra (bulk_slices sd p)) = n"
proof -
  define s where "s = slice_div sd (iterations_per_part p)"
  define d i x c where "d = unat (dispatched_parts p)" and "i = unat (iterations_per_part p)"
    and "x = unat (parts_with_extra p)" and "c = unat (caller_end p)"
  from p have i: "0 < i" and x: "x \<le> d" and sum: "c + d * i + x = n"
    unfolding sound_plan_def d_def i_def x_def c_def by blast+
  have s: "0 < unat s" "unat s \<le> 16" "unat s \<le> i"
    using slice_div_range [OF sd, of "iterations_per_part p"] i by (simp_all add: s_def i_def)
  have s32: "unat (ucast s :: iterations_t) = unat s" by (intro unat_ucast_widen) simp
  have sh: "unat (ucast s :: 'h word) = unat s" using wide by (intro unat_ucast_widen) simp
  have d32: "unat (ucast (dispatched_parts p) :: iterations_t) = d"
    using wide unfolding d_def by (intro unat_ucast_widen) simp
  have ds: "d * unat s < 2 ^ LENGTH('h)"
    using mult_le_mono2 [OF s(2), of d] fits unfolding d_def by (rule le_less_trans)
  have D: "unat (dispatched_parts (bulk_slices sd p)) = d * unat s"
    using ds by (simp add: bulk_slices_def Let_def s_def [symmetric] d_def sh unat_mult_small)
  have I: "unat (iterations_per_part (bulk_slices sd p)) = i div unat s"
    by (simp add: bulk_slices_def Let_def s_def [symmetric] i_def word_nat s32)
  have di: "d * i = d * unat s * (i div unat s) + i mod unat s * d"
    using div_mult_mod_eq [of i "unat s"] by (metis add_mult_distrib2 mult.assoc mult.commute)
  have small: "x + i mod unat s * d < 2 ^ LENGTH(32)" using sum di p(2) by simp
  then have m: "unat ((iterations_per_part p mod ucast s) * ucast (dispatched_parts p)) = i mod unat s * d"
    by (subst unat_mult_small) (simp_all add: word_nat s32 d32 i_def [symmetric])
  have eq: "parts_with_extra (bulk_slices sd p) = parts_with_extra p
      + iterations_per_part p mod ucast s * ucast (dispatched_parts p)"
    by (simp add: bulk_slices_def Let_def s_def)
  have X: "unat (parts_with_extra (bulk_slices sd p)) = x + i mod unat s * d"
    using small unfolding eq by (subst unat_add_small) (simp_all only: m x_def [symmetric])
  show "0 < unat (iterations_per_part (bulk_slices sd p))" using s i by (simp add: I div_greater_zero_iff)
  show "unat (dispatched_parts (bulk_slices sd p))
      = unat (dispatched_parts p) * unat (slice_div sd (iterations_per_part p))"
    using D by (simp add: d_def s_def)
  have "i mod unat s * d \<le> (unat s - 1) * d"
    using s(1) by (intro mult_le_mono1) (metis Suc_pred' less_Suc_eq_le mod_less_divisor)
  moreover have "(unat s - 1) * d + d = d * unat s" using s(1) by (cases "unat s") auto
  ultimately show "unat (parts_with_extra (bulk_slices sd p)) \<le> unat (dispatched_parts (bulk_slices sd p))"
    using x unfolding X D by linarith
  show "unat (caller_end p) + unat (dispatched_parts (bulk_slices sd p))
        * unat (iterations_per_part (bulk_slices sd p)) + unat (parts_with_extra (bulk_slices sd p)) = n"
    using sum di unfolding D I X c_def by linarith
qed

lemma bulk_pieces_tile:
  fixes p :: "'h::len word spread_plan"
  assumes "0 < unat (iterations_per_part p)" "unat (parts_with_extra p) \<le> unat (dispatched_parts p)"
    and "unat (first_iteration p) + unat (dispatched_parts p) * unat (iterations_per_part p)
      + unat (parts_with_extra p) = n" and "n < 2 ^ 32" and "LENGTH('h) \<le> 32"
  shows "tiles (unat (first_iteration p)) (as_nats (bulk_pieces p)) n
    \<and> length (bulk_pieces p) = unat (dispatched_parts p)"
proof -
  have e: "dispatch_end (unat (iterations_per_part p)) (unat (parts_with_extra p))
      (unat (dispatched_parts p)) (unat (0 :: 'h word)) (unat (first_iteration p)) = n"
    using assms(2,3) by (simp add: dispatch_end_def)
  have "unat (0 :: 'h word) + unat (dispatched_parts p) < 2 ^ LENGTH('h)" by simp
  from bulk_loop_tiles [OF assms(1) _ this assms(5), of "parts_with_extra p" "first_iteration p"]
  show ?thesis using assms(4) unfolding e bulk_pieces_def by simp
qed

text \<open>The per-worker dispatch of a plan.\<close>

lemma dispatch_plan:
  fixes p :: "'h::len word spread_plan"
  assumes p: "sound_plan (unat n) mp u p" and sd: "spread_work_stealing_division_min \<le> sd"
      "sd \<le> spread_work_stealing_division_max" and wide: "LENGTH('h) \<le> 32"
  shows "\<exists>w ws. dispatch_workers sd 0 (first_iteration p) (dispatched_parts p) (iterations_per_part p)
      (parts_with_extra p) n = Some (w, n, ws) \<and>
    tiles (unat (caller_end p)) (as_nats (concat (map snd ws))) (unat n) \<and>
    length ws = unat (dispatched_parts p) \<and>
    consecutive 0 (unat (slice_div sd (iterations_per_part p))) ws"
proof -
  let ?D = "dispatch_end (unat (iterations_per_part p)) (unat (parts_with_extra p))
      (unat (dispatched_parts p)) (unat (0 :: 32 word)) (unat (first_iteration p))"
  from p have D: "?D = unat n" and ipp: "0 < unat (iterations_per_part p)"
    and first: "first_iteration p = caller_end p"
    by (auto simp: sound_plan_def dispatch_end_def)
  note s = slice_div_range [OF sd, of "iterations_per_part p"]
  have "unat (dispatched_parts p) < 2 ^ LENGTH('h)" by (rule unat_lt2p)
  also have "\<dots> \<le> (2::nat) ^ 32" using wide by (intro power_increasing) simp_all
  finally have small: "unat (0 :: 32 word) + unat (dispatched_parts p) < 2 ^ 32" by simp
  have "?D \<le> unat n" and "0 < unat (iterations_per_part p) \<or> ?D = unat n" using D ipp by simp_all
  from dispatch_loop_tiles [OF s(1) s(3) this small, of "0 :: 'h word"] obtain w it ws where
    r: "dispatch_workers sd (0 :: 'h word) (first_iteration p) (dispatched_parts p) (iterations_per_part p)
        (parts_with_extra p) n = Some (w, it, ws)" "unat it = unat n"
      "tiles (unat (first_iteration p)) (as_nats (concat (map snd ws))) (unat it)"
      "length ws = unat (dispatched_parts p)"
      "consecutive 0 (unat (slice_div sd (iterations_per_part p))) ws"
    unfolding dispatch_workers_def D using ipp by blast
  from r(2) have "it = n" by (simp add: word_unat_eq_iff)
  with r first show ?thesis by auto
qed

section \<open>spread_work as a whole\<close>

text \<open>
  The setting: the stealing division is within its limits, the count of workers fits
  \<open>hardware_concurrency_t\<close>, there is somebody to work, and, on the path that slices the shared
  queue, so does the number of slices.
\<close>

definition spread_setting :: "build \<Rightarrow> 'h::len word spread_context \<Rightarrow> iterations_t \<Rightarrow> bool" where
  "spread_setting b c parallelizable \<longleftrightarrow>
     8 \<le> LENGTH('h) \<and> LENGTH('h) \<le> 32 \<and> 0 < unat parallelizable \<and>
     spread_work_stealing_division_min \<le> stealing_division c \<and>
     stealing_division c \<le> spread_work_stealing_division_max \<and>
     unat (worker_threads c) + 1 < 2 ^ LENGTH('h) \<and>
     (worker_threads c \<noteq> 0 \<or> free_workers b c \<noteq> 0) \<and>
     (exact_worker_selection b \<and> \<not> slow_thread_signals b \<or> items_in_shop c \<noteq> 0 \<or>
        (unat (worker_threads c) + 1) * 16 < 2 ^ LENGTH('h))"

lemma max_work_parts_bounds:
  assumes "spread_setting b (c :: 'h::len word spread_context) pic"
  shows "0 < unat (max_work_parts b c)"
    and "unat (max_work_parts b c) \<le> unat (worker_threads c) + of_bool (use_caller_thread b)"
    and "items_in_shop c = 0 \<Longrightarrow> queue_and_wait b c \<Longrightarrow> worker_threads c = 0 \<and> \<not> use_caller_thread b"
proof -
  have n: "unat (number_of_workers b c) = unat (worker_threads c) + of_bool (use_caller_thread b)"
    using assms unfolding number_of_workers_def spread_setting_def
    by (intro unat_of_nat_small) (cases "use_caller_thread b"; simp)
  have f: "unat (free_workers b c) = unat (number_of_workers b c) - unat (items_in_shop c)"
  proof -
    have "max 0 (int (unat (number_of_workers b c)) - int (unat (items_in_shop c)))
        = int (unat (number_of_workers b c) - unat (items_in_shop c))" by linarith
    moreover have "unat (number_of_workers b c) - unat (items_in_shop c) < 2 ^ LENGTH('h)"
      using unat_lt2p [of "number_of_workers b c"] by linarith
    ultimately show ?thesis unfolding free_workers_def
      by (simp only: of_int_of_nat_eq unat_of_nat_small)
  qed
  show "0 < unat (max_work_parts b c)"
    using assms by (auto simp: max_work_parts_def spread_setting_def unat_gt_0)
  show "unat (max_work_parts b c) \<le> unat (worker_threads c) + of_bool (use_caller_thread b)"
    unfolding max_work_parts_def using f n by (cases "free_workers b c \<noteq> 0") simp_all
  assume "items_in_shop c = 0" "queue_and_wait b c"
  with f n have "unat (worker_threads c) + of_bool (use_caller_thread b) = 0"
    by (simp add: queue_and_wait_def)
  then show "worker_threads c = 0 \<and> \<not> use_caller_thread b" by (auto simp: unat_eq_0)
qed

definition spread_covers :: "nat \<Rightarrow> 'h::len word spread_context \<Rightarrow> 'h word spread \<Rightarrow> bool" where
  "spread_covers n c s \<longleftrightarrow>
     tiles 0 (as_nats (caller_pieces s) @ as_nats (concat (map snd (worker_pieces s)))
       @ as_nats (shared_pieces s)) n \<and>
     arrivals s = of_nat (length (all_pieces s)) \<and>
     (succeeded s \<longrightarrow> items_left s = 0) \<and>
     (\<forall>i<length (worker_pieces s). fst (worker_pieces s ! i) = of_nat i) \<and>
     length (worker_pieces s) \<le> unat (worker_threads c)"

lemma spread_dispatch_covers:
  fixes c :: "'h::len word spread_context"
  assumes set: "spread_setting b c pic"
    and p: "sound_plan (unat n) (unat (max_work_parts b c)) (caller_takes_part b c) p"
    and n: "0 < unat n"
  shows "\<exists>s. spread_dispatch b c n p = Some s \<and> spread_covers (unat n) c s"
proof -
  from set have wide: "8 \<le> LENGTH('h)" "LENGTH('h) \<le> 32" and sd:
    "spread_work_stealing_division_min \<le> stealing_division c"
    "stealing_division c \<le> spread_work_stealing_division_max"
    by (auto simp: spread_setting_def)
  note mwp = max_work_parts_bounds [OF set]
  from p have d: "unat (dispatched_parts p) \<le> unat (max_work_parts b c) - of_bool (caller_takes_part b c)"
    and first: "first_iteration p = caller_end p"
    and sum: "unat (caller_end p) + unat (dispatched_parts p) * unat (iterations_per_part p)
      + unat (parts_with_extra p) = unat n"
    and ipp: "0 < unat (iterations_per_part p)" and ex: "unat (parts_with_extra p) \<le> unat (dispatched_parts p)"
    unfolding sound_plan_def by linarith+
  show ?thesis
  proof (cases "exact_worker_selection b \<and> \<not> slow_thread_signals b \<and> items_in_shop c = 0")
    case True
    from dispatch_plan [OF p sd wide(2)] obtain w ws where
      r: "dispatch_workers (stealing_division c) 0 (first_iteration p) (dispatched_parts p)
          (iterations_per_part p) (parts_with_extra p) n = Some (w, n, ws)"
        "tiles (unat (caller_end p)) (as_nats (concat (map snd ws))) (unat n)"
        "length ws = unat (dispatched_parts p)"
        "consecutive 0 (unat (slice_div (stealing_division c) (iterations_per_part p))) ws" by blast
    have "length ws \<le> unat (worker_threads c)"
      using d mwp(2,3) True r(3) by (cases "queue_and_wait b c") (auto simp: caller_takes_part_def)
    moreover have "tiles 0 (as_nats (caller_piece (caller_end p)) @ as_nats (concat (map snd ws))) (unat n)"
      using tiles_appendI [OF tiles_caller r(2)] .
    ultimately show ?thesis using True r(1,4)
      by (simp add: spread_dispatch_def Let_def spread_covers_def all_pieces_def items_left_def
          consecutive_def add.commute)
  next
    case shared: False
    show ?thesis
    proof (cases "dispatched_parts p = 0")
      case True
      then have "parts_with_extra p = 0" using ex by (simp add: unat_eq_0)
      with True sum have "caller_end p = n" by (simp add: word_unat_eq_iff)
      moreover from this have "use_caller_thread b"
        using p n by (auto simp: sound_plan_def caller_takes_part_def split: if_splits)
      moreover have "\<not> (exact_worker_selection b \<and> \<not> slow_thread_signals b \<and> items_in_shop c = 0)"
        by (rule shared)
      ultimately show ?thesis using True tiles_caller [of n]
        by (auto simp: spread_dispatch_def Let_def spread_covers_def all_pieces_def items_left_def)
    next
      case False
      let ?p = "if items_in_shop c = 0 then bulk_slices (stealing_division c) p else p"
      have small: "unat n < 2 ^ 32" using unat_lt2p [of n] by simp
      have fits: "unat (dispatched_parts p) * 16 < 2 ^ LENGTH('h)" if "items_in_shop c = 0"
      proof -
        have "(unat (worker_threads c) + 1) * 16 < 2 ^ LENGTH('h)"
          using set shared that by (auto simp: spread_setting_def)
        moreover have "unat (dispatched_parts p) \<le> unat (worker_threads c) + 1"
          using d mwp(2) by (cases "use_caller_thread b") auto
        ultimately show ?thesis using mult_le_mono1 le_less_trans by blast
      qed
      have fst_p: "first_iteration ?p = caller_end p"
        using first by (simp add: bulk_slices_def Let_def)
      have tl: "tiles (unat (first_iteration ?p)) (as_nats (bulk_pieces ?p)) (unat n)
          \<and> length (bulk_pieces ?p) = unat (dispatched_parts ?p)"
      proof (cases "items_in_shop c = 0")
        case True
        note bs = bulk_slices_sound [OF p small sd fits [OF True] wide]
        show ?thesis
          by (rule bulk_pieces_tile [OF _ _ _ small wide(2)])
            (use bs fst_p True in simp_all)
      next
        case False
        then show ?thesis using ipp ex sum first
          by (intro bulk_pieces_tile [OF _ _ _ small wide(2)]) simp_all
      qed
      have t: "tiles 0 (as_nats (caller_piece (caller_end p)) @ as_nats (bulk_pieces ?p)) (unat n)"
        using tl fst_p by (intro tiles_appendI [OF tiles_caller]) simp
      have arr: "(ucast (dispatched_parts ?p) :: 32 word) = of_nat (length (bulk_pieces ?p))"
        using conjunct2 [OF tl] by (simp only: of_nat_unat)
      have it: "dispatched_parts ?p = of_nat (length (bulk_pieces ?p))"
        using conjunct2 [OF tl] by (simp only: of_nat_unat ucast_id)
      show ?thesis
      proof (cases "enqueue_ok c")
        case True
        with shared False t show ?thesis
          by (simp only: spread_dispatch_def Let_def if_False if_True simp_thms)
            (simp add: spread_covers_def all_pieces_def items_left_def arr [symmetric] it [symmetric] add.commute)
      next
        case failed: False
        with shared False tiles_caller [of n] show ?thesis
          by (simp only: spread_dispatch_def Let_def if_False if_True simp_thms)
            (simp add: spread_covers_def all_pieces_def items_left_def)
      qed
    qed
  qed
qed

text \<open>The iterations the pieces of a spread stand for, in order.\<close>

definition iterations_run :: "'hc spread \<Rightarrow> nat list" where
  "iterations_run s = concat (map (\<lambda>(a, b). [unat a..<unat b]) (all_pieces s))"

lemma iterations_run_tiles:
  "tiles 0 (as_nats (caller_pieces s) @ as_nats (concat (map snd (worker_pieces s)))
     @ as_nats (shared_pieces s)) n \<Longrightarrow> iterations_run s = [0..<n]"
proof -
  assume "tiles 0 (as_nats (caller_pieces s) @ as_nats (concat (map snd (worker_pieces s)))
     @ as_nats (shared_pieces s)) n"
  from tiles_concat [OF this] show ?thesis
    by (simp add: iterations_run_def all_pieces_def as_nats_def comp_def case_prod_unfold map_concat)
qed

lemma spread_work_sound:
  fixes c :: "'h::len word spread_context"
  assumes set: "spread_setting b c pic" and n: "0 < unat n"
  shows "\<exists>s. spread_work b c n pic = Some s \<and> spread_covers (unat n) c s"
proof (cases "items_in_shop c \<noteq> 0 \<and>
    (use_caller_thread b \<and> single_cpu_linux b \<and> worker_threads c = 0 \<or> on_worker c)")
  case True
  have "n \<noteq> 0" using n by auto
  with True n show ?thesis
    by (auto simp: spread_work_def spread_covers_def caller_only_def all_pieces_def items_left_def)
next
  case False
  let ?pic = "if parallelization_cost b then pic else 1"
  have "0 < unat ?pic" "0 < unat (max_work_parts b c)" "LENGTH('h) \<le> 32"
    using set max_work_parts_bounds(1) [OF set] by (auto simp: spread_setting_def)
  from plan_parts_sound [OF n this] obtain p where
    p: "plan_parts n ?pic (max_work_parts b c) (caller_takes_part b c) = Some p"
      "sound_plan (unat n) (unat (max_work_parts b c)) (caller_takes_part b c) p" by blast
  from spread_dispatch_covers [OF set p(2) n] p(1) False n show ?thesis
    by (auto simp: spread_work_def)
qed

section \<open>Theorems\<close>

text \<open>The default build on a machine with three workers, and one that forgoes worker selection.\<close>

definition default_build :: build where
  "default_build = \<lparr>exact_worker_selection = True, use_caller_thread = True, parallelization_cost = True,
     slow_thread_signals = False, single_cpu_linux = True\<rparr>"

definition idle_shop :: "'h::len word \<Rightarrow> 'h word spread_context" where
  "idle_shop workers = \<lparr>worker_threads = workers, items_in_shop = 0, on_worker = False,
     stealing_division = 4, enqueue_ok = True\<rparr>"




definition shared_build :: build where
  "shared_build = default_build\<lparr>exact_worker_selection := False\<rparr>"


text \<open>The slice count of the shared queue is multiplied in \<open>hardware_concurrency_t\<close>: with 8 bits
  and 64 workers the product is 256, that is zero; the spread reports success having run only the
  caller's share of its iterations.\<close>

theorem spread_work_slices_overflow:
  "\<exists>s. spread_work shared_build (idle_shop (64 :: 8 word)) 100000 1 = Some s \<and> succeeded s \<and>
     iterations_run s = [0..<1539]"
proof -
  have "spread_work shared_build (idle_shop (64 :: 8 word)) 100000 1 = Some \<lparr>caller_pieces = [(0, 1539)],
      worker_pieces = [], shared_pieces = [], arrivals = 1, items_added = 1, spin_join = True, succeeded = True\<rparr>"
    by (simp add: spread_work_def shared_build_def default_build_def idle_shop_def plan_parts_def
        max_work_parts_def free_workers_def number_of_workers_def caller_takes_part_def queue_and_wait_def
        spread_dispatch_def bulk_slices_def bulk_pieces_def slice_div_def caller_piece_def Let_def)
  then show ?thesis by (simp add: iterations_run_def all_pieces_def)
qed

end
