(* ===== verification/Dispatch.thy ===== *)
theory Dispatch
  imports Future Tracking
begin

text \<open>
  The one-item entry points of the generic shop (impls/generic.hpp): \<open>fire_and_forget\<close>,
  \<open>fire_with_after\<close>, \<open>dispatch\<close>, \<open>dispatch_lite\<close> and \<open>dispatch_outcome\<close> over
  \<open>create_fire_and_destroy\<close>. The queue is the parameter \<open>enqueue_succeeded\<close>: moodycamel's
  \<open>enqueue\<close> fails when it cannot allocate. Calls run to completion on one thread here; what
  the worker does with the item is its second stage, \<open>run_item\<close>.
\<close>

section \<open>create_fire_and_destroy\<close>

text \<open>
  The functor of an item lives in the wrapper's storage or on the heap
  (\<open>work_t::requires_allocation\<close>). Only the wrapper's call operator destroys it; the wrapper
  itself is trivially destructible.
\<close>

datatype functor_life = Alive | Destroyed

record 'f fired =
  queued :: bool
  on_heap :: bool
  wrapped :: 'f
  life_of_functor :: functor_life
  in_flight_delta :: int           \<comment> \<open>to the process-wide counter\<close>
  items_delta :: int               \<comment> \<open>to \<open>work_items_\<close>\<close>

definition create_fire_and_destroy :: "bool \<Rightarrow> bool \<Rightarrow> 'f \<Rightarrow> 'f fired" where
  "create_fire_and_destroy requires_allocation enqueue_succeeded f =
     \<lparr>queued = enqueue_succeeded, on_heap = requires_allocation, wrapped = f, life_of_functor = Alive,
      in_flight_delta = (if enqueue_succeeded then 1 else 0), items_delta = of_bool enqueue_succeeded\<rparr>"

text \<open>The worker: the functor runs, is destroyed, the guard uncounts it, \<open>work_completed\<close>.\<close>

definition run_item :: "('f \<Rightarrow> 'f) \<Rightarrow> 'f fired \<Rightarrow> 'f fired" where
  "run_item call w = w\<lparr>wrapped := call (wrapped w), life_of_functor := Destroyed, queued := False,
     in_flight_delta := in_flight_delta w - 1, items_delta := items_delta w - 1\<rparr>"

definition fire_and_forget :: "bool \<Rightarrow> bool \<Rightarrow> 'f \<Rightarrow> bool \<times> 'f fired" where
  "fire_and_forget requires_allocation enqueue_succeeded f =
     (enqueue_succeeded, create_fire_and_destroy requires_allocation enqueue_succeeded f)"

text \<open>\<open>work\<close> then \<open>after\<close>, one item; the state is what the two functors act on.\<close>

definition fire_with_after :: "('s \<Rightarrow> 's) \<Rightarrow> ('s \<Rightarrow> 's) \<Rightarrow> 's \<Rightarrow> 's" where
  "fire_with_after work after s = after (work s)"

section \<open>The futures\<close>

text \<open>
  The wrapper of \<open>dispatch_lite\<close> and \<open>dispatch_outcome\<close> holds the promise, the caller's local
  holds the future. \<open>None\<close> is a call that does not return: assigning a future first releases
  the old one, and \<open>release\<close> waits for its completion.
\<close>

definition future_assign :: "('s \<Rightarrow> 's option) \<Rightarrow> 's option \<Rightarrow> 's \<Rightarrow> 's option" where
  "future_assign wait_op old new_slot =
     (case old of None \<Rightarrow> Some new_slot
      | Some s \<Rightarrow> (case wait_op s of None \<Rightarrow> None | Some _ \<Rightarrow> Some new_slot))"

definition bad_alloc :: "nat exception_ptr" where
  "bad_alloc = Thrown 0"

text \<open>
  What the future's holder gets: with \<open>Inl\<close> the slot of the queued item, to be completed by the
  worker; with \<open>Inr\<close> a slot that is already completed.
\<close>

definition dispatch_slot :: "('s \<Rightarrow> 's option) \<Rightarrow> (nat exception_ptr \<Rightarrow> 's \<Rightarrow> 's) \<Rightarrow> 's \<Rightarrow> bool
    \<Rightarrow> ('s + 's) option" where
  "dispatch_slot wait_op set_exception fresh_slot enqueue_succeeded =
     (let item_slot = fresh_slot            \<comment> \<open>made by the wrapper's constructor, which assigns it to the local\<close>
      in case future_assign wait_op None item_slot of None \<Rightarrow> None
         | Some future \<Rightarrow>
             if enqueue_succeeded then Some (Inl future)
             else map_option Inr (future_assign wait_op (Some future) (set_exception bad_alloc fresh_slot)))"

definition dispatch_lite :: "bool \<Rightarrow>
    (('v, nat) future_state + ('v, nat) future_state) option" where
  "dispatch_lite = dispatch_slot fs_wait fs_set_exception future_state_new"

definition dispatch_outcome :: "bool \<Rightarrow>
    (('v, nat) outcome_state + ('v, nat) outcome_state) option" where
  "dispatch_outcome = dispatch_slot os_wait os_set_exception outcome_state_new"

text \<open>
  \<open>dispatch\<close> uses \<open>std::future\<close>, whose assignment drops the old state without waiting; its shared
  state is modelled by the same result.
\<close>

definition dispatch_std :: "bool \<Rightarrow> ('v, nat) result option + ('v, nat) result option" where
  "dispatch_std enqueue_succeeded =
     (let item_state = None
      in if enqueue_succeeded then Inl item_state else Inr (Some (Inl bad_alloc)))"

text \<open>The worker runs the item: \<open>promise.run(work)\<close>, and the promise dies with the functor.\<close>

definition worker_runs :: "('v \<Rightarrow> 's \<Rightarrow> 's) \<Rightarrow> (nat exception_ptr \<Rightarrow> 's \<Rightarrow> 's) \<Rightarrow> ('s \<Rightarrow> bool) \<Rightarrow> nat + 'v
    \<Rightarrow> 's \<Rightarrow> 's" where
  "worker_runs set_value set_exception is_completed work = promise_life set_value set_exception is_completed (Some work)"

context one_shot_slot
begin

lemma dispatch_returns:
  assumes "fresh s"
  shows "dispatch_slot wait_op se s True = Some (Inl s)"
  by (simp add: dispatch_slot_def future_assign_def)

lemma dispatch_failure_blocks:
  assumes "fresh s"
  shows "dispatch_slot wait_op se s False = None"
  using fresh_blocks [OF assms] by (simp add: dispatch_slot_def future_assign_def)

end

section \<open>Theorems\<close>

text \<open>A fired item is counted once and uncounted once: after the worker has run it, both counters
  are back and the functor is destroyed; \<open>fire_with_after\<close> runs its two parts in order. A rejected
  item is not counted, but its functor is never destroyed.\<close>

theorem fire_accounting:
  "(let w = run_item call (snd (fire_and_forget alloc True f))
    in in_flight_delta w = 0 \<and> items_delta w = 0 \<and> life_of_functor w = Destroyed \<and> wrapped w = call f) \<and>
   (let w = snd (fire_and_forget alloc False f)
    in in_flight_delta w = 0 \<and> items_delta w = 0 \<and> life_of_functor w = Alive \<and> \<not> queued w) \<and>
   fire_with_after work after s = (after \<circ> work) s"
  by (simp add: fire_and_forget_def create_fire_and_destroy_def run_item_def fire_with_after_def)

text \<open>A dispatch whose item is queued returns the item's future, and once the worker has run it
  \<open>get\<close> yields the work's value or what it threw, for the lite and the outcome flavour.\<close>

theorem dispatch_delivers:
  "(\<exists>slot s'. dispatch_lite True = Some (Inl slot) \<and>
      fs_get moved (worker_runs fs_set_value fs_set_exception completed work slot) = Some (expected (Some work), s')) \<and>
   (\<exists>slot s'. dispatch_outcome True = Some (Inl slot) \<and>
      os_get moved_outcome (worker_runs os_set_value os_set_exception o_completed work slot) = Some (expected (Some work), s'))"
proof
  obtain s' where "fs_get moved (promise_life fs_set_value fs_set_exception completed (Some work) future_state_new)
      = Some (expected (Some work), s')"
    using future_slot.life_delivers [of future_state_new moved "Some work"] by (auto simp: future_fresh_def)
  then show "\<exists>slot s'. dispatch_lite True = Some (Inl slot) \<and>
      fs_get moved (worker_runs fs_set_value fs_set_exception completed work slot) = Some (expected (Some work), s')"
    using future_slot.dispatch_returns [of future_state_new fs_set_exception]
    by (auto simp: dispatch_lite_def worker_runs_def future_fresh_def)
next
  obtain s' where "os_get moved_outcome (promise_life os_set_value os_set_exception o_completed (Some work) outcome_state_new)
      = Some (expected (Some work), s')"
    using outcome_slot.life_delivers [of outcome_state_new moved_outcome "Some work"] by (auto simp: outcome_fresh_def)
  then show "\<exists>slot s'. dispatch_outcome True = Some (Inl slot) \<and>
      os_get moved_outcome (worker_runs os_set_value os_set_exception o_completed work slot) = Some (expected (Some work), s')"
    using outcome_slot.dispatch_returns [of outcome_state_new os_set_exception]
    by (auto simp: dispatch_outcome_def worker_runs_def outcome_fresh_def)
qed


end
