(* ===== verification/Shop.thy ===== *)
theory Shop
  imports SpreadPlan
begin

unbundle bit_operations_syntax

text \<open>
  The worker pool of the generic shop (impls/generic.cpp): the packed thread argument, the pool's
  creation and destruction, the sticky target of the fire path and the wake tree of a spread. Theory
  \<open>ShopRun\<close> has the pool at work.
\<close>

section \<open>The packed thread argument\<close>

text \<open>64-bit targets: 48 bits of shop offset, signed, and 16 bits of worker index in one pointer.\<close>

definition pack_64 :: "48 word \<Rightarrow> 16 word \<Rightarrow> 64 word" where
  "pack_64 shop_offset worker_index = push_bit 48 (ucast worker_index) OR ucast shop_offset"

definition unpack_offset_64 :: "64 word \<Rightarrow> 64 word" where
  "unpack_offset_64 p = scast (ucast p :: 48 word)"

definition unpack_index_64 :: "64 word \<Rightarrow> 16 word" where
  "unpack_index_64 p = ucast (drop_bit 48 p)"

text \<open>32-bit targets: 27 and 5 bits.\<close>

definition pack_32 :: "27 word \<Rightarrow> 5 word \<Rightarrow> 32 word" where
  "pack_32 shop_offset worker_index = push_bit 27 (ucast worker_index) OR ucast shop_offset"

definition unpack_offset_32 :: "32 word \<Rightarrow> 32 word" where
  "unpack_offset_32 p = scast (ucast p :: 27 word)"

definition unpack_index_32 :: "32 word \<Rightarrow> 5 word" where
  "unpack_index_32 p = ucast (drop_bit 27 p)"

section \<open>The pool\<close>

datatype pool_action = Set_Brexit bool | Wake_All | Join nat | Free_Pool | Allocate nat | Emplace_Token nat | Start nat

text \<open>\<open>wake_all_workers\<close>: every worker's event once, or as many tokens on the shared semaphore.\<close>

definition wake_all_workers :: "build \<Rightarrow> nat \<Rightarrow> (nat \<times> nat) list \<times> nat" where
  "wake_all_workers b pool_size =
     (if exact_worker_selection b \<and> \<not> slow_thread_signals b then (map (\<lambda>w. (w, 1)) [0..<pool_size], 0)
      else ([], pool_size))"

definition stop_and_destroy_pool :: "'h::len word \<Rightarrow> pool_action list" where
  "stop_and_destroy_pool current_size =
     [Set_Brexit True, Wake_All] @ map Join [0..<unat current_size] @ [Free_Pool]"

definition create_pool :: "build \<Rightarrow> 'h::len word \<Rightarrow> 'h word \<Rightarrow> pool_action list \<times> 'h word" where
  "create_pool b pool_size current_size =
     (if pool_size = current_size then ([], current_size)
      else (stop_and_destroy_pool current_size @ [Set_Brexit False, Allocate (unat pool_size)]
            @ concat (map (\<lambda>w. (if exact_worker_selection b \<and> \<not> slow_thread_signals b then [Emplace_Token w] else [])
                 @ [Start w]) [0..<unat pool_size]), pool_size))"

text \<open>
  The thread of worker \<open>failing\<close> cannot be created: \<open>thread::create\<close> throws out of the loop. With a pool
  allocated on the heap \<open>p_workers\<close> still owns it and deletes it, while \<open>pool_\<close> keeps pointing to it; a
  pool of fixed capacity keeps its size. The result: what was done, and the size that \<open>pool_\<close> is left with.
\<close>

definition create_pool_failing :: "build \<Rightarrow> bool \<Rightarrow> 'h::len word \<Rightarrow> 'h word \<Rightarrow> nat \<Rightarrow> pool_action list \<times> 'h word" where
  "create_pool_failing b fixed_capacity pool_size current_size failing =
     (let token = (\<lambda>w. if exact_worker_selection b \<and> \<not> slow_thread_signals b then [Emplace_Token w] else [])
      in (stop_and_destroy_pool current_size @ [Set_Brexit False, Allocate (unat pool_size)]
          @ concat (map (\<lambda>w. token w @ [Start w]) [0..<failing]) @ token failing
          @ (if fixed_capacity then [] else [Free_Pool]), pool_size))"

text \<open>The constructor, from the detected concurrency; \<open>max_hc\<close> is the platform's compile-time
  limit, zero for none.\<close>

definition shop_new :: "build \<Rightarrow> 'h::len word \<Rightarrow> 'h word \<Rightarrow> pool_action list \<times> 'h word" where
  "shop_new b max_hc detected =
     (let local = (if max_hc = 0 then detected else min detected max_hc)
      in create_pool b (local - of_bool (use_caller_thread b)) 0)"

definition set_max_allowed_threads :: "build \<Rightarrow> 'h::len word \<Rightarrow> 'h word \<Rightarrow> pool_action list \<times> 'h word" where
  "set_max_allowed_threads b max_threads current_size =
     (let (as, pool_size) = create_pool b (max_threads - of_bool (use_caller_thread b)) 0
      in (stop_and_destroy_pool current_size @ as, pool_size))"

definition pool_workers :: "build \<Rightarrow> 'h::len word \<Rightarrow> 'h word" where
  "pool_workers b pool_size = of_nat (unat pool_size + of_bool (use_caller_thread b))"

text \<open>
  \<open>set_priority\<close>: on Linux a failure is retried from the workers themselves, through a spread that
  skips the caller. \<open>thread_ok\<close> are the results for the threads' handles, \<open>self_ok\<close> of
  \<open>setpriority\<close> in the threads the spread reaches.
\<close>

definition set_priority :: "bool \<Rightarrow> bool list \<Rightarrow> (nat option \<times> bool) list \<Rightarrow> bool" where
  "set_priority linux thread_ok self_ok =
     (let success = foldl (\<and>) True thread_ok
      in if linux \<and> \<not> success then foldl (\<lambda>ok (w, r). if w \<noteq> None then ok \<and> r else ok) True self_ok
         else success)"

text \<open>\<open>bind_worker\<close> with exact selection: by handle and, on Linux, again by thread id.\<close>

definition bind_worker :: "bool \<Rightarrow> (nat \<Rightarrow> bool) \<Rightarrow> (nat \<Rightarrow> bool) \<Rightarrow> nat \<Rightarrow> bool" where
  "bind_worker linux by_handle by_thread_id worker_index =
     (let succeeded = by_handle worker_index
      in if \<not> succeeded then (if linux then succeeded \<or> by_thread_id worker_index else succeeded) else succeeded)"

section \<open>The fire path's target\<close>

text \<open>\<open>pending w\<close>: the tokens of worker \<open>w\<close>'s event. The result: the new rotor and the target.\<close>

definition sticky_dispatch_depth :: int where
  "sticky_dispatch_depth = 2"

definition next_dispatch_target :: "'h::len word \<Rightarrow> ('h word \<Rightarrow> int) \<Rightarrow> 32 word \<Rightarrow> 32 word \<times> 'h word" where
  "next_dispatch_target workers pending rotor =
     (let target = (ucast (rotor mod ucast workers) :: 'h word)
      in if pending target > sticky_dispatch_depth
         then let rotor' = rotor + 1 in (rotor', ucast (rotor' mod ucast workers))
         else (rotor, target))"

section \<open>The wake tree\<close>

text \<open>The workers \<open>propagate_spread_wake\<close> notifies.\<close>

definition propagate_spread_wake :: "'h::len word \<Rightarrow> 'h word \<Rightarrow> 'h word list" where
  "propagate_spread_wake workers worker_index =
     (let left = 2 * worker_index + 1; right = 2 * worker_index + 2
      in (if left < workers then [left] else []) @ (if right < workers then [right] else []))"

text \<open>The workers woken within a number of rounds of the wake of worker 0.\<close>

fun woken_within :: "'h::len word \<Rightarrow> nat \<Rightarrow> 'h word list" where
  "woken_within workers 0 = (if 0 < workers then [0] else [])"
| "woken_within workers (Suc d) =
     woken_within workers d @ concat (map (propagate_spread_wake workers) (woken_within workers d))"

lemma tree_parent:
  fixes w workers :: "'h::len word"
  assumes "w < workers" "0 < unat w"
  shows "w \<in> set (propagate_spread_wake workers (of_nat ((unat w - 1) div 2)))"
proof -
  let ?p = "of_nat ((unat w - 1) div 2) :: 'h word"
  have w: "unat w < 2 ^ LENGTH('h)" by (rule unat_lt2p)
  have "(unat w - 1) div 2 < 2 ^ LENGTH('h)" using w by (meson div_le_dividend diff_le_self le_less_trans)
  consider (left) "unat w = 2 * ((unat w - 1) div 2) + 1" | (right) "unat w = 2 * ((unat w - 1) div 2) + 2"
    using assms(2) by linarith
  then have "w = 2 * ?p + 1 \<or> w = 2 * ?p + 2"
  proof cases
    case left
    from arg_cong [OF this, of "of_nat :: nat \<Rightarrow> 'h word"] show ?thesis by (simp add: add.commute)
  next
    case right
    from arg_cong [OF this, of "of_nat :: nat \<Rightarrow> 'h word"] show ?thesis by (simp add: add.commute)
  qed
  with assms(1) show ?thesis by (auto simp: propagate_spread_wake_def Let_def)
qed

lemma woken_within_all:
  fixes w workers :: "'h::len word"
  assumes "w < workers" "unat w + 2 \<le> 2 ^ Suc d"
  shows "w \<in> set (woken_within workers d)"
  using assms
proof (induction d arbitrary: w)
  case 0
  then have "w = 0" by (simp add: unat_eq_0)
  with 0 show ?case by simp
next
  case (Suc d)
  show ?case
  proof (cases "unat w = 0")
    case True
    have "unat w + 2 \<le> 2 ^ Suc d" using True one_le_power [of "2 :: nat" d] unfolding power_Suc by linarith
    then have "w \<in> set (woken_within workers d)" using Suc.prems(1) by (intro Suc.IH)
    then show ?thesis by simp
  next
    case False
    let ?p = "of_nat ((unat w - 1) div 2) :: 'h word"
    have "(unat w - 1) div 2 \<le> unat w" by linarith
    then have p: "unat ?p = (unat w - 1) div 2"
      using unat_lt2p [of w] by (intro unat_of_nat_small) linarith
    have "?p < workers" using Suc.prems(1) p by (simp add: word_less_nat_alt)
    moreover have "unat ?p + 2 \<le> 2 ^ Suc d" using Suc.prems(2) False unfolding p by simp
    ultimately have "?p \<in> set (woken_within workers d)" by (rule Suc.IH)
    moreover have "w \<in> set (propagate_spread_wake workers ?p)"
      using tree_parent [OF Suc.prems(1)] False by simp
    ultimately show ?thesis by auto
  qed
qed

section \<open>Theorems\<close>


text \<open>C33. The wake tree reaches every worker, in logarithmically many rounds after the wake of
  worker 0, although the child indices are computed in \<open>hardware_concurrency_t\<close>.\<close>

theorem wake_tree_reaches_all:
  fixes w workers :: "'h::len word"
  assumes "w < workers" and "unat workers < 2 ^ Suc d"
  shows "w \<in> set (woken_within workers d)"
  using assms by (intro woken_within_all) (auto simp: word_less_nat_alt)

theorem wake_tree_reaches_all_witness: "(11 :: 8 word) \<in> set (woken_within 12 3)"
  by (rule wake_tree_reaches_all) simp_all

text \<open>The fire path's target is always a worker of the pool; it stays on the current worker while
  that worker's backlog is at most two tokens, and moves on by one otherwise.\<close>

theorem dispatch_target_correct:
  fixes workers :: "'h::len word"
  assumes "0 < unat workers" and "LENGTH('h) \<le> 32" and "next_dispatch_target workers pending rotor = (rotor', target)"
  shows "target < workers \<and> unat target = unat rotor' mod unat workers \<and>
    rotor' = rotor + of_bool (pending (ucast (rotor mod ucast workers)) > 2)"
proof -
  have w: "unat (ucast workers :: 32 word) = unat workers" by (rule unat_ucast_widen) (use assms(2) in simp)
  have t: "unat (ucast (r mod ucast workers) :: 'h word) = unat r mod unat workers" for r :: "32 word"
  proof -
    have "unat (r mod ucast workers) = unat r mod unat workers" by (simp only: unat_mod_eq w)
    moreover have "unat r mod unat workers < unat workers" using assms(1) by simp
    moreover have "unat r mod unat workers < 2 ^ LENGTH('h)"
      using calculation(2) unat_lt2p [of workers] by linarith
    ultimately show ?thesis by (simp only: unat_ucast_small)
  qed
  have "target = ucast (rotor' mod ucast workers) \<and> rotor' = rotor + of_bool (pending (ucast (rotor mod ucast workers)) > 2)"
    using assms(3) by (auto simp: next_dispatch_target_def sticky_dispatch_depth_def Let_def split: if_splits)
  with t [of rotor'] assms(1) show ?thesis by (simp add: word_less_nat_alt)
qed

theorem dispatch_target_correct_witness:
  "next_dispatch_target (4 :: 16 word) (\<lambda>w. if w = 3 then 5 else 0) 7 = (8, 0) \<and> (0 :: 16 word) < 4"
proof -
  have "next_dispatch_target (4 :: 16 word) (\<lambda>w. if w = 3 then 5 else 0) 7 = (8, 0)"
    by (simp add: next_dispatch_target_def sticky_dispatch_depth_def Let_def)
  with dispatch_target_correct [OF _ _ this] show ?thesis by simp
qed

text \<open>Recreating the pool first stops and joins exactly the old workers and then starts exactly the
  new ones, the caller included in the requested parallelism; creating a pool of the size it already
  has leaves it alone.\<close>

theorem pool_recreation:
  fixes max_threads current :: "'h::len word"
  assumes "of_bool (use_caller_thread b) \<le> unat max_threads"
  shows "(case set_max_allowed_threads b max_threads current of (as, new_size) \<Rightarrow>
      pool_workers b new_size = max_threads \<and>
      (\<exists>stops starts. as = stops @ starts \<and> Join -` set stops = {..<unat current} \<and> Start -` set stops = {} \<and>
         Join -` set starts = {} \<and> Start -` set starts = {..<unat new_size})) \<and>
    create_pool b current current = ([], current)"
proof -
  let ?n = "max_threads - of_bool (use_caller_thread b)"
  have n: "unat ?n = unat max_threads - of_bool (use_caller_thread b)"
    using assms by (cases "use_caller_thread b") (auto simp: unat_sub_le)
  have "pool_workers b ?n = max_threads"
    using assms unfolding pool_workers_def n by (cases "use_caller_thread b") (auto simp: of_nat_diff)
  moreover have "set_max_allowed_threads b max_threads current =
      (stop_and_destroy_pool current @ fst (create_pool b ?n 0), ?n)"
    by (simp add: set_max_allowed_threads_def create_pool_def)
  moreover have "Join -` set (stop_and_destroy_pool current) = {..<unat current}"
      "Start -` set (stop_and_destroy_pool current) = {}"
    by (auto simp: stop_and_destroy_pool_def)
  moreover have "Join -` set (fst (create_pool b ?n 0)) = {}" "Start -` set (fst (create_pool b ?n 0)) = {..<unat ?n}"
    by (auto simp: create_pool_def stop_and_destroy_pool_def)
  moreover have "create_pool b current current = ([], current)" by (simp add: create_pool_def)
  ultimately show ?thesis
    unfolding prod.case by (metis (mono_tags, lifting) case_prod_conv)
qed

theorem pool_recreation_witness:
  "case set_max_allowed_threads default_build (4 :: 8 word) 7 of (as, new_size) \<Rightarrow>
    pool_workers default_build new_size = 4 \<and>
    (\<exists>stops starts. as = stops @ starts \<and> Join -` set stops = {..<7} \<and> Start -` set starts = {..<unat new_size})"
proof -
  have "of_bool (use_caller_thread default_build) \<le> unat (4 :: 8 word)" by simp
  from pool_recreation [OF this, of 7] show ?thesis by (fastforce simp: unat_numeral split: prod.splits)
qed

text \<open>A failure to create a worker's thread leaves the shop unusable. The workers already started are not
  joined; with a heap pool they go on running in memory that has been deleted, which the next change of
  the pool, or the shop's destructor, deletes again; in either kind of pool that change joins a thread
  that was never started.\<close>

theorem pool_creation_failure:
  fixes size current :: "'h::len word"
  assumes "failing < unat size" and "create_pool_failing b fixed_capacity size current failing = (as, left_size)"
  shows "\<exists>before started. as = stop_and_destroy_pool current @ before @ started @ (if fixed_capacity then [] else [Free_Pool]) \<and>
      Start -` set started = {..<failing} \<and> Join -` set (before @ started) = {} \<and>
    Free_Pool \<in> set (stop_and_destroy_pool left_size) \<and> Join failing \<in> set (stop_and_destroy_pool left_size) \<and>
    Start failing \<notin> set as"
proof -
  define token where "token w = (if exact_worker_selection b \<and> \<not> slow_thread_signals b then [Emplace_Token w] else [])" for w
  let ?started = "concat (map (\<lambda>w. token w @ [Start w]) [0..<failing]) @ token failing"
  let ?before = "[Set_Brexit False, Allocate (unat size)]"
  have "as = stop_and_destroy_pool current @ ?before @ ?started @ (if fixed_capacity then [] else [Free_Pool])"
    and "left_size = size"
    using assms(2) by (auto simp: create_pool_failing_def token_def Let_def)
  moreover have "Start -` set ?started = {..<failing}" "Join -` set (?before @ ?started) = {}"
    by (auto simp: token_def)
  moreover have "Join failing \<in> set (stop_and_destroy_pool size)" "Free_Pool \<in> set (stop_and_destroy_pool size)"
    "Start failing \<notin> set (stop_and_destroy_pool current)"
    using assms(1) by (auto simp: stop_and_destroy_pool_def)
  moreover have "Start failing \<notin> set ?started" by (auto simp: token_def)
  ultimately show ?thesis by (intro exI [of _ ?before] exI [of _ ?started]) auto
qed

end
