(* ===== verification/ReadRecursion.thy ===== *)
theory ReadRecursion
  imports Prelude
begin

text \<open>
  Reentrant reads: the per-thread registry of read holds (threading/read_recursion_registry.hpp) and
  \<open>basic_rrw_mutex\<close> (threading/rrw_mutex.hpp), which calls the operating system's lock only for the
  outermost acquire and the last release. A mutex is its address, here a number; one thread's
  registry is a list of holds. A \<open>bad_alloc\<close> is \<open>None\<close>. The operating system's read lock is not in
  the repository: what matters of it is its documented misuse, a nested acquire (which hangs behind
  a queued writer) and a release without a hold (which is undefined).
\<close>

type_synonym mutex_id = nat

record read_hold =
  held_mutex :: mutex_id
  depth :: "32 word"

type_synonym registry = "read_hold list"

section \<open>The registry\<close>

text \<open>\<open>can_grow\<close>: whether \<open>emplace_back\<close> finds memory.\<close>

fun registry_enter :: "bool \<Rightarrow> mutex_id \<Rightarrow> registry \<Rightarrow> (bool \<times> registry) option" where
  "registry_enter can_grow m [] = (if can_grow then Some (True, [\<lparr>held_mutex = m, depth = 1\<rparr>]) else None)"
| "registry_enter can_grow m (e # es) =
     (if held_mutex e = m then Some (False, e\<lparr>depth := depth e + 1\<rparr> # es)
      else map_option (\<lambda>(first, es'). (first, e # es')) (registry_enter can_grow m es))"

function leave_loop :: "nat \<Rightarrow> mutex_id \<Rightarrow> registry \<Rightarrow> bool \<times> registry" where
  "leave_loop i m held =
     (if i < length held then
        if held_mutex (held ! i) = m then
          let held' = held[i := (held ! i)\<lparr>depth := depth (held ! i) - 1\<rparr>]
          in if depth (held' ! i) = 0 then (True, butlast (held'[i := last held'])) else (False, held')
        else leave_loop (i + 1) m held
      else (False, held))"
  by pat_completeness auto
termination by (relation "measure (\<lambda>(i, m, held). length held - i)") auto

definition registry_leave :: "mutex_id \<Rightarrow> registry \<Rightarrow> bool \<times> registry" where
  "registry_leave m held = leave_loop 0 m held"

fun bump_if_held :: "mutex_id \<Rightarrow> registry \<Rightarrow> bool \<times> registry" where
  "bump_if_held m [] = (False, [])"
| "bump_if_held m (e # es) =
     (if held_mutex e = m then (True, e\<lparr>depth := depth e + 1\<rparr> # es)
      else let (b, es') = bump_if_held m es in (b, e # es'))"

definition reserve_one :: "bool \<Rightarrow> registry \<Rightarrow> registry option" where
  "reserve_one can_grow held = (if can_grow then Some held else None)"

definition note_first :: "mutex_id \<Rightarrow> registry \<Rightarrow> registry" where
  "note_first m held = held @ [\<lparr>held_mutex = m, depth = 1\<rparr>]"

text \<open>The debug tripwire of the non-recursive locks; the first component is the assertion.\<close>

definition on_ro_acquire :: "bool \<Rightarrow> mutex_id \<Rightarrow> registry \<Rightarrow> (bool \<times> registry) option" where
  "on_ro_acquire can_grow m held = registry_enter can_grow m held"

definition on_ro_release :: "mutex_id \<Rightarrow> registry \<Rightarrow> registry" where
  "on_ro_release m held = snd (registry_leave m held)"

section \<open>basic_rrw_mutex\<close>

datatype os_call = Os_Acquire_Ro mutex_id | Os_Release_Ro mutex_id | Os_Try_Acquire_Ro mutex_id bool

definition rrw_acquire_ro :: "bool \<Rightarrow> mutex_id \<Rightarrow> registry \<Rightarrow> (os_call list \<times> registry) option" where
  "rrw_acquire_ro can_grow m held =
     map_option (\<lambda>(first, held'). (if first then [Os_Acquire_Ro m] else [], held')) (registry_enter can_grow m held)"

definition rrw_release_ro :: "mutex_id \<Rightarrow> registry \<Rightarrow> os_call list \<times> registry" where
  "rrw_release_ro m held =
     (let (was_last, held') = registry_leave m held in (if was_last then [Os_Release_Ro m] else [], held'))"

text \<open>\<open>os_ok\<close>: what the operating system's try returns.\<close>

definition rrw_try_acquire_ro ::
  "bool \<Rightarrow> bool \<Rightarrow> mutex_id \<Rightarrow> registry \<Rightarrow> (bool \<times> os_call list \<times> registry) option" where
  "rrw_try_acquire_ro can_grow os_ok m held =
     (let (bumped, held') = bump_if_held m held
      in if bumped then Some (True, [], held')
         else map_option (\<lambda>held'. (os_ok, [Os_Try_Acquire_Ro m os_ok], if os_ok then note_first m held' else held'))
                (reserve_one can_grow held))"

section \<open>Abstraction: the depth of each hold\<close>

fun depth_of :: "registry \<Rightarrow> mutex_id \<Rightarrow> nat" where
  "depth_of [] m = 0"
| "depth_of (e # es) m = (if held_mutex e = m then unat (depth e) else depth_of es m)"

definition registry_ok :: "registry \<Rightarrow> bool" where
  "registry_ok held \<longleftrightarrow> distinct (map held_mutex held) \<and> (\<forall>e\<in>set held. depth e \<noteq> 0)"

lemma depth_of_absent: "m \<notin> held_mutex ` set held \<Longrightarrow> depth_of held m = 0"
  by (induction held) auto

lemma depth_of_present: "distinct (map held_mutex held) \<Longrightarrow> e \<in> set held \<Longrightarrow> depth_of held (held_mutex e) = unat (depth e)"
  by (induction held) auto

lemma depth_of_pos: "registry_ok held \<Longrightarrow> 0 < depth_of held m \<longleftrightarrow> m \<in> held_mutex ` set held"
  by (induction held) (auto simp: registry_ok_def unat_gt_0)

text \<open>A registry is determined, up to order, by its set of holds.\<close>

lemma depth_of_cong:
  assumes "distinct (map held_mutex held)" "distinct (map held_mutex held')" "set held = set held'"
  shows "depth_of held = depth_of held'"
proof
  fix m
  show "depth_of held m = depth_of held' m"
  proof (cases "m \<in> held_mutex ` set held")
    case True
    then obtain e where e: "e \<in> set held" "m = held_mutex e" by auto
    with assms show ?thesis by (simp only: depth_of_present)
  next
    case False
    with assms(3) show ?thesis by (simp add: depth_of_absent)
  qed
qed

lemma unat_Suc_small: "unat (a :: 32 word) + 1 < 2 ^ 32 \<Longrightarrow> unat (a + 1) = unat a + 1"
  by (subst unat_add_small) simp_all

lemma enter_spec:
  assumes "registry_ok held" "depth_of held m + 1 < 2 ^ 32" "registry_enter can_grow m held = Some (first, held')"
  shows "registry_ok held' \<and> (first \<longleftrightarrow> depth_of held m = 0) \<and> depth_of held' = (depth_of held)(m := depth_of held m + 1) \<and>
    held_mutex ` set held' = insert m (held_mutex ` set held)"
  using assms
proof (induction held arbitrary: first held')
  case (Cons e es)
  show ?case
  proof (cases "held_mutex e = m")
    case True
    have d: "unat (depth e + 1) = unat (depth e) + 1" using Cons.prems(2) True by (intro unat_Suc_small) simp
    then have "depth e + 1 \<noteq> 0" by (metis Suc_eq_plus1 nat.distinct(1) unat_0)
    with True Cons.prems d show ?thesis by (auto simp: registry_ok_def unat_eq_0)
  next
    case False
    then obtain es' where es': "registry_enter can_grow m es = Some (first, es')" "held' = e # es'"
      using Cons.prems(3) by auto
    have "registry_ok es" using Cons.prems(1) by (simp add: registry_ok_def)
    with Cons.IH [OF _ _ es'(1)] Cons.prems(2) False
    have "registry_ok es'" "first \<longleftrightarrow> depth_of es m = 0" "depth_of es' = (depth_of es)(m := depth_of es m + 1)"
      "held_mutex ` set es' = insert m (held_mutex ` set es)" by auto
    then show ?thesis using False Cons.prems(1) by (auto simp: es'(2) registry_ok_def)
  qed
qed (auto simp: registry_ok_def split: if_splits)

lemma bump_spec:
  assumes "registry_ok held" "depth_of held m + 1 < 2 ^ 32" "bump_if_held m held = (b, held')"
  shows "registry_ok held' \<and> (b \<longleftrightarrow> 0 < depth_of held m) \<and>
    depth_of held' = (if b then (depth_of held)(m := depth_of held m + 1) else depth_of held) \<and>
    held_mutex ` set held' = held_mutex ` set held"
  using assms
proof (induction held arbitrary: b held')
  case (Cons e es)
  show ?case
  proof (cases "held_mutex e = m")
    case True
    have d: "unat (depth e + 1) = unat (depth e) + 1" using Cons.prems(2) True by (intro unat_Suc_small) simp
    then have "depth e + 1 \<noteq> 0" by (metis Suc_eq_plus1 nat.distinct(1) unat_0)
    with True Cons.prems d show ?thesis by (auto simp: registry_ok_def unat_gt_0)
  next
    case False
    obtain es' where es': "bump_if_held m es = (b, es')" "held' = e # es'"
      using Cons.prems(3) False by (auto split: prod.splits)
    have "registry_ok es" using Cons.prems(1) by (simp add: registry_ok_def)
    with Cons.IH [OF _ _ es'(1)] Cons.prems(2) False
    have "registry_ok es'" "b \<longleftrightarrow> 0 < depth_of es m"
      "depth_of es' = (if b then (depth_of es)(m := depth_of es m + 1) else depth_of es)"
      "held_mutex ` set es' = held_mutex ` set es" by auto
    then show ?thesis using False Cons.prems(1) by (auto simp: es'(2) registry_ok_def)
  qed
qed (auto simp: registry_ok_def)

declare leave_loop.simps [simp del]

lemma leave_loop_found:
  assumes "held = xs @ e # ys" "held_mutex e = m" "m \<notin> held_mutex ` set xs" "i \<le> length xs"
  shows "leave_loop i m held = (let held' = xs @ e\<lparr>depth := depth e - 1\<rparr> # ys
    in if depth e = 1 then (True, butlast (held'[length xs := last held'])) else (False, held'))"
  using assms(4)
proof (induction "length xs - i" arbitrary: i)
  case 0
  then have i: "i = length xs" by simp
  show ?case by (subst leave_loop.simps) (simp add: i assms(1,2) Let_def nth_append)
next
  case (Suc k)
  then have i: "i < length xs" by simp
  then have "held ! i = xs ! i" by (simp add: assms(1) nth_append)
  then have "held_mutex (held ! i) \<noteq> m" using assms(3) i by (metis imageI nth_mem)
  then have "leave_loop i m held = leave_loop (i + 1) m held"
    using i by (subst leave_loop.simps) (simp add: assms(1))
  also have "\<dots> = (let held' = xs @ e\<lparr>depth := depth e - 1\<rparr> # ys
    in if depth e = 1 then (True, butlast (held'[length xs := last held'])) else (False, held'))"
    using Suc.hyps(2) i by (intro Suc.hyps(1)) simp_all
  finally show ?case .
qed

lemma leave_loop_absent: "m \<notin> held_mutex ` set held \<Longrightarrow> leave_loop i m held = (False, held)"
proof (induction i m held rule: leave_loop.induct)
  case (1 i m held)
  then show ?case by (subst leave_loop.simps) (auto simp: image_iff)
qed

lemma swap_out:
  "set (butlast ((xs @ a # ys)[length xs := last (xs @ a # ys)])) = set xs \<union> set ys \<and>
   (distinct (map f (xs @ a # ys)) \<longrightarrow> distinct (map f (butlast ((xs @ a # ys)[length xs := last (xs @ a # ys)]))))"
  by (cases ys rule: rev_cases) (auto simp: butlast_append)

lemma leave_spec:
  assumes ok: "registry_ok held" and pos: "0 < depth_of held m" and res: "registry_leave m held = (was_last, held')"
  shows "registry_ok held' \<and> (was_last \<longleftrightarrow> depth_of held m = 1) \<and> depth_of held' = (depth_of held)(m := depth_of held m - 1)"
proof -
  have dist: "distinct (map held_mutex held)" using ok by (simp add: registry_ok_def)
  obtain e where e: "e \<in> set held" "held_mutex e = m" using pos depth_of_pos [OF ok] by auto
  then obtain xs ys where held: "held = xs @ e # ys" by (meson split_list)
  let ?e = "e\<lparr>depth := depth e - 1\<rparr>"
  have out: "m \<notin> held_mutex ` (set xs \<union> set ys)" using dist e(2) by (auto simp: held)
  have d: "depth_of held m = unat (depth e)" using depth_of_present [OF dist e(1)] e(2) by simp
  have nz: "depth e \<noteq> 0" using ok e(1) by (simp add: registry_ok_def)
  have one: "depth e = 1 \<longleftrightarrow> depth_of held m = 1" by (simp add: d unat_eq_iff)
  have "registry_leave m held = (let held' = xs @ ?e # ys
      in if depth e = 1 then (True, butlast (held'[length xs := last held'])) else (False, held'))"
    unfolding registry_leave_def using out by (intro leave_loop_found [OF held e(2)]) auto
  with res one have r: "was_last \<longleftrightarrow> depth_of held m = 1"
    "held' = (if depth e = 1 then butlast ((xs @ ?e # ys)[length xs := last (xs @ ?e # ys)]) else xs @ ?e # ys)"
    by (auto simp: Let_def split: if_splits)
  have dist': "distinct (map held_mutex (xs @ ?e # ys))" using dist by (simp add: held)
  have fresh: "?e \<notin> set xs \<union> set ys"
  proof
    assume "?e \<in> set xs \<union> set ys"
    then have "held_mutex ?e \<in> held_mutex ` (set xs \<union> set ys)" by (rule imageI)
    with out e(2) show False by simp
  qed
  have others: "depth_of h m' = depth_of held m'"
    if "distinct (map held_mutex h)" "set h - {?e} = set xs \<union> set ys" "m' \<noteq> m" for h m'
  proof (cases "m' \<in> held_mutex ` (set xs \<union> set ys)")
    case True
    then obtain f where f: "f \<in> set xs \<union> set ys" "m' = held_mutex f" by auto
    then have "f \<in> set h" "f \<in> set held" using that(2) by (auto simp: held)
    then show ?thesis using depth_of_present [OF that(1)] depth_of_present [OF dist] f(2) by simp
  next
    case False
    have "set h \<subseteq> insert ?e (set xs \<union> set ys)" using that(2) by auto
    with False that(3) e(2) have "m' \<notin> held_mutex ` set h" by force
    moreover have "m' \<notin> held_mutex ` set held" using False that(3) e(2) by (auto simp: held)
    ultimately show ?thesis by (simp add: depth_of_absent)
  qed
  show ?thesis
  proof (cases "depth e = 1")
    case True
    then have h: "set held' = set xs \<union> set ys" "distinct (map held_mutex held')"
      using r(2) swap_out [of xs ?e ys held_mutex] dist' by simp_all
    have "set held' - {?e} = set xs \<union> set ys" using h(1) fresh by blast
    with others [OF h(2)] depth_of_absent [of m held'] out h(1) one True
    have "depth_of held' = (depth_of held)(m := depth_of held m - 1)" by (auto simp: fun_eq_iff)
    moreover have "registry_ok held'" using ok h by (auto simp: registry_ok_def held)
    ultimately show ?thesis using r(1) by blast
  next
    case False
    then have h: "held' = xs @ ?e # ys" using r(2) by simp
    have "set held' - {?e} = set xs \<union> set ys" using fresh by (auto simp: h)
    moreover have "depth_of held' m = depth_of held m - 1"
      using depth_of_present [of held' ?e] dist' e(2) nz unat_minus_one [of "depth e"] by (simp add: h d)
    ultimately have "depth_of held' = (depth_of held)(m := depth_of held m - 1)"
      using others [of held'] dist' by (auto simp: fun_eq_iff h)
    moreover have "depth e - 1 \<noteq> 0" using False by simp
    then have "registry_ok held'" using ok dist' by (auto simp: registry_ok_def held h)
    ultimately show ?thesis using r(1) by blast
  qed
qed

lemma leave_absent: "registry_ok held \<Longrightarrow> depth_of held m = 0 \<Longrightarrow> registry_leave m held = (False, held)"
  unfolding registry_leave_def by (rule leave_loop_absent) (use depth_of_pos [of held m] in simp)

lemma note_first_spec:
  assumes "registry_ok held" "depth_of held m = 0"
  shows "registry_ok (note_first m held) \<and> depth_of (note_first m held) = (depth_of held)(m := 1)"
proof -
  have absent: "m \<notin> held_mutex ` set held" using assms depth_of_pos [of held m] by simp
  then have "depth_of (held @ [\<lparr>held_mutex = m, depth = 1\<rparr>]) k = ((depth_of held)(m := 1)) k" for k
    by (induction held) auto
  then show ?thesis using assms absent by (auto simp: note_first_def registry_ok_def fun_eq_iff)
qed

section \<open>What one thread does\<close>

text \<open>A thread's calls, with what the allocator and the operating system's try answer.\<close>

datatype rrw_op = Acquire_Ro mutex_id bool | Try_Acquire_Ro mutex_id bool bool | Release_Ro mutex_id

text \<open>The new registry, the calls, and whether the thread got or gave up a hold.\<close>

fun rrw_apply :: "rrw_op \<Rightarrow> registry \<Rightarrow> bool \<times> os_call list \<times> registry" where
  "rrw_apply (Acquire_Ro m can_grow) held =
     (case rrw_acquire_ro can_grow m held of None \<Rightarrow> (False, [], held) | Some (calls, held') \<Rightarrow> (True, calls, held'))"
| "rrw_apply (Try_Acquire_Ro m can_grow os_ok) held =
     (case rrw_try_acquire_ro can_grow os_ok m held of None \<Rightarrow> (False, [], held) | Some r \<Rightarrow> r)"
| "rrw_apply (Release_Ro m) held = (True, rrw_release_ro m held)"

text \<open>The reference: a depth per mutex. A release without a hold is outside the contract.\<close>

fun spec_apply :: "rrw_op \<Rightarrow> bool \<Rightarrow> (mutex_id \<Rightarrow> nat) \<Rightarrow> (mutex_id \<Rightarrow> nat) option" where
  "spec_apply (Acquire_Ro m _) got d = Some (if got then d(m := d m + 1) else d)"
| "spec_apply (Try_Acquire_Ro m _ _) got d = Some (if got then d(m := d m + 1) else d)"
| "spec_apply (Release_Ro m) got d = (if d m = 0 then None else Some (d(m := d m - 1)))"

text \<open>The operating system's lock as one thread may use it: never a read acquire while it holds the
  lock, never a release without a hold (\<open>None\<close>).\<close>

fun os_apply :: "os_call list \<Rightarrow> mutex_id set \<Rightarrow> mutex_id set option" where
  "os_apply [] h = Some h"
| "os_apply (Os_Acquire_Ro m # cs) h = (if m \<in> h then None else os_apply cs (insert m h))"
| "os_apply (Os_Release_Ro m # cs) h = (if m \<in> h then os_apply cs (h - {m}) else None)"
| "os_apply (Os_Try_Acquire_Ro m ok # cs) h =
     (if m \<in> h then None else os_apply cs (if ok then insert m h else h))"

fun rrw_run :: "rrw_op list \<Rightarrow> registry \<Rightarrow> os_call list \<times> registry" where
  "rrw_run [] held = ([], held)"
| "rrw_run (x # xs) held =
     (let (_, calls, held') = rrw_apply x held; (calls', held'') = rrw_run xs held' in (calls @ calls', held''))"

fun spec_run :: "rrw_op list \<Rightarrow> registry \<Rightarrow> (mutex_id \<Rightarrow> nat) \<Rightarrow> (mutex_id \<Rightarrow> nat) option" where
  "spec_run [] held d = Some d"
| "spec_run (x # xs) held d =
     (let (got, _, held') = rrw_apply x held
      in case spec_apply x got d of None \<Rightarrow> None | Some d' \<Rightarrow> spec_run xs held' d')"

lemma os_apply_append: "os_apply (cs @ cs') h = Option.bind (os_apply cs h) (os_apply cs')"
  by (induction cs h rule: os_apply.induct) auto

definition os_held :: "(mutex_id \<Rightarrow> nat) \<Rightarrow> mutex_id set" where
  "os_held d = {m. 0 < d m}"

lemma rrw_apply_step:
  assumes ok: "registry_ok held" and small: "\<And>m. depth_of held m + 1 < 2 ^ 32"
    and app: "rrw_apply x held = (got, calls, held')" and spec: "spec_apply x got (depth_of held) = Some d'"
  shows "registry_ok held' \<and> depth_of held' = d' \<and> os_apply calls (os_held (depth_of held)) = Some (os_held d')"
proof (cases x)
  case (Acquire_Ro m can_grow)
  show ?thesis
  proof (cases "registry_enter can_grow m held")
    case None
    then show ?thesis using app spec ok by (simp add: Acquire_Ro rrw_acquire_ro_def)
  next
    case (Some r)
    then obtain first held2 where r: "registry_enter can_grow m held = Some (first, held2)" by (cases r) auto
    note e = enter_spec [OF ok small r]
    from app r have a: "got" "calls = (if first then [Os_Acquire_Ro m] else [])" "held' = held2"
      by (simp_all add: Acquire_Ro rrw_acquire_ro_def)
    then have "d' = (depth_of held)(m := depth_of held m + 1)" using spec by (simp add: Acquire_Ro)
    with e a show ?thesis by (auto simp: os_held_def)
  qed
next
  case (Try_Acquire_Ro m can_grow os_ok)
  obtain b held2 where b: "bump_if_held m held = (b, held2)" by force
  note s = bump_spec [OF ok small b]
  show ?thesis
  proof (cases b)
    case True
    with app b have a: "got" "calls = []" "held' = held2" by (simp_all add: Try_Acquire_Ro rrw_try_acquire_ro_def)
    then have "d' = (depth_of held)(m := depth_of held m + 1)" using spec by (simp add: Try_Acquire_Ro)
    with s a True show ?thesis by (auto simp: os_held_def)
  next
    case False
    then have z: "depth_of held m = 0" using s by simp
    show ?thesis
    proof (cases can_grow)
      case True
      with app b False have a: "got = os_ok" "calls = [Os_Try_Acquire_Ro m os_ok]"
        "held' = (if os_ok then note_first m held else held)"
        by (auto simp: Try_Acquire_Ro rrw_try_acquire_ro_def reserve_one_def)
      have "d' = (if os_ok then (depth_of held)(m := 1) else depth_of held)"
        using spec z a(1) by (auto simp: Try_Acquire_Ro)
      with a z note_first_spec [OF ok z] ok show ?thesis by (auto simp: os_held_def)
    next
      case False2: False
      with app b False have "\<not> got" "calls = []" "held' = held"
        by (auto simp: Try_Acquire_Ro rrw_try_acquire_ro_def reserve_one_def)
      with spec ok show ?thesis by (simp add: Try_Acquire_Ro)
    qed
  qed
next
  case (Release_Ro m)
  obtain was_last held2 where r: "registry_leave m held = (was_last, held2)" by force
  from app r have a: "calls = (if was_last then [Os_Release_Ro m] else [])" "held' = held2"
    by (auto simp: Release_Ro rrw_release_ro_def)
  from spec have d: "0 < depth_of held m" "d' = (depth_of held)(m := depth_of held m - 1)"
    by (auto simp: Release_Ro split: if_splits)
  from leave_spec [OF ok d(1) r] a d show ?thesis by (auto simp: os_held_def)
qed

lemma rrw_run_spec:
  assumes "registry_ok held" "\<And>m. depth_of held m + length xs < 2 ^ 32"
    and "spec_run xs held (depth_of held) = Some d" "rrw_run xs held = (calls, held')"
  shows "registry_ok held' \<and> depth_of held' = d \<and> os_apply calls (os_held (depth_of held)) = Some (os_held d)"
  using assms
proof (induction xs arbitrary: held calls)
  case (Cons x xs)
  obtain got c held1 where app: "rrw_apply x held = (got, c, held1)" by (metis prod_cases3)
  obtain c' where run: "rrw_run xs held1 = (c', held')" "calls = c @ c'"
    using Cons.prems(4) app by (auto split: prod.splits)
  obtain d1 where d1: "spec_apply x got (depth_of held) = Some d1" "spec_run xs held1 d1 = Some d"
    using Cons.prems(3) app by (auto split: option.splits)
  have small: "depth_of held m + 1 < 2 ^ 32" for m using Cons.prems(2) [of m] by simp
  note st = rrw_apply_step [OF Cons.prems(1) small app d1(1)]
  have "d1 m \<le> depth_of held m + 1" for m using d1(1) by (cases x) (auto split: if_splits)
  then have "depth_of held1 m + length xs < 2 ^ 32" for m
    using st Cons.prems(2) [of m] by (simp add: le_less_trans [of _ "depth_of held m + 1 + length xs"])
  moreover have "spec_run xs held1 (depth_of held1) = Some d" using st d1(2) by simp
  ultimately have "registry_ok held' \<and> depth_of held' = d \<and> os_apply c' (os_held (depth_of held1)) = Some (os_held d)"
    using st run(1) by (intro Cons.IH) simp_all
  with st show ?case by (simp add: run(2) os_apply_append)
qed simp

lemma registry_ok_Nil: "registry_ok []"
  by (simp add: registry_ok_def)

section \<open>Theorems\<close>

text \<open>C25. Reentrant reads collapse: however one thread nests, interleaves over any number of mutexes,
  tries, fails to try or runs out of memory, as long as it releases only what it holds, the operating
  system's read lock of a mutex is never acquired while the thread holds it (the documented hang
  behind a queued writer), never released without a hold, and is held exactly while the thread's
  depth on that mutex is positive.\<close>

theorem rrw_reads_nest:
  assumes "spec_run xs [] (\<lambda>_. 0) = Some d" and "length xs < 2 ^ 32"
  shows "os_apply (fst (rrw_run xs [])) {} = Some {m. 0 < d m} \<and> depth_of (snd (rrw_run xs [])) = d"
proof -
  obtain calls held' where r: "rrw_run xs [] = (calls, held')" by force
  have "depth_of [] = (\<lambda>_. 0)" by (simp add: fun_eq_iff)
  with assms rrw_run_spec [OF registry_ok_Nil _ _ r] show ?thesis by (simp add: r os_held_def)
qed

theorem rrw_reads_nest_witness:
  "os_apply (fst (rrw_run [Acquire_Ro 1 True, Acquire_Ro 2 True, Try_Acquire_Ro 1 True True, Release_Ro 1,
     Release_Ro 1] [])) {} = Some {m. 0 < (((\<lambda>_. 0)(1 := 1, 2 := 1))(1 := 2, 1 := 1, 1 := (0 :: nat))) m}"
  using rrw_reads_nest [of "[Acquire_Ro 1 True, Acquire_Ro 2 True, Try_Acquire_Ro 1 True True, Release_Ro 1, Release_Ro 1]"
      "((\<lambda>_. 0)(1 := 1, 2 := 1))(1 := 2, 1 := 1, 1 := 0)"]
  by (simp add: rrw_acquire_ro_def rrw_try_acquire_ro_def rrw_release_ro_def registry_leave_def leave_loop.simps Let_def
      fun_eq_iff)

text \<open>The debug tripwire of the non-recursive lock fires exactly on a nested read acquire by the
  same thread; only an outermost acquire can fail to allocate, and then nothing has changed; and an
  unmatched release leaves the registry alone and asks for no unlock.\<close>

theorem read_registry_tripwire:
  assumes "registry_ok held" and "depth_of held m + 1 < 2 ^ 32"
  shows "(case on_ro_acquire can_grow m held of
      None \<Rightarrow> \<not> can_grow \<and> depth_of held m = 0
    | Some (passes, held') \<Rightarrow> (passes \<longleftrightarrow> depth_of held m = 0) \<and> registry_ok held' \<and>
        depth_of held' = (depth_of held)(m := depth_of held m + 1)) \<and>
    (depth_of held m = 0 \<longrightarrow> registry_leave m held = (False, held))"
proof -
  have none: "registry_enter can_grow m held = None \<Longrightarrow> \<not> can_grow \<and> m \<notin> held_mutex ` set held" for held
    by (induction held) (auto split: if_splits)
  show ?thesis
    using none [of held] enter_spec [OF assms] leave_absent [OF assms(1)] depth_of_absent [of m held]
    by (auto simp: on_ro_acquire_def split: option.splits prod.splits)
qed

theorem read_registry_tripwire_witness:
  "on_ro_acquire True 7 [\<lparr>held_mutex = 7, depth = 1\<rparr>] = Some (False, [\<lparr>held_mutex = 7, depth = 2\<rparr>]) \<and>
   registry_leave 8 [\<lparr>held_mutex = 7, depth = 1\<rparr>] = (False, [\<lparr>held_mutex = 7, depth = 1\<rparr>])"
  using read_registry_tripwire [of "[\<lparr>held_mutex = 7, depth = 1\<rparr>]" 7 True]
    read_registry_tripwire [of "[\<lparr>held_mutex = 7, depth = 1\<rparr>]" 8 True]
  by (simp add: registry_ok_def on_ro_acquire_def)

end
