(* ===== verification/HwConcurrency.thy ===== *)
theory HwConcurrency
  imports Prelude
begin

text \<open>
  The number of processors (threading/hardware_concurrency.cpp) under container limits: the lookup of
  the process's cgroup and of the CPU quotas along its branch, in both cgroup hierarchies. The file
  system is a parameter, a map from paths to contents; a C string is a list of characters up to its
  terminator. \<open>strtol\<close> and \<open>atoi\<close> are the C library's, with \<open>atoi\<close> narrowing as glibc does.
\<close>

section \<open>C strings\<close>

definition c_string :: "string \<Rightarrow> string" where
  "c_string bytes = takeWhile (\<lambda>c. c \<noteq> CHR 0x00) bytes"

fun strchr :: "char \<Rightarrow> string \<Rightarrow> nat option" where
  "strchr c [] = None"
| "strchr c (x # xs) = (if x = c then Some 0 else map_option Suc (strchr c xs))"

fun strrchr :: "char \<Rightarrow> string \<Rightarrow> nat option" where
  "strrchr c [] = None"
| "strrchr c (x # xs) = (case strrchr c xs of Some k \<Rightarrow> Some (Suc k) | None \<Rightarrow> if x = c then Some 0 else None)"

definition is_space :: "char \<Rightarrow> bool" where
  "is_space c \<longleftrightarrow> c = CHR 0x20 \<or> (9 \<le> (of_char c :: nat) \<and> (of_char c :: nat) \<le> 13)"

definition is_digit :: "char \<Rightarrow> bool" where
  "is_digit c \<longleftrightarrow> 48 \<le> (of_char c :: nat) \<and> (of_char c :: nat) \<le> 57"

definition LONG_MAX :: int where
  "LONG_MAX = 2 ^ 63 - 1"

text \<open>The value and what is left of the string; with no digits the whole string is left.\<close>

definition strtol :: "string \<Rightarrow> int \<times> string" where
  "strtol s =
     (let t = dropWhile is_space s;
          negative = (t \<noteq> [] \<and> hd t = CHR 0x2D);
          u = (if t \<noteq> [] \<and> (hd t = CHR 0x2D \<or> hd t = CHR 0x2B) then tl t else t);
          magnitude = foldl (\<lambda>n d. 10 * n + (of_char d - 48)) 0 (takeWhile is_digit u)
      in if takeWhile is_digit u = [] then (0, s)
         else (if negative then max (- magnitude) (- LONG_MAX - 1) else min magnitude LONG_MAX, dropWhile is_digit u))"

definition atoi :: "string \<Rightarrow> int" where
  "atoi s = signed_take_bit 31 (fst (strtol s))"

section \<open>Reading the cgroup files\<close>

type_synonym files = "string \<Rightarrow> string option"

definition path_size :: nat where
  "path_size = 512"

definition read_text :: "files \<Rightarrow> string \<Rightarrow> nat \<Rightarrow> string option" where
  "read_text fs file_path buffer_size =
     (case fs file_path of None \<Rightarrow> None
      | Some content \<Rightarrow> if take (buffer_size - 1) content = [] then None
                        else Some (c_string (take (buffer_size - 1) content)))"

definition read_int :: "files \<Rightarrow> string \<Rightarrow> int" where
  "read_int fs file_path = (case read_text fs file_path 64 of None \<Rightarrow> - 1 | Some v \<Rightarrow> atoi v)"

text \<open>\<open>long\<close> and \<open>int\<close> are 64 and 32 bits; the sum is below \<open>LONG_MAX\<close> for any quota the kernel
  reports, where the C++ addition is defined.\<close>

definition cpus_from_quota :: "int \<Rightarrow> int \<Rightarrow> int" where
  "cpus_from_quota quota period =
     (if quota \<le> 0 \<or> period \<le> 0 then - 1
      else max (signed_take_bit 31 ((quota + period div 2) div period)) 1)"

definition read_quota_v2 :: "files \<Rightarrow> string \<Rightarrow> int" where
  "read_quota_v2 fs dir =
     (case read_text fs (take (path_size - 1) (dir @ ''/cpu.max'')) 128 of None \<Rightarrow> - 1
      | Some value_pair \<Rightarrow>
          (let (quota, period_ptr) = strtol value_pair
           in if period_ptr = value_pair then - 1 else cpus_from_quota quota (fst (strtol period_ptr))))"

definition read_quota_v1 :: "files \<Rightarrow> string \<Rightarrow> int" where
  "read_quota_v1 fs dir =
     cpus_from_quota (read_int fs (take (path_size - 1) (dir @ ''/cpu.cfs_quota_us'')))
                     (read_int fs (take (path_size - 1) (dir @ ''/cpu.cfs_period_us'')))"

definition read_quota :: "files \<Rightarrow> bool \<Rightarrow> string \<Rightarrow> int" where
  "read_quota fs v2 dir = (if v2 then read_quota_v2 fs dir else read_quota_v1 fs dir)"

lemma strrchr_None: "strrchr c s = None \<longleftrightarrow> c \<notin> set s"
  by (induction s) (auto split: option.splits)

lemma strrchr_SomeD: "strrchr c s = Some k \<Longrightarrow> k < length s \<and> s ! k = c \<and> c \<notin> set (drop (k + 1) s)"
proof (induction s arbitrary: k)
  case (Cons x xs)
  then show ?case by (cases "strrchr c xs") (auto simp: strrchr_None split: if_splits)
qed simp

function scan_loop :: "files \<Rightarrow> nat \<Rightarrow> bool \<Rightarrow> int \<Rightarrow> string \<Rightarrow> int" where
  "scan_loop fs root_len v2 limit dir =
     (let quota = read_quota fs v2 dir;
          limit' = (if quota > 0 then (if limit = - 1 then quota else min limit quota) else limit)
      in if length dir \<le> root_len then limit'
         else case strrchr CHR 0x2F (drop root_len dir) of None \<Rightarrow> limit'
              | Some k \<Rightarrow> scan_loop fs root_len v2 limit' (take (root_len + k) dir))"
  by pat_completeness auto
termination
  by (relation "measure (\<lambda>(fs, root_len, v2, limit, dir). length dir)") (auto dest: strrchr_SomeD)

definition scan_branch :: "files \<Rightarrow> string \<Rightarrow> nat \<Rightarrow> bool \<Rightarrow> int" where
  "scan_branch fs dir root_len v2 = scan_loop fs root_len v2 (- 1) dir"

text \<open>\<open>entry\<close> is the text from the current entry on, \<open>n\<close> the characters before \<open>end\<close>.\<close>

function has_cpu_controller :: "string \<Rightarrow> nat \<Rightarrow> bool" where
  "has_cpu_controller entry n =
     (if 0 < n then
        let entry_end = (case strchr CHR 0x2C entry of None \<Rightarrow> n | Some k \<Rightarrow> if k > n then n else k)
        in if entry_end = 3 \<and> take 3 entry = ''cpu'' then True
           else has_cpu_controller (drop (entry_end + 1) entry) (n - (entry_end + 1))
      else False)"
  by pat_completeness auto
termination by (relation "measure snd") auto

function self_cgroup_loop :: "string \<Rightarrow> bool \<Rightarrow> nat \<Rightarrow> string" where
  "self_cgroup_loop line v2 buffer_size =
     (if line = [] then []
      else
        let eol = strchr CHR 0x0A line;
            line_end = (case eol of Some k \<Rightarrow> k | None \<Rightarrow> length line);
            field2 = strchr CHR 0x3A line;
            field3 = (case field2 of Some f \<Rightarrow> if f < line_end
                        then map_option (\<lambda>k. f + 1 + k) (strchr CHR 0x3A (drop (f + 1) line)) else None
                      | None \<Rightarrow> None);
            next_line = (case eol of Some k \<Rightarrow> drop (k + 1) line | None \<Rightarrow> [])
        in case (field2, field3) of
             (Some f2, Some f3) \<Rightarrow>
               if f3 < line_end \<and> (if v2 then f2 + 1 = f3 else has_cpu_controller (drop (f2 + 1) line) (f3 - (f2 + 1)))
               then let out = take (min (line_end - f3 - 1) (buffer_size - 1)) (drop (f3 + 1) line)
                    in if out = ''/'' then [] else out
               else self_cgroup_loop next_line v2 buffer_size
           | _ \<Rightarrow> self_cgroup_loop next_line v2 buffer_size)"
  by pat_completeness auto
termination
  by (relation "measure (\<lambda>(line, v2, buffer_size). length line)") (auto split: option.splits)

definition self_cgroup :: "string \<Rightarrow> bool \<Rightarrow> nat \<Rightarrow> string" where
  "self_cgroup proc_self_cgroup v2 buffer_size = self_cgroup_loop proc_self_cgroup v2 buffer_size"

definition v2_root :: string where
  "v2_root = ''/sys/fs/cgroup''"

definition v1_root :: string where
  "v1_root = ''/sys/fs/cgroup/cpu''"

definition get_docker_limit :: "files \<Rightarrow> int" where
  "get_docker_limit fs =
     (let proc_self = (case read_text fs ''/proc/self/cgroup'' 1024 of None \<Rightarrow> [] | Some t \<Rightarrow> t);
          v2_limit = scan_branch fs (v2_root @ self_cgroup proc_self True path_size) (length v2_root) True;
          v1_limit = scan_branch fs (v1_root @ self_cgroup proc_self False path_size) (length v1_root) False
      in if v2_limit = - 1 then v1_limit else if v1_limit = - 1 then v2_limit else min v2_limit v1_limit)"

section \<open>The results\<close>

text \<open>\<open>nprocs\<close>: what \<open>get_nprocs_conf\<close> or \<open>get_nprocs\<close> returns.\<close>

definition get_hardware_concurrency_max :: "int \<Rightarrow> int \<Rightarrow> 'h::len word" where
  "get_hardware_concurrency_max docker_quota nprocs_conf =
     of_int (if docker_quota \<noteq> - 1 then docker_quota else nprocs_conf)"

definition hardware_concurrency_current :: "int \<Rightarrow> int \<Rightarrow> 'h::len word" where
  "hardware_concurrency_current docker_quota nprocs =
     of_int (if docker_quota \<noteq> - 1 then docker_quota else nprocs)"

section \<open>The walk up a branch\<close>

declare scan_loop.simps [simp del] has_cpu_controller.simps [simp del] self_cgroup_loop.simps [simp del]

text \<open>A directory and its ancestors down to the mount point, which is its first \<open>root_len\<close> characters.\<close>

definition branch_dirs :: "nat \<Rightarrow> string \<Rightarrow> string set" where
  "branch_dirs root_len dir = insert dir {take k dir |k. root_len \<le> k \<and> k < length dir \<and> dir ! k = CHR 0x2F}"

text \<open>The most restrictive of some quotas; -1 for none.\<close>

definition positives :: "int set \<Rightarrow> int set" where
  "positives Q = {q \<in> Q. 0 < q}"

definition tightest :: "int set \<Rightarrow> int" where
  "tightest Q = (if positives Q = {} then - 1 else Min (positives Q))"

lemma positives_simps [simp]:
  "positives {} = {}"
  "positives (insert a Q) = (if 0 < a then insert a (positives Q) else positives Q)"
  "positives (Q \<union> R) = positives Q \<union> positives R"
  "finite Q \<Longrightarrow> finite (positives Q)"
  by (auto simp: positives_def)

lemma Min_positive: "finite Q \<Longrightarrow> positives Q \<noteq> {} \<Longrightarrow> 0 < Min (positives Q)"
  using Min_in [of "positives Q"] by (auto simp: positives_def)

lemma tightest_insert:
  assumes "finite A" "finite B"
  shows "tightest (insert (tightest A) B) = tightest (A \<union> B)"
proof (cases "positives A = {}")
  case True
  then show ?thesis by (simp add: tightest_def)
next
  case False
  have "Min (insert (Min (positives A)) (positives B)) = Min (positives A \<union> positives B)"
    using False assms by (cases "positives B = {}") (simp_all add: Min_Un)
  then show ?thesis using False Min_positive [OF assms(1)] by (simp add: tightest_def)
qed

lemma tightest_step:
  "limit = - 1 \<or> 0 < limit \<Longrightarrow>
   (if quota > 0 then (if limit = - 1 then quota else min limit quota) else limit) = tightest {limit, quota}"
  by (auto simp: tightest_def)

lemma tightest_range: "finite Q \<Longrightarrow> tightest Q = - 1 \<or> 0 < tightest Q"
  using Min_positive by (auto simp: tightest_def)

lemma finite_branch_dirs: "finite (branch_dirs root_len dir)"
proof -
  have "branch_dirs root_len dir \<subseteq> insert dir ((\<lambda>k. take k dir) ` {..<length dir})"
    by (auto simp: branch_dirs_def)
  then show ?thesis by (rule finite_subset) simp
qed

lemma branch_dirs_leaf:
  assumes "length dir \<le> root_len \<or> CHR 0x2F \<notin> set (drop root_len dir)"
  shows "branch_dirs root_len dir = {dir}"
proof -
  have False if "root_len \<le> k" "k < length dir" "dir ! k = CHR 0x2F" for k
  proof -
    have "drop root_len dir ! (k - root_len) = CHR 0x2F" "k - root_len < length (drop root_len dir)"
      using that by simp_all
    then have "CHR 0x2F \<in> set (drop root_len dir)" by (metis nth_mem)
    with assms that show False by auto
  qed
  then show ?thesis by (auto simp: branch_dirs_def)
qed

lemma branch_dirs_parent:
  assumes "strrchr CHR 0x2F (drop root_len dir) = Some k"
  shows "branch_dirs root_len dir = insert dir (branch_dirs root_len (take (root_len + k) dir))"
proof -
  note d = strrchr_SomeD [OF assms]
  have k: "root_len + k < length dir" "dir ! (root_len + k) = CHR 0x2F" using d by auto
  have upto: "j \<le> root_len + k" if "j < length dir" "dir ! j = CHR 0x2F" for j
  proof (rule ccontr)
    assume "\<not> j \<le> root_len + k"
    then have "drop (k + 1) (drop root_len dir) ! (j - (root_len + k + 1)) = dir ! j"
      "j - (root_len + k + 1) < length (drop (k + 1) (drop root_len dir))" using that by (auto simp: add.commute)
    with that(2) d show False by (metis nth_mem)
  qed
  have "{take j dir |j. root_len \<le> j \<and> j < length dir \<and> dir ! j = CHR 0x2F} =
      insert (take (root_len + k) dir) {take j (take (root_len + k) dir) |j. root_len \<le> j \<and>
        j < length (take (root_len + k) dir) \<and> take (root_len + k) dir ! j = CHR 0x2F}" (is "?L = ?R")
  proof
    show "?L \<subseteq> ?R"
    proof
      fix x assume "x \<in> ?L"
      then obtain j where j: "x = take j dir" "root_len \<le> j" "j < length dir" "dir ! j = CHR 0x2F" by auto
      with upto [OF j(3,4)] show "x \<in> ?R" by (cases "j = root_len + k") (auto simp: min_def)
    qed
    show "?R \<subseteq> ?L" using k by (force simp: min_def)
  qed
  then show ?thesis by (simp add: branch_dirs_def)
qed

lemma scan_loop_spec:
  "limit = - 1 \<or> 0 < limit \<Longrightarrow>
   scan_loop fs root_len v2 limit dir = tightest (insert limit (read_quota fs v2 ` branch_dirs root_len dir))"
proof (induction fs root_len v2 limit dir rule: scan_loop.induct)
  case (1 fs root_len v2 limit dir)
  let ?q = "read_quota fs v2 dir" and ?l = "tightest {limit, read_quota fs v2 dir}"
  note step = tightest_step [OF "1.prems", of ?q]
  show ?case
  proof (cases "length dir \<le> root_len \<or> CHR 0x2F \<notin> set (drop root_len dir)")
    case True
    have "scan_loop fs root_len v2 limit dir = ?l"
      using True by (subst scan_loop.simps, unfold Let_def step)
        (auto split: option.splits dest: strrchr_SomeD intro: nth_mem simp: strrchr_None [symmetric])
    then show ?thesis by (simp add: branch_dirs_leaf [OF True])
  next
    case False
    then obtain k where k: "strrchr CHR 0x2F (drop root_len dir) = Some k" by (auto simp: strrchr_None [symmetric])
    let ?d = "take (root_len + k) dir"
    have "scan_loop fs root_len v2 limit dir = scan_loop fs root_len v2 ?l ?d"
      using False k by (subst scan_loop.simps, unfold Let_def step) simp
    also have "\<dots> = tightest (insert ?l (read_quota fs v2 ` branch_dirs root_len ?d))"
      using "1.IH" [OF refl refl _ k] False tightest_range [of "{limit, ?q}"] by (simp only: step) simp
    also have "\<dots> = tightest ({limit, ?q} \<union> read_quota fs v2 ` branch_dirs root_len ?d)"
      by (rule tightest_insert) (simp_all add: finite_branch_dirs)
    finally show ?thesis by (simp add: branch_dirs_parent [OF k])
  qed
qed

lemma tightest_minus_1: "tightest (insert (- 1) Q) = tightest Q"
  by (simp add: tightest_def)

lemma scan_branch_spec: "scan_branch fs dir root_len v2 = tightest (read_quota fs v2 ` branch_dirs root_len dir)"
  by (simp add: scan_branch_def scan_loop_spec tightest_minus_1)

section \<open>The process's own cgroup\<close>

fun split_at_char :: "char \<Rightarrow> string \<Rightarrow> string list" where
  "split_at_char c [] = [[]]"
| "split_at_char c (x # xs) =
     (if x = c then [] # split_at_char c xs
      else case split_at_char c xs of [] \<Rightarrow> [[x]] | y # ys \<Rightarrow> (x # y) # ys)"

lemma split_at_char_none: "c \<notin> set s \<Longrightarrow> split_at_char c s = [s]"
  by (induction s) auto

lemma split_at_char_append: "c \<notin> set s \<Longrightarrow> split_at_char c (s @ c # t) = s # split_at_char c t"
  by (induction s) auto

lemma strchr_None: "strchr c s = None \<longleftrightarrow> c \<notin> set s"
  by (induction s) auto

lemma strchr_SomeD: "strchr c s = Some k \<Longrightarrow> k < length s \<and> s = take k s @ c # drop (k + 1) s \<and> c \<notin> set (take k s)"
  by (induction s arbitrary: k) (auto split: if_splits)

lemma strchr_take:
  assumes "strchr c s = Some k" "k < n"
  shows "c \<in> set (take n s)"
proof -
  note d = strchr_SomeD [OF assms(1)]
  then have "s ! k = c" by (metis length_take min.absorb2 less_imp_le_nat nth_append_length)
  then show ?thesis using assms(2) d by (metis in_set_conv_nth length_take min_less_iff_conj nth_take)
qed

lemma strchr_first: "c \<notin> set s \<Longrightarrow> strchr c (s @ c # t) = Some (length s)"
  by (induction s) auto

lemma cpu_prefix: "n \<le> length s \<Longrightarrow> take n s = ''cpu'' \<longleftrightarrow> n = 3 \<and> take 3 s = ''cpu''"
proof
  assume "n \<le> length s" "take n s = ''cpu''"
  then have "length (take n s) = 3" by simp
  then have "n = 3" using \<open>n \<le> length s\<close> by simp
  with \<open>take n s = ''cpu''\<close> show "n = 3 \<and> take 3 s = ''cpu''" by simp
qed auto

lemma take_past: "length xs < n \<Longrightarrow> take n (xs @ c # ys) = xs @ c # take (n - (length xs + 1)) ys"
  by (cases "n - length xs") (auto simp: diff_Suc split: nat.splits)

lemma has_cpu_controller_spec:
  "n \<le> length entry \<Longrightarrow> has_cpu_controller entry n \<longleftrightarrow> ''cpu'' \<in> set (split_at_char CHR 0x2C (take n entry))"
proof (induction entry n rule: has_cpu_controller.induct)
  case (1 entry n)
  show ?case
  proof (cases "0 < n")
    case False
    then show ?thesis by (simp add: has_cpu_controller.simps)
  next
    case True
    let ?k = "strchr CHR 0x2C entry"
    let ?e = "case ?k of None \<Rightarrow> n | Some k \<Rightarrow> if k > n then n else k"
    have unfolded: "has_cpu_controller entry n \<longleftrightarrow>
        ?e = 3 \<and> take 3 entry = ''cpu'' \<or> has_cpu_controller (drop (?e + 1) entry) (n - (?e + 1))"
      using True by (subst has_cpu_controller.simps) (simp only: if_True Let_def simp_thms split: if_split, blast)
    show ?thesis
    proof (cases "CHR 0x2C \<in> set (take n entry)")
      case False
      have e: "?e = n"
      proof (cases ?k)
        case (Some k)
        have "\<not> k < n"
          using strchr_take [OF Some, of n] False by blast
        then show ?thesis by (simp add: Some)
      qed simp
      have "has_cpu_controller (drop (n + 1) entry) (n - (n + 1)) = False"
        by (simp add: has_cpu_controller.simps)
      then have "has_cpu_controller entry n \<longleftrightarrow> take n entry = ''cpu''"
        using unfolded cpu_prefix [OF "1.prems"] unfolding e by auto
      then show ?thesis by (auto simp: split_at_char_none [OF False])
    next
      case comma: True
      then have "CHR 0x2C \<in> set entry" by (meson in_set_takeD)
      then obtain k where k: "?k = Some k" by (metis not_Some_eq strchr_None)
      note d = strchr_SomeD [OF k]
      have kn: "k < n"
      proof (rule ccontr)
        assume "\<not> k < n"
        then have "set (take n entry) \<subseteq> set (take k entry)" by (simp add: set_take_subset_set_take)
        with comma d show False by blast
      qed
      then have e: "?e = k" by (simp add: k)
      have lk: "length (take k entry) = k" using d by simp
      have "take n entry = take n (take k entry @ CHR 0x2C # drop (k + 1) entry)" using d by metis
      also have "\<dots> = take k entry @ CHR 0x2C # take (n - (k + 1)) (drop (k + 1) entry)"
        using kn lk by (subst take_past) (simp_all only: lk)
      finally have t: "take n entry = take k entry @ CHR 0x2C # take (n - (k + 1)) (drop (k + 1) entry)" .
      have "?e = 3 \<and> take 3 entry = ''cpu'' \<longleftrightarrow> take k entry = ''cpu''"
        using cpu_prefix [of k entry] kn "1.prems" unfolding e by auto
      moreover have "has_cpu_controller (drop (k + 1) entry) (n - (k + 1)) \<longleftrightarrow>
          ''cpu'' \<in> set (split_at_char CHR 0x2C (take (n - (k + 1)) (drop (k + 1) entry)))"
        if "\<not> (k = 3 \<and> take 3 entry = ''cpu'')"
        using "1.IH" [OF True refl] that "1.prems" unfolding e by simp
      ultimately show ?thesis using unfolded d unfolding e t
        by (auto simp: split_at_char_append)
    qed
  qed
qed

text \<open>The lines of \<open>/proc/self/cgroup\<close>: hierarchy id, controllers, path.\<close>

type_synonym cgroup_line = "string \<times> string \<times> string"

definition render_line :: "cgroup_line \<Rightarrow> string" where
  "render_line l = (case l of (i, controllers, path) \<Rightarrow>
     i @ CHR 0x3A # controllers @ CHR 0x3A # path @ [CHR 0x0A])"

definition proper_line :: "cgroup_line \<Rightarrow> bool" where
  "proper_line l \<longleftrightarrow> (case l of (i, controllers, path) \<Rightarrow>
     CHR 0x3A \<notin> set (i @ controllers) \<and> CHR 0x0A \<notin> set (i @ controllers @ path))"

definition line_matches :: "bool \<Rightarrow> cgroup_line \<Rightarrow> bool" where
  "line_matches v2 l \<longleftrightarrow> (case l of (i, controllers, path) \<Rightarrow>
     if v2 then controllers = [] else ''cpu'' \<in> set (split_at_char CHR 0x2C controllers))"

definition own_cgroup :: "cgroup_line list \<Rightarrow> bool \<Rightarrow> string" where
  "own_cgroup ls v2 = (case find (line_matches v2) ls of None \<Rightarrow> []
     | Some (i, controllers, path) \<Rightarrow> (let out = take (path_size - 1) path in if out = ''/'' then [] else out))"

lemma self_cgroup_loop_step:
  assumes "line \<noteq> []" "strchr CHR 0x0A line = Some e" "strchr CHR 0x3A line = Some f" "f < e"
    and "strchr CHR 0x3A (drop (f + 1) line) = Some k" "f + 1 + k < e"
    and "(if v2 then f + 1 = f + 1 + k else has_cpu_controller (drop (f + 1) line) (f + 1 + k - (f + 1))) = matches"
    and "take (min (e - (f + 1 + k) - 1) (buffer_size - 1)) (drop (f + 1 + k + 1) line) = out"
    and "drop (e + 1) line = rest"
  shows "self_cgroup_loop line v2 buffer_size =
    (if matches then if out = ''/'' then [] else out else self_cgroup_loop rest v2 buffer_size)"
  using assms(1-6) unfolding assms(7-9) [symmetric]
  by (subst self_cgroup_loop.simps) (simp only: if_False if_True option.case option.map Let_def prod.case simp_thms)

lemma self_cgroup_line:
  assumes "proper_line l"
  shows "self_cgroup_loop (render_line l @ rest) v2 path_size =
    (if line_matches v2 l then own_cgroup [l] v2 else self_cgroup_loop rest v2 path_size)"
proof -
  obtain i c p where l: "l = (i, c, p)" by (cases l) auto
  have i: "CHR 0x3A \<notin> set i" and c: "CHR 0x3A \<notin> set c" and nl: "CHR 0x0A \<notin> set (i @ CHR 0x3A # c @ CHR 0x3A # p)"
    using assms by (auto simp: proper_line_def l)
  let ?line = "i @ CHR 0x3A # c @ CHR 0x3A # p @ CHR 0x0A # rest"
  let ?eol = "length i + length c + length p + 2"
  have r: "render_line l @ rest = ?line" by (simp add: render_line_def l)
  have eol: "strchr CHR 0x0A ?line = Some ?eol"
    using strchr_first [OF nl, of rest] by simp
  have f2: "strchr CHR 0x3A ?line = Some (length i)" using strchr_first [OF i] by simp
  have f3: "strchr CHR 0x3A (drop (length i + 1) ?line) = Some (length c)" using strchr_first [OF c] by simp
  have cpu: "has_cpu_controller (drop (length i + 1) ?line) (length i + 1 + length c - (length i + 1))
      \<longleftrightarrow> ''cpu'' \<in> set (split_at_char CHR 0x2C c)"
    by (subst has_cpu_controller_spec) simp_all
  have rest: "drop (?eol + 1) ?line = rest"
    using append_eq_conv_conj [of "i @ CHR 0x3A # c @ CHR 0x3A # p @ [CHR 0x0A]" rest ?line]
    by (simp add: algebra_simps del: append_eq_conv_conj)
  have out: "take (min (?eol - (length i + 1 + length c) - 1) (path_size - 1)) (drop (length i + 1 + length c + 1) ?line)
      = take (path_size - 1) p"
    by (simp add: min_def)
  have m: "(if v2 then length i + 1 = length i + 1 + length c else
        has_cpu_controller (drop (length i + 1) ?line) (length i + 1 + length c - (length i + 1))) = line_matches v2 l"
    unfolding cpu by (simp add: line_matches_def l)
  have "self_cgroup_loop ?line v2 path_size = (if line_matches v2 l
      then if take (path_size - 1) p = ''/'' then [] else take (path_size - 1) p
      else self_cgroup_loop rest v2 path_size)"
    by (rule self_cgroup_loop_step [OF _ eol f2 _ f3 _ m out rest]) simp_all
  then show ?thesis unfolding r by (simp add: own_cgroup_def l Let_def)
qed

lemma self_cgroup_spec:
  assumes "\<forall>l\<in>set ls. proper_line l"
  shows "self_cgroup (concat (map render_line ls)) v2 path_size = own_cgroup ls v2"
  using assms
proof (induction ls)
  case Nil
  then show ?case by (simp add: self_cgroup_def self_cgroup_loop.simps own_cgroup_def)
next
  case (Cons l ls)
  then show ?case by (auto simp: self_cgroup_def self_cgroup_line own_cgroup_def)
qed

section \<open>Both hierarchies\<close>

lemma tightest_two:
  assumes "finite A" "finite B"
  shows "(if tightest A = - 1 then tightest B else if tightest B = - 1 then tightest A
     else min (tightest A) (tightest B)) = tightest (A \<union> B)"
proof -
  have "tightest A = - 1 \<longleftrightarrow> positives A = {}" if "finite A" for A
    using Min_positive [OF that] by (cases "positives A = {}") (auto simp: tightest_def)
  then show ?thesis using assms by (auto simp: tightest_def Min_Un)
qed

lemma read_text_prefix:
  assumes "take 1023 c = take 1023 c'" "b \<le> 1024"
  shows "read_text (fs(p := Some c)) x b = read_text (fs(p := Some c')) x b"
proof -
  have "take (b - 1) (take 1023 c) = take (b - 1) (take 1023 c')" using assms(1) by simp
  moreover have "min (b - 1) 1023 = b - 1" using assms(2) by simp
  ultimately have "take (b - 1) c = take (b - 1) c'" by (simp only: take_take)
  then show ?thesis
    by (cases "x = p") (simp only: read_text_def fun_upd_same option.case, simp add: read_text_def)
qed

lemma read_quota_prefix:
  assumes "take 1023 c = take 1023 c'"
  shows "read_quota (fs(p := Some c)) v2 dir = read_quota (fs(p := Some c')) v2 dir"
  by (simp add: read_quota_def read_quota_v2_def read_quota_v1_def read_int_def read_text_prefix [OF assms])

lemma get_docker_limit_prefix:
  assumes "take 1023 c = take 1023 c'"
  shows "get_docker_limit (fs(p := Some c)) = get_docker_limit (fs(p := Some c'))"
proof -
  have "scan_branch (fs(p := Some c)) dir n v2 = scan_branch (fs(p := Some c')) dir n v2" for dir n v2
    unfolding scan_branch_spec
    by (rule arg_cong [where f = tightest], rule image_cong [OF refl], rule read_quota_prefix [OF assms])
  then show ?thesis by (simp add: get_docker_limit_def read_text_prefix [OF assms])
qed

lemma c_string_clean: "CHR 0x00 \<notin> set s \<Longrightarrow> c_string s = s"
  unfolding c_string_def by (subst takeWhile_eq_all_conv) auto

definition limit_dirs :: "bool \<Rightarrow> cgroup_line list \<Rightarrow> string set" where
  "limit_dirs v2 ls = (let root = (if v2 then v2_root else v1_root) in branch_dirs (length root) (root @ own_cgroup ls v2))"


section \<open>Theorems\<close>

text \<open>The rounding of a CPU quota: a positive quota yields at least one processor and otherwise the
  nearest whole number (halves up); no quota yields -1.\<close>

theorem cpus_from_quota_rounds:
  assumes "quota \<le> LONG_MAX - period" and "quota div period < 2 ^ 31 - 1"
  shows "if quota \<le> 0 \<or> period \<le> 0 then cpus_from_quota quota period = - 1
    else 1 \<le> cpus_from_quota quota period \<and>
      quota + period div 2 < (cpus_from_quota quota period + 1) * period \<and>
      (cpus_from_quota quota period = 1 \<or> cpus_from_quota quota period * period \<le> quota + period div 2)"
proof (cases "quota \<le> 0 \<or> period \<le> 0")
  case True
  then show ?thesis by (simp add: cpus_from_quota_def)
next
  case False
  let ?c = "(quota + period div 2) div period"
  have c: "0 \<le> ?c" using False by (simp add: pos_imp_zdiv_nonneg_iff)
  have "?c \<le> (quota + period) div period" using False by (intro zdiv_mono1) presburger+
  also have "(quota + period) div period = quota div period + 1"
    using False by (intro div_add_self2) linarith
  also have "\<dots> < 2 ^ 31" using assms(2) by simp
  finally have "signed_take_bit 31 ?c = ?c" using c by (intro signed_take_bit_int_eq_self) simp_all
  then have r: "cpus_from_quota quota period = max ?c 1" using False by (simp add: cpus_from_quota_def)
  have "quota + period div 2 = ?c * period + (quota + period div 2) mod period"
    "(quota + period div 2) mod period < period" "0 \<le> (quota + period div 2) mod period"
    using False by simp_all
  then have lo: "?c * period \<le> quota + period div 2" and "quota + period div 2 < (?c + 1) * period"
    by (simp_all only: distrib_right)
  note this(2)
  also have "(?c + 1) * period \<le> (max ?c 1 + 1) * period" using False by (intro mult_right_mono) simp_all
  finally have "quota + period div 2 < (max ?c 1 + 1) * period" .
  moreover have "max ?c 1 = 1 \<or> max ?c 1 * period \<le> quota + period div 2" using lo by (cases "?c \<le> 1") simp_all
  ultimately show ?thesis using False unfolding r by simp
qed


theorem cpus_from_quota_rounds_witness: "cpus_from_quota 150000 100000 = 2"
proof -
  have "1 < cpus_from_quota 150000 100000 \<and> (cpus_from_quota 150000 100000 = 1 \<or> cpus_from_quota 150000 100000 \<le> 2)"
    using cpus_from_quota_rounds [of 150000 100000] by (simp add: LONG_MAX_def) linarith
  then show ?thesis by linarith
qed

text \<open>C28. For a well-formed \<open>/proc/self/cgroup\<close> that fits the buffer, the limit is the most
  restrictive quota on the process's own branch, every ancestor directory up to the mount point
  included, in either hierarchy, and -1 when none of them carries a quota. The branch is the one of
  the first line with no controllers (v2) or with \<open>cpu\<close> as a whole controller name (v1). The walk
  ends for every path.\<close>

theorem docker_limit_correct:
  assumes "\<forall>l\<in>set ls. proper_line l" and "fs ''/proc/self/cgroup'' = Some (concat (map render_line ls))"
    and "length (concat (map render_line ls)) \<le> 1023" and "CHR 0x00 \<notin> set (concat (map render_line ls))"
  shows "get_docker_limit fs =
    tightest (read_quota fs True ` limit_dirs True ls \<union> read_quota fs False ` limit_dirs False ls)"
proof -
  let ?t = "concat (map render_line ls)"
  have "(case read_text fs ''/proc/self/cgroup'' 1024 of None \<Rightarrow> [] | Some t \<Rightarrow> t) = ?t"
    using assms(2-4) c_string_clean [of ?t] by (simp add: read_text_def)
  then have "get_docker_limit fs =
    (let v2 = tightest (read_quota fs True ` limit_dirs True ls);
         v1 = tightest (read_quota fs False ` limit_dirs False ls)
     in if v2 = - 1 then v1 else if v1 = - 1 then v2 else min v2 v1)"
    by (simp add: get_docker_limit_def scan_branch_spec limit_dirs_def self_cgroup_spec [OF assms(1)])
  then show ?thesis unfolding Let_def
    by (subst tightest_two [symmetric]) (simp_all add: limit_dirs_def finite_branch_dirs Let_def)
qed

text \<open>A container two levels below the mount point: 2 CPUs on the inner directory, 1.5 on the outer.\<close>

definition nested_files :: files where
  "nested_files p =
     (if p = ''/proc/self/cgroup'' then Some (concat (map render_line [(''0'', [], ''/a/b'')]))
      else if p = ''/sys/fs/cgroup/a/b/cpu.max'' then Some ''max 100000''
      else if p = ''/sys/fs/cgroup/a/cpu.max'' then Some ''150000 100000'' else None)"

theorem docker_limit_correct_witness:
  "get_docker_limit nested_files =
     tightest (read_quota nested_files True ` limit_dirs True [(''0'', [], ''/a/b'')] \<union>
       read_quota nested_files False ` limit_dirs False [(''0'', [], ''/a/b'')])"
  by (rule docker_limit_correct) (simp_all add: proper_line_def nested_files_def render_line_def)

text \<open>Only the first 1023 bytes of \<open>/proc/self/cgroup\<close> are looked at: whatever follows them, the
  line of the \<open>cpu\<close> controller included, has no influence, so a process whose line comes later is
  given the limit of the mount point (or none).\<close>

theorem docker_limit_truncates:
  assumes "1023 \<le> length shown"
  shows "get_docker_limit (fs(''/proc/self/cgroup'' := Some (shown @ hidden))) =
    get_docker_limit (fs(''/proc/self/cgroup'' := Some shown))"
  by (rule get_docker_limit_prefix) (use assms in simp)

theorem docker_limit_truncates_witness:
  "get_docker_limit (nested_files(''/proc/self/cgroup'' := Some (replicate 1023 CHR 0x0A @ ''0::/a/b''))) =
   get_docker_limit (nested_files(''/proc/self/cgroup'' := Some (replicate 1023 CHR 0x0A)))"
  by (rule docker_limit_truncates) simp

text \<open>The processor count is narrowed to \<open>hardware_concurrency_t\<close>: exact while it fits, but with the
  8-bit type of ARM builds a machine of 256 processors counts as none.\<close>

theorem hardware_concurrency_narrows:
  assumes "0 < n" and "n < 2 ^ LENGTH('h)"
  shows "uint (get_hardware_concurrency_max (- 1) n :: 'h::len word) = n \<and>
    uint (get_hardware_concurrency_max n k :: 'h word) = n \<and>
    uint (hardware_concurrency_current n k :: 'h word) = n \<and>
    (get_hardware_concurrency_max (- 1) 256 :: 8 word) = 0"
  using assms by (auto simp: get_hardware_concurrency_max_def hardware_concurrency_current_def
      take_bit_int_eq_self of_int_eq_iff unsigned_of_int)

theorem hardware_concurrency_narrows_witness: "uint (get_hardware_concurrency_max (- 1) 255 :: 8 word) = 255"
  using hardware_concurrency_narrows [of 255, where 'h = 8] by simp

end
