(* ===== verification/Libuv.thy ===== *)
theory Libuv
  imports Chunked HwConcurrency "HOL-Library.Multiset"
begin

text \<open>
  The libuv shop (impls/libuv.cpp, impls/libuv.hpp): the size of the pool, the split of a spread, the
  life of one spread's node (chunk states, latch, reference count) between the caller, the queuer on
  the loop thread, the pool workers and the after-work callbacks, the list of pending spreads, the
  binding of the loop, and \<open>fire_with_after\<close>. libuv is not part of the repository: that a queued
  request is picked up by one worker or cancelled, that \<open>uv_cancel\<close> succeeds exactly while the
  request still waits, and that its after-work callback runs once in both cases, are the steps of
  the machine (libuv's manual); whether \<open>uv_queue_work\<close> succeeds is left open.
\<close>

section \<open>Pool size and plan\<close>

definition uv_number_of_workers :: "string option \<Rightarrow> 'h::len word" where
  "uv_number_of_workers UV_THREADPOOL_SIZE =
     (let size1 = (case UV_THREADPOOL_SIZE of None \<Rightarrow> 4 | Some env \<Rightarrow> if atoi env > 0 then atoi env else 4);
          size2 = min size1 1024
      in of_int (min size2 (2 ^ LENGTH('h) - 1)))"

definition uv_num_chunks :: "'h::len word \<Rightarrow> iterations_t \<Rightarrow> iterations_t" where
  "uv_num_chunks num_workers iterations =
     min (min iterations (4 * ucast num_workers)) (ucast (- 1 :: 'h word))"

datatype uv_plan = Uv_Nothing | Uv_Serial piece | Uv_Chunks "piece list" piece

text \<open>\<open>spread_impl\<close> up to the creation of the node: the queued chunks and the caller's tail chunk.\<close>

definition uv_spread_plan :: "bool \<Rightarrow> bool \<Rightarrow> 'h::len word \<Rightarrow> iterations_t \<Rightarrow> uv_plan" where
  "uv_spread_plan loop_bound node_allocated num_workers iterations =
     (if iterations = 0 then Uv_Nothing
      else if \<not> loop_bound then Uv_Serial (0, iterations)
      else let num_chunks = uv_num_chunks num_workers iterations
           in if num_chunks \<le> 1 then Uv_Serial (0, iterations)
              else case (chunked_spread_new iterations num_chunks :: 'h word chunked_spread option) of
                     None \<Rightarrow> Uv_Nothing
                   | Some the_setup \<Rightarrow>
                       if node_allocated
                       then Uv_Chunks (chunk_list the_setup (unat (num_chunks - 1))) (chunk_range the_setup (ucast (num_chunks - 1)))
                       else Uv_Serial (0, iterations))"

fun uv_pieces :: "uv_plan \<Rightarrow> piece list" where
  "uv_pieces Uv_Nothing = []"
| "uv_pieces (Uv_Serial p) = [p]"
| "uv_pieces (Uv_Chunks ps p) = ps @ [p]"

section \<open>One spread\<close>

datatype chunk_state = Chunk_Pending | Chunk_Queued | Chunk_Done_Inline

text \<open>libuv's side of a chunk: not queued, waiting in the pool's queue, running on a worker, run,
  cancelled, after-work callback done.\<close>

datatype req_state = Req_None | Req_Waiting | Req_Running | Req_Ran | Req_Cancelled | Req_After

datatype caller_pc = C_Tail | C_Steal nat | C_Run nat | C_Wait | C_Release | C_Done

datatype queuer_pc = Q_Idle | Q_At nat | Q_Run nat | Q_Done

text \<open>The node, the latch on the caller's stack, and who is where; \<open>runs i\<close> counts the executions of
  chunk \<open>i\<close>. The queued chunks are \<open>0 .. c - 1\<close> and \<open>c\<close> is the caller's tail chunk.\<close>

record uv_sys =
  cstate :: "nat \<Rightarrow> chunk_state"
  req :: "nat \<Rightarrow> req_state"
  runs :: "nat \<Rightarrow> nat"
  latch :: int
  refs :: int
  freed :: bool
  caller :: caller_pc
  queuer :: queuer_pc

definition spread_node_create :: "nat \<Rightarrow> uv_sys" where
  "spread_node_create c = \<lparr>cstate = (\<lambda>_. Chunk_Pending), req = (\<lambda>_. Req_None), runs = (\<lambda>_. 0),
     latch = int c + 1, refs = 2, freed = False, caller = C_Tail, queuer = Q_Idle\<rparr>"

definition spread_node_release :: "uv_sys \<Rightarrow> uv_sys" where
  "spread_node_release s = s\<lparr>refs := refs s - 1, freed := (if refs s = 1 then True else freed s)\<rparr>"

definition invoke_chunk :: "nat \<Rightarrow> uv_sys \<Rightarrow> uv_sys" where
  "invoke_chunk i s = s\<lparr>runs := (runs s)(i := runs s i + 1), latch := latch s - 1\<rparr>"

inductive uv_step :: "nat \<Rightarrow> uv_sys \<Rightarrow> uv_sys \<Rightarrow> bool" for c where
  tail: "caller s = C_Tail \<Longrightarrow> uv_step c s ((invoke_chunk c s)\<lparr>caller := C_Steal c\<rparr>)"
| steal_pending: "caller s = C_Steal (Suc i) \<Longrightarrow> cstate s i = Chunk_Pending \<Longrightarrow>
    uv_step c s (s\<lparr>cstate := (cstate s)(i := Chunk_Done_Inline), caller := C_Run i\<rparr>)"
| steal_cancel: "caller s = C_Steal (Suc i) \<Longrightarrow> cstate s i = Chunk_Queued \<Longrightarrow> req s i = Req_Waiting \<Longrightarrow>
    uv_step c s (s\<lparr>cstate := (cstate s)(i := Chunk_Done_Inline), req := (req s)(i := Req_Cancelled), caller := C_Run i\<rparr>)"
| steal_skip: "caller s = C_Steal (Suc i) \<Longrightarrow>
    cstate s i = Chunk_Done_Inline \<or> cstate s i = Chunk_Queued \<and> req s i \<noteq> Req_Waiting \<Longrightarrow>
    uv_step c s (s\<lparr>caller := C_Steal i\<rparr>)"
| run_stolen: "caller s = C_Run i \<Longrightarrow> uv_step c s ((invoke_chunk i s)\<lparr>caller := C_Steal i\<rparr>)"
| steal_end: "caller s = C_Steal 0 \<Longrightarrow> uv_step c s (s\<lparr>caller := C_Wait\<rparr>)"
| sync_wait: "caller s = C_Wait \<Longrightarrow> latch s = 0 \<Longrightarrow> uv_step c s (s\<lparr>caller := C_Release\<rparr>)"
| caller_release: "caller s = C_Release \<Longrightarrow> uv_step c s ((spread_node_release s)\<lparr>caller := C_Done\<rparr>)"
| q_start: "queuer s = Q_Idle \<Longrightarrow> uv_step c s (s\<lparr>queuer := Q_At 0\<rparr>)"
| q_skip: "queuer s = Q_At i \<Longrightarrow> i < c \<Longrightarrow> cstate s i \<noteq> Chunk_Pending \<Longrightarrow>
    uv_step c s (s\<lparr>queuer := Q_At (Suc i)\<rparr>)"
| q_queue: "queuer s = Q_At i \<Longrightarrow> i < c \<Longrightarrow> cstate s i = Chunk_Pending \<Longrightarrow>
    uv_step c s (s\<lparr>refs := refs s + 1, cstate := (cstate s)(i := Chunk_Queued), req := (req s)(i := Req_Waiting),
      queuer := Q_At (Suc i)\<rparr>)"
| q_fail: "queuer s = Q_At i \<Longrightarrow> i < c \<Longrightarrow> cstate s i = Chunk_Pending \<Longrightarrow>
    uv_step c s (s\<lparr>refs := refs s + 1 - 1, cstate := (cstate s)(i := Chunk_Done_Inline), queuer := Q_Run i\<rparr>)"
| q_run: "queuer s = Q_Run i \<Longrightarrow> uv_step c s ((invoke_chunk i s)\<lparr>queuer := Q_At (Suc i)\<rparr>)"
| q_release: "queuer s = Q_At c \<Longrightarrow> uv_step c s ((spread_node_release s)\<lparr>queuer := Q_Done\<rparr>)"
| picked_up: "i < c \<Longrightarrow> req s i = Req_Waiting \<Longrightarrow> uv_step c s (s\<lparr>req := (req s)(i := Req_Running)\<rparr>)"
| work_cb: "i < c \<Longrightarrow> req s i = Req_Running \<Longrightarrow>
    uv_step c s ((invoke_chunk i s)\<lparr>req := (req s)(i := Req_Ran)\<rparr>)"
| after_cb: "i < c \<Longrightarrow> req s i = Req_Ran \<or> req s i = Req_Cancelled \<Longrightarrow>
    uv_step c s ((spread_node_release s)\<lparr>req := (req s)(i := Req_After)\<rparr>)"

definition uv_init :: "nat \<Rightarrow> uv_sys \<Rightarrow> bool" where
  "uv_init c s \<longleftrightarrow> s = spread_node_create c"

section \<open>The invariant\<close>

text \<open>References: the caller's, the queuer's, and one per request whose callback is still due.\<close>

fun callback_due :: "req_state \<Rightarrow> nat" where
  "callback_due Req_None = 0"
| "callback_due Req_After = 0"
| "callback_due _ = 1"

definition refs_exact :: "nat \<Rightarrow> uv_sys \<Rightarrow> bool" where
  "refs_exact c s \<longleftrightarrow>
     refs s = of_bool (caller s \<noteq> C_Done) + of_bool (queuer s \<noteq> Q_Done) + weight c callback_due (req s) \<and>
     (freed s \<longleftrightarrow> refs s = 0)"

definition latch_exact :: "nat \<Rightarrow> uv_sys \<Rightarrow> bool" where
  "latch_exact c s \<longleftrightarrow> latch s = int c + 1 - weight (Suc c) (\<lambda>k. k) (runs s)"

text \<open>Every chunk has run once or has exactly one party that will run it.\<close>

definition will_run :: "uv_sys \<Rightarrow> nat \<Rightarrow> nat" where
  "will_run s i = of_bool (cstate s i = Chunk_Pending) + of_bool (caller s = C_Run i) + of_bool (queuer s = Q_Run i)
     + of_bool (req s i = Req_Waiting) + of_bool (req s i = Req_Running)"

fun states_agree :: "chunk_state \<Rightarrow> req_state \<Rightarrow> bool" where
  "states_agree Chunk_Pending r = (r = Req_None)"
| "states_agree Chunk_Queued r = (r \<noteq> Req_None \<and> r \<noteq> Req_Cancelled)"
| "states_agree Chunk_Done_Inline r = (r = Req_None \<or> r = Req_Cancelled \<or> r = Req_After)"

definition one_owner :: "nat \<Rightarrow> uv_sys \<Rightarrow> bool" where
  "one_owner c s \<longleftrightarrow> (\<forall>i<c. runs s i + will_run s i = 1) \<and> runs s c + of_bool (caller s = C_Tail) = 1"

definition agree :: "nat \<Rightarrow> uv_sys \<Rightarrow> bool" where
  "agree c s \<longleftrightarrow> (\<forall>i<c. states_agree (cstate s i) (req s i))"

text \<open>The caller's sweep: from where it is upwards nothing waits for anybody.\<close>

fun swept_from :: "nat \<Rightarrow> caller_pc \<Rightarrow> nat" where
  "swept_from c C_Tail = c"
| "swept_from c (C_Steal i) = i"
| "swept_from c (C_Run i) = i"
| "swept_from c _ = 0"

definition sweep_ok :: "nat \<Rightarrow> uv_sys \<Rightarrow> bool" where
  "sweep_ok c s \<longleftrightarrow> swept_from c (caller s) \<le> c \<and> (\<forall>i. caller s = C_Run i \<longrightarrow> i < c) \<and>
     (\<forall>i. queuer s = Q_Run i \<longrightarrow> i < c) \<and>
     (\<forall>i. swept_from c (caller s) \<le> i \<and> i < c \<longrightarrow> cstate s i \<noteq> Chunk_Pending \<and> req s i \<noteq> Req_Waiting)"

definition returned_ok :: "nat \<Rightarrow> uv_sys \<Rightarrow> bool" where
  "returned_ok c s \<longleftrightarrow> (caller s = C_Release \<or> caller s = C_Done \<longrightarrow> (\<forall>i\<le>c. runs s i = 1))"

definition uv_inv :: "nat \<Rightarrow> uv_sys \<Rightarrow> bool" where
  "uv_inv c s \<longleftrightarrow> refs_exact c s \<and> latch_exact c s \<and> one_owner c s \<and> agree c s \<and> sweep_ok c s \<and> returned_ok c s"

lemma states_agreeD:
  "states_agree st r \<Longrightarrow> st = Chunk_Pending \<Longrightarrow> r = Req_None"
  "states_agree st r \<Longrightarrow> st = Chunk_Done_Inline \<Longrightarrow> r \<noteq> Req_Waiting"
  "states_agree st r \<Longrightarrow> r = Req_Waiting \<Longrightarrow> st = Chunk_Queued"
  "states_agree st r \<Longrightarrow> r = Req_Running \<Longrightarrow> st = Chunk_Queued"
  by (cases st; auto)+

lemma states_agree_moves:
  "states_agree st r \<Longrightarrow> (r = Req_Waiting \<longrightarrow> states_agree st Req_Running) \<and> (r = Req_Running \<longrightarrow> states_agree st Req_Ran) \<and>
     (r = Req_Ran \<or> r = Req_Cancelled \<longrightarrow> states_agree st Req_After)"
  by (cases st) auto

lemma agreeD: "agree c s \<Longrightarrow> i < c \<Longrightarrow> states_agree (cstate s i) (req s i)"
  by (simp add: agree_def)

lemma agree_step:
  assumes "agree c s" "uv_step c s s'"
  shows "agree c s'"
  unfolding agree_def
proof (intro allI impI)
  fix i assume "i < c"
  with assms(1) have "states_agree (cstate s i) (req s i)" by (rule agreeD)
  note st = states_agree_moves [OF this] this
  from assms(2) st show "states_agree (cstate s' i) (req s' i)"
    by cases (auto simp: invoke_chunk_def spread_node_release_def)
qed

text \<open>The caller's part of the sweep, at one index.\<close>

lemma sweep_at:
  assumes "sweep_ok c s" "agree c s" "uv_step c s s'" "swept_from c (caller s') \<le> i" "i < c"
  shows "cstate s' i \<noteq> Chunk_Pending \<and> req s' i \<noteq> Req_Waiting"
proof -
  have old: "cstate s i \<noteq> Chunk_Pending \<and> req s i \<noteq> Req_Waiting" if "swept_from c (caller s) \<le> i"
    using assms(1,5) that by (simp add: sweep_ok_def)
  note ag = agreeD [OF assms(2,5)]
  have fresh: "cstate s i = Chunk_Pending \<or> cstate s i = Chunk_Done_Inline \<Longrightarrow> req s i \<noteq> Req_Waiting"
    using states_agreeD(1,2) [OF ag] by auto
  show ?thesis
  proof (cases "swept_from c (caller s) \<le> i")
    case True
    from assms(3) old [OF True] show ?thesis
      by cases (auto simp: invoke_chunk_def spread_node_release_def)
  next
    case False
    from assms(3) False assms(4,5) fresh show ?thesis
      by cases (auto simp: invoke_chunk_def spread_node_release_def not_le less_Suc_eq)
  qed
qed

lemma sweep_step:
  assumes "sweep_ok c s" "agree c s" "uv_step c s s'"
  shows "sweep_ok c s'"
proof -
  from assms(1) have "swept_from c (caller s) \<le> c" "\<forall>i. caller s = C_Run i \<longrightarrow> i < c" "\<forall>i. queuer s = Q_Run i \<longrightarrow> i < c"
    by (simp_all add: sweep_ok_def)
  with assms(3) have "swept_from c (caller s') \<le> c \<and> (\<forall>i. caller s' = C_Run i \<longrightarrow> i < c) \<and> (\<forall>i. queuer s' = Q_Run i \<longrightarrow> i < c)"
    by cases (auto simp: invoke_chunk_def spread_node_release_def)
  with sweep_at [OF assms] show ?thesis unfolding sweep_ok_def by blast
qed

lemma owner_at:
  assumes "one_owner c s" "agree c s" "uv_step c s s'" "i < c" "sweep_ok c s"
  shows "runs s' i + will_run s' i = 1"
proof -
  have o: "runs s i + will_run s i = 1" using assms(1,4) by (simp add: one_owner_def)
  note ag = agreeD [OF assms(2,4)]
  have "cstate s i = Chunk_Pending \<longrightarrow> req s i \<noteq> Req_Waiting \<and> req s i \<noteq> Req_Running"
    using states_agreeD(1) [OF ag] by auto
  with assms(3) o assms(4) show ?thesis
    by cases (auto simp: will_run_def invoke_chunk_def spread_node_release_def split: if_splits)
qed

lemma owner_step:
  assumes "one_owner c s" "agree c s" "uv_step c s s'" "sweep_ok c s"
  shows "one_owner c s'"
proof -
  have "runs s c + of_bool (caller s = C_Tail) = 1" using assms(1) by (simp add: one_owner_def)
  with assms(3,4) have "runs s' c + of_bool (caller s' = C_Tail) = 1"
    by cases (auto simp: invoke_chunk_def spread_node_release_def sweep_ok_def)
  with owner_at [OF assms(1-3) _ assms(4)] show ?thesis unfolding one_owner_def by blast
qed

lemma refs_step:
  assumes "refs_exact c s" "sweep_ok c s" "agree c s" "uv_step c s s'"
  shows "refs_exact c s'"
proof -
  define W where "W = weight c callback_due (req s)"
  have r: "refs s = of_bool (caller s \<noteq> C_Done) + of_bool (queuer s \<noteq> Q_Done) + W"
    and f: "freed s \<longleftrightarrow> refs s = 0" using assms(1) by (simp_all add: refs_exact_def W_def)
  have w: "0 \<le> W" by (simp add: W_def)
  have upd: "weight c callback_due ((req s)(i := x)) = W + int (callback_due x) - int (callback_due (req s i))"
    if "i < c" for i x unfolding W_def using that by (rule weight_upd)
  have pos: "0 < W" if "i < c" "callback_due (req s i) = 1" for i
    using weight_ge [of i c callback_due "req s"] that by (simp add: W_def)
  have pending: "req s i = Req_None" if "i < c" "cstate s i = Chunk_Pending" for i
    using states_agreeD(1) [OF agreeD [OF assms(3) that(1)] that(2)] .
  note defs = refs_exact_def W_def [symmetric] upd invoke_chunk_def spread_node_release_def
  show ?thesis using assms(4)
  proof cases
    case (steal_cancel i)
    then have "i < c" using assms(2) by (simp add: sweep_ok_def)
    with steal_cancel r f show ?thesis by (auto simp: defs)
  next
    case (q_queue i)
    with r f w pending [of i] show ?thesis by (auto simp: defs)
  next
    case (after_cb i)
    with r f w pos [of i] show ?thesis by (auto simp: defs)
  qed (use r f w in \<open>auto simp: defs\<close>)
qed

lemma latch_step:
  assumes "latch_exact c s" "sweep_ok c s" "uv_step c s s'"
  shows "latch_exact c s'"
proof -
  have l: "latch s = int c + 1 - weight (Suc c) (\<lambda>k. k) (runs s)" using assms(1) by (simp add: latch_exact_def)
  have upd: "weight (Suc c) (\<lambda>k. k) ((runs s)(i := Suc (runs s i))) = weight (Suc c) (\<lambda>k. k) (runs s) + 1"
    if "i \<le> c" for i using that by (subst weight_upd) simp_all
  show ?thesis using assms(3,2) l
    by cases (auto simp: latch_exact_def invoke_chunk_def spread_node_release_def sweep_ok_def upd)
qed

lemma all_ones: "(\<And>i. i < n \<Longrightarrow> f i \<le> 1) \<Longrightarrow> weight n (\<lambda>k. k) f = int n \<Longrightarrow> i < n \<Longrightarrow> f i = (1 :: nat)"
proof (induction n arbitrary: i)
  case (Suc n)
  have le: "total_weight n (\<lambda>k. k) f \<le> n"
    using sum_bounded_above [of "{..<n}" f 1] Suc.prems(1) by (simp add: total_weight_def)
  have "total_weight (Suc n) (\<lambda>k. k) f = Suc n" using Suc.prems(2) unfolding weight_def by linarith
  then have "total_weight n (\<lambda>k. k) f + f n = Suc n" by (simp add: total_weight_def)
  with le Suc.prems(1) [of n] have "f n = 1" "weight n (\<lambda>k. k) f = int n" by (auto simp: weight_def)
  with Suc.IH Suc.prems show ?case by (cases "i = n") simp_all
qed simp

lemma runs_le: "one_owner c s \<Longrightarrow> i \<le> c \<Longrightarrow> runs s i \<le> 1"
  by (cases "i = c") (auto simp: one_owner_def dest!: spec [of _ i])

lemma returned_step:
  assumes "returned_ok c s" "latch_exact c s" "one_owner c s" "sweep_ok c s" "uv_step c s s'"
  shows "returned_ok c s'"
proof -
  have busy: "runs s i = 0" if "i < c" "caller s = C_Run i \<or> queuer s = Q_Run i \<or> req s i = Req_Running" for i
    using assms(3) that by (auto simp: one_owner_def will_run_def dest!: spec [of _ i])
  have run: "i < c" if "queuer s = Q_Run i" for i using assms(4) that by (simp add: sweep_ok_def)
  have ones: "runs s i = 1" if "latch s = 0" "i \<le> c" for i
    using all_ones [of "Suc c" "runs s" i] runs_le [OF assms(3)] assms(2) that by (auto simp: latch_exact_def)
  show ?thesis using assms(5,1) busy run ones
    by cases (auto simp: returned_ok_def invoke_chunk_def spread_node_release_def)
qed

lemma weight_same: "weight n f (\<lambda>_. x) = int n * int (f x)"
  by (simp add: weight_def total_weight_def)

interpretation uv_machine: invariant_system "uv_init c" "uv_step c" "uv_inv c" for c
proof unfold_locales
  show "uv_init c s \<Longrightarrow> uv_inv c s" for s
    by (auto simp: uv_init_def spread_node_create_def uv_inv_def refs_exact_def latch_exact_def one_owner_def
        will_run_def agree_def sweep_ok_def returned_ok_def weight_same)
qed (auto simp: uv_inv_def intro: refs_step latch_step owner_step agree_step sweep_step returned_step)

section \<open>Pending spreads, binding, fire\<close>

text \<open>Spreads of other threads: pushed on a list, taken all at once by the loop's callback.\<close>

definition push_pending :: "'n \<Rightarrow> 'n list \<Rightarrow> 'n list" where
  "push_pending node pending_list = node # pending_list"

definition on_spread_async :: "'n list \<Rightarrow> 'n list \<times> 'n list" where
  "on_spread_async pending_list = (pending_list, [])"

fun pending_run :: "'n option list \<Rightarrow> 'n list \<Rightarrow> 'n list \<times> 'n list" where
  "pending_run [] pending_list = ([], pending_list)"
| "pending_run (Some node # es) pending_list = pending_run es (push_pending node pending_list)"
| "pending_run (None # es) pending_list =
     (let (queued, rest) = on_spread_async pending_list; (queued', rest') = pending_run es rest
      in (queued @ queued', rest'))"

text \<open>\<open>uv_async_send\<close> may merge calls; each spread is queued once all the same.\<close>

lemma pending_run_once:
  "mset (fst (pending_run es p)) + mset (snd (pending_run es p)) = mset p + mset (List.map_filter id es)"
  by (induction es p rule: pending_run.induct)
    (auto simp: push_pending_def on_spread_async_def map_filter_simps split: prod.splits)

record 'loop uv_shop =
  bound_loop :: "'loop option"
  async_open :: bool

definition bind_loop :: "bool \<Rightarrow> 'loop \<Rightarrow> 'loop uv_shop \<Rightarrow> 'loop uv_shop" where
  "bind_loop async_init_ok loop s = (if async_init_ok then s\<lparr>bound_loop := Some loop, async_open := True\<rparr> else s)"

definition unbind_loop :: "'loop uv_shop \<Rightarrow> 'loop uv_shop" where
  "unbind_loop s = (if bound_loop s \<noteq> None then s\<lparr>bound_loop := None, async_open := False\<rparr> else s)"

datatype fire_call = New_Ctx | In_Flight_Inc | Queue_Work | In_Flight_Dec | Delete_Ctx | Run_Work | Run_After

definition uv_fire_with_after :: "bool \<Rightarrow> bool \<Rightarrow> bool \<times> fire_call list" where
  "uv_fire_with_after allocated queue_ok =
     (if \<not> allocated then (False, [])
      else if \<not> queue_ok then (False, [New_Ctx, In_Flight_Inc, In_Flight_Dec, Delete_Ctx])
      else (True, [New_Ctx, In_Flight_Inc, Queue_Work]))"

text \<open>The two callbacks, of a request that was queued: on a worker, then on the loop thread.\<close>

definition uv_fire_callbacks :: "fire_call list" where
  "uv_fire_callbacks = [Run_Work] @ [Run_After, In_Flight_Dec, Delete_Ctx]"

section \<open>Theorems\<close>

lemma uv_num_chunks_bounds:
  fixes num_workers :: "'h::len word"
  assumes "LENGTH('h) \<le> 32"
  shows "unat (uv_num_chunks num_workers iterations) \<le> unat iterations"
    and "unat (uv_num_chunks num_workers iterations) < 2 ^ LENGTH('h)"
proof -
  have "unat (ucast (- 1 :: 'h word) :: iterations_t) = unat (- 1 :: 'h word)"
    by (rule unat_ucast_widen) (use assms in simp)
  also have "\<dots> < 2 ^ LENGTH('h)" by (rule unat_lt2p)
  finally show "unat (uv_num_chunks num_workers iterations) < 2 ^ LENGTH('h)"
    by (simp only: uv_num_chunks_def unat_min min_less_iff_disj simp_thms)
  show "unat (uv_num_chunks num_workers iterations) \<le> unat iterations"
    by (simp add: uv_num_chunks_def unat_min)
qed

text \<open>C29. A libuv spread of at least one iteration covers every iteration once, in order, whether it runs
  serially (no loop bound, one chunk, no memory for the node) or in chunks with the tail for the
  caller, for any pool size: the chunk count is clamped to \<open>hardware_concurrency_t\<close>.\<close>

theorem libuv_plan_covers:
  fixes num_workers :: "'h::len word"
  assumes "iterations \<noteq> 0" and "LENGTH('h) \<le> 32"
  shows "tiles 0 (as_nats (uv_pieces (uv_spread_plan loop_bound node_allocated num_workers iterations))) (unat iterations)"
proof -
  let ?n = "uv_num_chunks num_workers iterations"
  note b = uv_num_chunks_bounds [OF assms(2), of num_workers iterations]
  have it: "0 < unat iterations" using assms(1) by (simp add: unat_gt_0)
  have new: "chunked_spread_new iterations ?n \<noteq> (None :: 'h word chunked_spread option)" if "\<not> ?n \<le> 1"
    using that by (auto simp: chunked_spread_new_def)
  show ?thesis
  proof (cases "loop_bound \<and> \<not> ?n \<le> 1 \<and> node_allocated")
    case False
    have "uv_spread_plan loop_bound node_allocated num_workers iterations = Uv_Serial (0, iterations)"
    proof (cases "loop_bound \<and> \<not> ?n \<le> 1")
      case True
      then obtain setup_val :: "'h word chunked_spread" where "chunked_spread_new iterations ?n = Some setup_val"
        using new by blast
      then show ?thesis using True False assms(1) by (simp add: uv_spread_plan_def Let_def)
    next
      case serial: False
      then show ?thesis using assms(1) unfolding uv_spread_plan_def Let_def
        by (cases loop_bound) (simp_all only: if_True if_False simp_thms)
    qed
    then show ?thesis using it by (simp add: as_nats_def)
  next
    case True
    then have n: "1 < unat ?n" by (simp add: word_less_nat_alt not_le)
    obtain the_setup :: "'h word chunked_spread" where setup_eq: "chunked_spread_new iterations ?n = Some the_setup"
      using new True by blast
    have n1: "unat (?n - 1) = unat ?n - 1" using n by (subst unat_sub_le) simp_all
    have "(ucast (?n - 1) :: 'h word) = of_nat (unat ?n - 1)"
      unfolding n1 [symmetric] by (simp only: of_nat_unat)
    then have "uv_pieces (uv_spread_plan loop_bound node_allocated num_workers iterations)
        = chunk_list the_setup (unat ?n - 1) @ chunk_list the_setup 0 @ [chunk_range the_setup (of_nat (unat ?n - 1))]"
      using True assms(1) by (simp add: uv_spread_plan_def Let_def setup_eq n1 chunk_list_def)
    also have "\<dots> = chunk_list the_setup (Suc (unat ?n - 1))" by (simp add: chunk_list_def)
    also have "Suc (unat ?n - 1) = min (unat ?n) (unat iterations)" using n b(1) by simp
    finally show ?thesis using chunk_list_tiles [OF setup_eq _ assms(2)] b(2) by simp
  qed
qed

theorem libuv_plan_covers_witness:
  "tiles 0 (as_nats (uv_pieces (uv_spread_plan True True (255 :: 8 word) 1000000))) 1000000"
  using libuv_plan_covers [of 1000000 True True "255 :: 8 word"] by simp

text \<open>C13. In every interleaving of the caller, the queuer, the pool and the callbacks, with queueing
  failing at will, each chunk of a libuv spread runs at most once, and exactly once by the time the
  call returns; a caller that still waits waits only for chunks that are running, never for one
  that needs a pool slot (so a call from a saturated pool cannot deadlock); and the node is freed
  exactly when the caller, the queuer and every callback are done with it, after which nothing
  happens to it.\<close>

theorem libuv_spread_safe:
  assumes "reach (uv_init c) (uv_step c) s"
  shows "(\<forall>i\<le>c. runs s i \<le> 1) \<and> (caller s = C_Release \<or> caller s = C_Done \<longrightarrow> (\<forall>i\<le>c. runs s i = 1)) \<and>
    (caller s = C_Wait \<and> latch s \<noteq> 0 \<longrightarrow> (\<exists>i<c. runs s i = 0 \<and> (req s i = Req_Running \<or> queuer s = Q_Run i))) \<and>
    (freed s \<longleftrightarrow> caller s = C_Done \<and> queuer s = Q_Done \<and> (\<forall>i<c. callback_due (req s i) = 0)) \<and>
    (freed s \<longrightarrow> (\<forall>s'. \<not> uv_step c s s'))"
proof (intro conjI)
  have inv: "uv_inv c s" by (rule uv_machine.inv_reach [OF assms])
  then have o: "one_owner c s" and l: "latch_exact c s" and r: "refs_exact c s" and sw: "sweep_ok c s"
    by (simp_all add: uv_inv_def)
  show "\<forall>i\<le>c. runs s i \<le> 1" using runs_le [OF o] by blast
  show "caller s = C_Release \<or> caller s = C_Done \<longrightarrow> (\<forall>i\<le>c. runs s i = 1)"
    using inv by (simp add: uv_inv_def returned_ok_def)
  show "caller s = C_Wait \<and> latch s \<noteq> 0 \<longrightarrow> (\<exists>i<c. runs s i = 0 \<and> (req s i = Req_Running \<or> queuer s = Q_Run i))"
  proof
    assume w: "caller s = C_Wait \<and> latch s \<noteq> 0"
    have "\<exists>i\<le>c. runs s i \<noteq> 1"
    proof (rule ccontr)
      assume "\<not> ?thesis"
      then have "weight (Suc c) (\<lambda>k. k) (runs s) = int (Suc c)" by (simp add: weight_def total_weight_def)
      with w l show False by (simp add: latch_exact_def)
    qed
    then obtain i where i: "i \<le> c" "runs s i \<noteq> 1" by blast
    then have "i \<noteq> c" using o w by (auto simp: one_owner_def)
    with i have "i < c" by simp
    moreover have "cstate s i \<noteq> Chunk_Pending \<and> req s i \<noteq> Req_Waiting"
      using sw w \<open>i < c\<close> by (simp add: sweep_ok_def)
    moreover have "runs s i + will_run s i = 1" using o \<open>i < c\<close> by (simp add: one_owner_def)
    ultimately have "i < c \<and> runs s i = 0 \<and> (req s i = Req_Running \<or> queuer s = Q_Run i)"
      using i(2) w by (auto simp: will_run_def of_bool_def split: if_splits)
    then show "\<exists>i<c. runs s i = 0 \<and> (req s i = Req_Running \<or> queuer s = Q_Run i)" by blast
  qed
  have free: "freed s \<longleftrightarrow> caller s = C_Done \<and> queuer s = Q_Done \<and> (\<forall>i<c. callback_due (req s i) = 0)"
  proof -
    define W where "W = weight c callback_due (req s)"
    have "0 \<le> W" by (simp add: W_def)
    moreover have "refs s = of_bool (caller s \<noteq> C_Done) + of_bool (queuer s \<noteq> Q_Done) + W" "freed s \<longleftrightarrow> refs s = 0"
      using r by (simp_all add: refs_exact_def W_def)
    moreover have "W = 0 \<longleftrightarrow> (\<forall>i<c. callback_due (req s i) = 0)" by (simp add: W_def weight_zero)
    ultimately show ?thesis by (auto split: if_splits)
  qed
  then show "freed s \<longleftrightarrow> caller s = C_Done \<and> queuer s = Q_Done \<and> (\<forall>i<c. callback_due (req s i) = 0)" .
  show "freed s \<longrightarrow> (\<forall>s'. \<not> uv_step c s s')"
    using free by (auto elim!: uv_step.cases)
qed

theorem libuv_spread_safe_witness:
  "runs ((invoke_chunk 2 (spread_node_create 2))\<lparr>caller := C_Steal 2\<rparr>) 2 \<le> 1"
proof -
  have "reach (uv_init 2) (uv_step 2) (spread_node_create 2)" by (rule reach.start) (simp add: uv_init_def)
  then have "reach (uv_init 2) (uv_step 2) ((invoke_chunk 2 (spread_node_create 2))\<lparr>caller := C_Steal 2\<rparr>)"
    by (rule reach.move) (rule uv_step.tail, simp add: spread_node_create_def)
  from conjunct1 [OF libuv_spread_safe [OF this]] show ?thesis by blast
qed

text \<open>\<open>fire_with_after\<close> of the libuv shop on every path: the in-flight count is raised and lowered
  once, or not at all, and the context is deleted exactly when it was created; a fire that reports
  success runs the work, then the continuation, once.\<close>

theorem libuv_fire_balanced:
  "case uv_fire_with_after allocated queue_ok of (ok, calls) \<Rightarrow>
     let all = (if ok then calls @ uv_fire_callbacks else calls)
     in (ok \<longleftrightarrow> allocated \<and> queue_ok) \<and>
        count_list all In_Flight_Inc = of_bool allocated \<and> count_list all In_Flight_Dec = of_bool allocated \<and>
        count_list all New_Ctx = of_bool allocated \<and> count_list all Delete_Ctx = of_bool allocated \<and>
        filter (\<lambda>x. x = Run_Work \<or> x = Run_After) all = (if ok then [Run_Work, Run_After] else [])"
  by (simp add: uv_fire_with_after_def uv_fire_callbacks_def Let_def)

text \<open>The libuv pool size is between 1 and 1024 whatever the environment variable holds, and never
  wraps in \<open>hardware_concurrency_t\<close>.\<close>

theorem libuv_pool_size:
  "1 \<le> uint (uv_number_of_workers env :: 'h::len word) \<and>
   uint (uv_number_of_workers env :: 'h word) \<le> 1024"
proof -
  let ?s = "case env of None \<Rightarrow> 4 | Some e \<Rightarrow> if atoi e > 0 then atoi e else 4"
  let ?m = "min (min ?s 1024) (2 ^ LENGTH('h) - 1)"
  have "2 \<le> (2 :: int) ^ LENGTH('h)" using self_le_power [of "2 :: int" "LENGTH('h)"] by simp
  moreover have "1 \<le> ?s" by (auto split: option.splits)
  ultimately have m: "1 \<le> ?m" "?m < 2 ^ LENGTH('h)" "?m \<le> 1024" by simp_all
  then have "uint (of_int ?m :: 'h word) = ?m" by (simp add: unsigned_of_int take_bit_int_eq_self)
  with m show ?thesis by (simp add: uv_number_of_workers_def Let_def)
qed

end
