(* ===== verification/Backends.thy ===== *)
theory Backends
  imports Chunked Future Tracking "HOL-Library.Multiset"
begin

text \<open>
  The schedulers over a pool of the platform: impls/windows.hpp, impls/apple.hpp, impls/openmp.hpp
  and impls/single_threaded.hpp. None of them has a pool of its own. A loop is a list of chunk
  calls; on Windows the chunks are submitted one by one to the system's pool and run on the
  caller where that fails, while a latch on the caller's stack counts them. Fired work is a list
  of the calls made, on every branch.
\<close>

section \<open>The chunks of a loop\<close>

definition chunks_per_worker :: iterations_t where
  "chunks_per_worker = 4"

text \<open>Windows: at most four chunks for each worker; the index of a chunk is narrowed.\<close>

definition windows_num_chunks :: "'h::len word \<Rightarrow> iterations_t \<Rightarrow> iterations_t" where
  "windows_num_chunks num_workers iterations = min iterations (chunks_per_worker * ucast num_workers)"

definition windows_chunks :: "'h::len word \<Rightarrow> iterations_t \<Rightarrow> piece list option" where
  "windows_chunks num_workers iterations =
     (if iterations = 0 then Some []
      else let num_chunks = windows_num_chunks num_workers iterations
           in map_option (\<lambda>s :: 'h word chunked_spread. chunk_list s (unat num_chunks))
                (chunked_spread_new iterations num_chunks))"

text \<open>
  Apple: the set-up is for four chunks for each worker even when there are fewer iterations, and
  \<open>dispatch_apply_f\<close> calls the first chunks. In which order is up to it: \<open>order\<close>.
\<close>

definition apple_chunk_call :: "'h::len word chunked_spread \<Rightarrow> nat \<Rightarrow> piece" where
  "apple_chunk_call s chunk = chunk_range s (of_nat chunk)"

definition apple_calls :: "'h::len word \<Rightarrow> iterations_t \<Rightarrow> (nat \<Rightarrow> nat list) \<Rightarrow> piece list option" where
  "apple_calls hardware_concurrency_max iterations order =
     (let number_of_chunks = chunks_per_worker * ucast hardware_concurrency_max
      in map_option (\<lambda>s :: 'h word chunked_spread. map (apple_chunk_call s) (order (unat (min number_of_chunks iterations))))
           (chunked_spread_new iterations number_of_chunks))"

text \<open>
  OpenMP: a loop with a signed variable. \<open>None\<close> stands for undefined behaviour: no worker, a
  step of zero, or a variable above the signed range.
\<close>

function openmp_loop :: "iterations_t \<Rightarrow> iterations_t \<Rightarrow> nat \<Rightarrow> piece list option" where
  "openmp_loop iterations iterations_per_worker iteration =
     (if 2 ^ 31 \<le> iteration \<or> iterations_per_worker = 0 then None
      else if of_nat iteration < iterations
      then map_option ((#) (of_nat iteration, min iterations (of_nat iteration + iterations_per_worker)))
             (openmp_loop iterations iterations_per_worker (iteration + unat iterations_per_worker))
      else Some [])"
  by pat_completeness auto
termination
  by (relation "measure (\<lambda>(n, ipw, i). 2 ^ 31 - i)") (auto simp: unat_gt_0 intro!: diff_less_mono2)

declare openmp_loop.simps [simp del]

definition openmp_spread :: "nat \<Rightarrow> 'h::len itself \<Rightarrow> iterations_t \<Rightarrow> piece list option" where
  "openmp_spread omp_get_num_threads h iterations =
     (let number_of_workers = (of_nat omp_get_num_threads :: 'h word)
      in if number_of_workers = 0 then None
         else openmp_loop iterations (iterations div ucast number_of_workers + 1) 0)"

definition single_threaded_spread :: "iterations_t \<Rightarrow> piece list" where
  "single_threaded_spread iterations = (if iterations \<noteq> 0 then [(0, iterations)] else [])"

lemma openmp_loop_tiles:
  assumes "unat iterations + unat ipw < 2 ^ 31" and "ipw \<noteq> 0" and "iteration \<le> unat iterations"
  shows "\<exists>ps. openmp_loop iterations ipw iteration = Some ps \<and> tiles iteration (as_nats ps) (unat iterations)"
  using assms
proof (induction "unat iterations - iteration" arbitrary: iteration rule: less_induct)
  case less
  have i: "unat (of_nat iteration :: iterations_t) = iteration" "iteration < 2 ^ 31"
    using less.prems by (auto intro: unat_of_nat_small)
  show ?case
  proof (cases "iteration < unat iterations")
    case False
    with less.prems i show ?thesis by (subst openmp_loop.simps) (simp add: word_less_nat_alt)
  next
    case True
    let ?next = "iteration + unat ipw"
    have pos: "0 < unat ipw" using less.prems(2) by (simp add: unat_gt_0)
    have sum: "unat (of_nat iteration + ipw) = ?next"
      using less.prems i by (subst unat_add_small) auto
    have step: "openmp_loop iterations ipw iteration =
        map_option ((#) (of_nat iteration, min iterations (of_nat iteration + ipw))) (openmp_loop iterations ipw ?next)"
      using True less.prems i by (subst openmp_loop.simps) (simp add: word_less_nat_alt)
    show ?thesis
    proof (cases "?next \<le> unat iterations")
      case inside: True
      then obtain ps where "openmp_loop iterations ipw ?next = Some ps" "tiles ?next (as_nats ps) (unat iterations)"
        using less.hyps [of ?next] less.prems(1,2) True pos diff_less_mono2 [of iteration ?next "unat iterations"]
        by auto
      moreover have "unat (min iterations (of_nat iteration + ipw)) = ?next"
        using inside sum by (simp add: unat_min)
      ultimately show ?thesis using i pos step by simp
    next
      case past: False
      have "unat (of_nat ?next :: iterations_t) = ?next"
        using less.prems by (intro unat_of_nat_small) auto
      then have "openmp_loop iterations ipw ?next = Some []"
        using past less.prems by (subst openmp_loop.simps) (simp add: word_less_nat_alt)
      moreover have "unat (min iterations (of_nat iteration + ipw)) = unat iterations"
        using past sum by (simp add: unat_min)
      ultimately show ?thesis using i True step by simp
    qed
  qed
qed


section \<open>Submitting a loop to the Windows pool\<close>

text \<open>
  The caller submits chunk after chunk, or runs the chunk where the pool is exhausted, then waits
  for the latch. A callback calls the work and then counts the latch down; both the latch and the
  chunk's context are on the caller's stack.
\<close>

datatype callback_state = Not_Submitted | In_Pool | In_Callback | Ran

datatype submitter_pc = S_Submit nat | S_Wait | S_Returned

record win_sys =
  callback :: "nat \<Rightarrow> callback_state"
  calls :: "nat \<Rightarrow> nat"
  sync :: int
  submitter :: submitter_pc

definition win_init :: "nat \<Rightarrow> win_sys \<Rightarrow> bool" where
  "win_init n s \<longleftrightarrow> callback s = (\<lambda>_. Not_Submitted) \<and> calls s = (\<lambda>_. 0) \<and> sync s = int n \<and> submitter s = S_Submit 0"

inductive win_step :: "nat \<Rightarrow> win_sys \<Rightarrow> win_sys \<Rightarrow> bool" for n where
  submit: "submitter s = S_Submit i \<Longrightarrow> i < n \<Longrightarrow>
    win_step n s (s\<lparr>callback := (callback s)(i := In_Pool), submitter := S_Submit (Suc i)\<rparr>)"
| run_inline: "submitter s = S_Submit i \<Longrightarrow> i < n \<Longrightarrow>
    win_step n s (s\<lparr>callback := (callback s)(i := Ran), calls := (calls s)(i := calls s i + 1), sync := sync s - 1,
      submitter := S_Submit (Suc i)\<rparr>)"
| invoke: "i < n \<Longrightarrow> callback s i = In_Pool \<Longrightarrow>
    win_step n s (s\<lparr>callback := (callback s)(i := In_Callback), calls := (calls s)(i := calls s i + 1)\<rparr>)"
| count_down: "i < n \<Longrightarrow> callback s i = In_Callback \<Longrightarrow>
    win_step n s (s\<lparr>callback := (callback s)(i := Ran), sync := sync s - 1\<rparr>)"
| submitted_all: "submitter s = S_Submit n \<Longrightarrow> win_step n s (s\<lparr>submitter := S_Wait\<rparr>)"
| latch_wait: "submitter s = S_Wait \<Longrightarrow> sync s = 0 \<Longrightarrow> win_step n s (s\<lparr>submitter := S_Returned\<rparr>)"

fun submitted_to :: "nat \<Rightarrow> submitter_pc \<Rightarrow> nat" where
  "submitted_to n (S_Submit i) = i"
| "submitted_to n _ = n"

fun called :: "callback_state \<Rightarrow> nat" where
  "called In_Callback = 1"
| "called Ran = 1"
| "called _ = 0"

fun unfinished :: "callback_state \<Rightarrow> nat" where
  "unfinished Ran = 0"
| "unfinished _ = 1"

definition win_inv :: "nat \<Rightarrow> win_sys \<Rightarrow> bool" where
  "win_inv n s \<longleftrightarrow> submitted_to n (submitter s) \<le> n \<and>
     (\<forall>i. callback s i = Not_Submitted \<longleftrightarrow> submitted_to n (submitter s) \<le> i) \<and>
     (\<forall>i. calls s i = called (callback s i)) \<and> sync s = weight n unfinished (callback s) \<and>
     (submitter s = S_Returned \<longrightarrow> sync s = 0)"

lemma unfinished_initially: "weight n unfinished (\<lambda>_. Not_Submitted) = int n"
  by (induction n) (simp_all add: weight_def total_weight_def)

lemma win_inv_step:
  assumes inv: "win_inv n s" and step: "win_step n s s'"
  shows "win_inv n s'"
  using step
proof cases
  case (submit i)
  with inv have "callback s i = Not_Submitted" by (simp add: win_inv_def)
  then have "called (callback s i) = 0" "unfinished (callback s i) = 1" by simp_all
  with inv submit show ?thesis
    by (auto simp: win_inv_def weight_upd le_Suc_eq)
next
  case (run_inline i)
  with inv have "callback s i = Not_Submitted" by (simp add: win_inv_def)
  then have "called (callback s i) = 0" "unfinished (callback s i) = 1" by simp_all
  with inv run_inline show ?thesis
    by (auto simp: win_inv_def weight_upd le_Suc_eq)
next
  case (invoke i)
  with inv have "\<not> submitted_to n (submitter s) \<le> i" by (metis callback_state.distinct(1) win_inv_def)
  with inv invoke show ?thesis by (auto simp: win_inv_def weight_upd)
next
  case (count_down i)
  with inv have "\<not> submitted_to n (submitter s) \<le> i" by (metis callback_state.distinct(3) win_inv_def)
  moreover have "0 < sync s"
    using inv count_down weight_ge [of i n unfinished "callback s"] by (simp add: win_inv_def)
  ultimately show ?thesis using inv count_down by (auto simp: win_inv_def weight_upd)
next
  case submitted_all
  with inv show ?thesis by (auto simp: win_inv_def)
next
  case latch_wait
  with inv show ?thesis by (auto simp: win_inv_def)
qed

interpretation win_machine: invariant_system "win_init n" "win_step n" "win_inv n" for n
proof unfold_locales
  show "win_inv n s" if "win_init n s" for s
    using that by (simp add: win_init_def win_inv_def unfinished_initially)
qed (rule win_inv_step)


section \<open>Fired work\<close>

text \<open>
  The calls a fire makes: on its own thread, and later in the pool's callback. A functor that fits
  into the context pointer is packed into it, any other is copied to the heap. The counting calls
  are those of \<open>Tracking\<close>. \<open>Uncount\<close> is the guard's destructor, which runs last.
\<close>

datatype pool_call = New_Functor | In_Flight fire_action | Call_Work | Delete_Functor | Uncount

record fired_calls =
  accepted :: bool
  on_caller :: "pool_call list"
  in_callback :: "pool_call list"

definition run_functor :: "bool \<Rightarrow> pool_call list" where
  "run_functor fits = (if fits then [Call_Work, Uncount] else [Call_Work, Delete_Functor, Uncount])"

definition windows_fire_and_forget :: "bool \<Rightarrow> bool \<Rightarrow> bool \<Rightarrow> fired_calls" where
  "windows_fire_and_forget fits allocated submitted =
     (if \<not> fits \<and> \<not> allocated then \<lparr>accepted = False, on_caller = [], in_callback = []\<rparr>
      else let create = (if fits then [] else [New_Functor])
           in if submitted
              then \<lparr>accepted = True, on_caller = create @ [In_Flight Count, In_Flight Submit], in_callback = run_functor fits\<rparr>
              else \<lparr>accepted = True, on_caller = create @ [In_Flight Count] @ run_functor fits, in_callback = []\<rparr>)"

text \<open>Apple: GCD takes every submission, and a failing allocation terminates the program (\<open>None\<close>).\<close>

definition apple_fire_and_forget :: "bool \<Rightarrow> bool \<Rightarrow> fired_calls option" where
  "apple_fire_and_forget fits allocated =
     (if \<not> fits \<and> \<not> allocated then None
      else Some \<lparr>accepted = True,
        on_caller = (if fits then [] else [New_Functor]) @ [In_Flight Count, In_Flight Submit],
        in_callback = run_functor fits\<rparr>)"

definition windows_fire_with_after :: "('s \<Rightarrow> 's) \<Rightarrow> ('s \<Rightarrow> 's) \<Rightarrow> 's \<Rightarrow> 's" where
  "windows_fire_with_after work after s = after (work s)"

text \<open>
  The single-threaded shop runs the work at once where there are no threads (Emscripten), and
  otherwise, as the OpenMP shop does, in a detached thread, whose creation may throw (\<open>None\<close>). Neither
  counts the work.
\<close>

definition detached_fire :: "bool \<Rightarrow> fired_calls option" where
  "detached_fire thread_created =
     (if thread_created then Some \<lparr>accepted = True, on_caller = [], in_callback = [Call_Work]\<rparr> else None)"

definition single_threaded_fire_and_forget :: "bool \<Rightarrow> bool \<Rightarrow> fired_calls option" where
  "single_threaded_fire_and_forget no_threads thread_created =
     (if no_threads then Some \<lparr>accepted = True, on_caller = [Call_Work], in_callback = []\<rparr>
      else detached_fire thread_created)"

definition openmp_fire_and_forget :: "bool \<Rightarrow> fired_calls option" where
  "openmp_fire_and_forget thread_created = detached_fire thread_created"

fun all_calls :: "fired_calls \<Rightarrow> pool_call list" where
  "all_calls f = on_caller f @ in_callback f"

definition balanced_fire :: "fired_calls \<Rightarrow> bool" where
  "balanced_fire f \<longleftrightarrow>
     count_list (all_calls f) Call_Work = of_bool (accepted f) \<and>
     count_list (all_calls f) (In_Flight Count) = of_bool (accepted f) \<and>
     count_list (all_calls f) Uncount = of_bool (accepted f) \<and>
     count_list (all_calls f) Delete_Functor = count_list (all_calls f) New_Functor \<and>
     (accepted f \<longrightarrow> last (all_calls f) = Uncount) \<and>
     (in_callback f \<noteq> [] \<longrightarrow> List.map_filter (\<lambda>c. case c of In_Flight a \<Rightarrow> Some a | _ \<Rightarrow> None) (on_caller f) = stateless_fire)"

section \<open>Dispatch\<close>

text \<open>
  The closure owns the promise, so it never fits into a pointer. The slot's life: the closure runs,
  on a worker or at once on the caller, or it is destroyed without running.
\<close>

definition pool_dispatch ::
  "('v \<Rightarrow> 's \<Rightarrow> 's) \<Rightarrow> ('e exception_ptr \<Rightarrow> 's \<Rightarrow> 's) \<Rightarrow> ('s \<Rightarrow> bool) \<Rightarrow> fired_calls \<Rightarrow> 'e + 'v \<Rightarrow> 's \<Rightarrow> 's"
where
  "pool_dispatch set_value set_exception is_completed f work =
     promise_life set_value set_exception is_completed (if Call_Work \<in> set (all_calls f) then Some work else None)"

text \<open>\<open>dispatch\<close>: the standard promise, set by the closure's \<open>try\<close> and \<open>catch\<close>, broken by its destructor.\<close>

definition std_dispatch :: "fired_calls \<Rightarrow> 'e + 'v \<Rightarrow> ('v, 'e) result" where
  "std_dispatch f work =
     (if Call_Work \<in> set (all_calls f) then (case work of Inl e \<Rightarrow> Inl (Thrown e) | Inr v \<Rightarrow> Inr v)
      else Inl Broken_Promise)"

definition windows_dispatch :: "bool \<Rightarrow> bool \<Rightarrow> 'e + 'v \<Rightarrow> ('v, 'e) result" where
  "windows_dispatch allocated submitted work = std_dispatch (windows_fire_and_forget False allocated submitted) work"

definition apple_dispatch :: "bool \<Rightarrow> 'e + 'v \<Rightarrow> ('v, 'e) result option" where
  "apple_dispatch allocated work = map_option (\<lambda>f. std_dispatch f work) (apple_fire_and_forget False allocated)"

text \<open>On Emscripten the single-threaded shop does the same with its own fire.\<close>

definition single_threaded_dispatch :: "'e + 'v \<Rightarrow> ('v, 'e) result option" where
  "single_threaded_dispatch work = map_option (\<lambda>f. std_dispatch f work) (single_threaded_fire_and_forget True False)"

definition windows_dispatch_lite :: "bool \<Rightarrow> bool \<Rightarrow> 'e + 'v \<Rightarrow> ('v, 'e) future_state" where
  "windows_dispatch_lite allocated submitted work =
     pool_dispatch fs_set_value fs_set_exception completed (windows_fire_and_forget False allocated submitted)
       work future_state_new"

definition windows_dispatch_outcome :: "bool \<Rightarrow> bool \<Rightarrow> 'e + 'v \<Rightarrow> ('v, 'e) outcome_state" where
  "windows_dispatch_outcome allocated submitted work =
     pool_dispatch os_set_value os_set_exception o_completed (windows_fire_and_forget False allocated submitted)
       work outcome_state_new"

definition apple_dispatch_lite :: "bool \<Rightarrow> 'e + 'v \<Rightarrow> ('v, 'e) future_state option" where
  "apple_dispatch_lite allocated work =
     map_option (\<lambda>f. pool_dispatch fs_set_value fs_set_exception completed f work future_state_new)
       (apple_fire_and_forget False allocated)"

definition apple_dispatch_outcome :: "bool \<Rightarrow> 'e + 'v \<Rightarrow> ('v, 'e) outcome_state option" where
  "apple_dispatch_outcome allocated work =
     map_option (\<lambda>f. pool_dispatch os_set_value os_set_exception o_completed f work outcome_state_new)
       (apple_fire_and_forget False allocated)"

section \<open>Theorems\<close>

lemma mset_concat_perm:
  assumes "mset xs = mset ys"
  shows "mset (concat (map f xs)) = mset (concat (map f ys))"
  unfolding mset_concat map_map by (simp only: assms mset_map flip: sum_mset_sum_list)

lemma windows_chunks_tile:
  fixes num_workers :: "'h::len word"
  assumes "0 < unat num_workers" "4 * unat num_workers \<le> 2 ^ LENGTH('h)" "LENGTH('h) \<le> 16"
  shows "\<exists>ps. windows_chunks num_workers iterations = Some ps \<and> tiles 0 (as_nats ps) (unat iterations)"
proof (cases "iterations = 0")
  case True
  then show ?thesis by (simp add: windows_chunks_def)
next
  case False
  define n where "n = windows_num_chunks num_workers iterations"
  have w: "unat (4 * ucast num_workers :: iterations_t) = 4 * unat num_workers"
  proof -
    have "(2 :: nat) ^ LENGTH('h) \<le> 2 ^ 16" using assms(3) by (intro power_increasing) simp_all
    then show ?thesis using assms by (subst unat_mult_small) (simp_all add: unat_ucast_widen)
  qed
  then have n: "unat n = min (unat iterations) (4 * unat num_workers)"
    by (simp add: n_def windows_num_chunks_def chunks_per_worker_def unat_min)
  have "n \<noteq> 0" using False assms(1) by (simp add: n unat_gt_0 flip: unat_gt_0)
  then obtain s where s: "(chunked_spread_new iterations n :: 'h word chunked_spread option) = Some s"
    by (simp add: chunked_spread_new_def)
  have "windows_chunks num_workers iterations = Some (chunk_list s (unat n))"
    using False s by (simp add: windows_chunks_def flip: n_def)
  moreover have "min (unat n) (unat iterations) = unat n" using n by simp
  ultimately show ?thesis using chunk_list_tiles [OF s] assms n by auto
qed

text \<open>C30. A loop on the Windows pool or through GCD covers every iteration once: the Windows chunks in
  order, the calls of GCD in whatever order it makes them, as long as four times the number of
  workers fits into the type of a chunk index.\<close>

theorem pool_spread_covers:
  fixes num_workers :: "'h::len word"
  assumes "0 < unat num_workers" and "4 * unat num_workers \<le> 2 ^ LENGTH('h)" and "LENGTH('h) \<le> 16"
    and "\<And>n. mset (order n) = mset [0..<n]"
  shows "(\<exists>ps. windows_chunks num_workers iterations = Some ps \<and> tiles 0 (as_nats ps) (unat iterations)) \<and>
    (\<exists>ps. apple_calls num_workers iterations order = Some ps \<and>
       mset (concat (map (\<lambda>(a, b). [a..<b]) (as_nats ps))) = mset [0..<unat iterations])"
proof
  show "\<exists>ps. windows_chunks num_workers iterations = Some ps \<and> tiles 0 (as_nats ps) (unat iterations)"
    by (rule windows_chunks_tile [OF assms(1-3)])
next
  let ?c = "4 * ucast num_workers :: iterations_t"
  have c: "unat ?c = 4 * unat num_workers"
  proof -
    have "(2 :: nat) ^ LENGTH('h) \<le> 2 ^ 16" using assms(3) by (intro power_increasing) simp_all
    then show ?thesis using assms by (subst unat_mult_small) (simp_all add: unat_ucast_widen)
  qed
  have "?c \<noteq> 0" using c assms(1) by (metis mult_is_0 unat_0 less_numeral_extra(3) zero_neq_numeral)
  then obtain s where s: "(chunked_spread_new iterations ?c :: 'h word chunked_spread option) = Some s"
    by (simp add: chunked_spread_new_def)
  let ?n = "min (unat ?c) (unat iterations)" and ?its = "\<lambda>(a, b). [unat a..<unat (b :: iterations_t)]"
  have a: "apple_calls num_workers iterations order = Some (map (apple_chunk_call s) (order ?n))"
    using s by (simp add: apple_calls_def chunks_per_worker_def unat_min Let_def)
  have "chunk_list s ?n = map (apple_chunk_call s) [0..<?n]"
    by (simp add: chunk_list_def apple_chunk_call_def)
  with chunk_list_tiles [OF s] c assms(2,3)
  have "concat (map ?its (map (apple_chunk_call s) [0..<?n])) = [0..<unat iterations]"
    using tiles_concat by (fastforce simp: as_nats_def comp_def case_prod_beta)
  then have "mset (concat (map ?its (map (apple_chunk_call s) (order ?n)))) = mset [0..<unat iterations]"
    using mset_concat_perm [OF assms(4) [of ?n], of "?its \<circ> apple_chunk_call s"] by simp
  with a show "\<exists>ps. apple_calls num_workers iterations order = Some ps \<and>
       mset (concat (map (\<lambda>(a, b). [a..<b]) (as_nats ps))) = mset [0..<unat iterations]"
    by (auto simp: as_nats_def comp_def case_prod_beta)
qed


theorem pool_spread_covers_witness:
  "\<exists>ps. apple_calls (3 :: 8 word) 1000 (\<lambda>n. rev [0..<n]) = Some ps \<and>
     mset (concat (map (\<lambda>(a, b). [a..<b]) (as_nats ps))) = mset [0..<1000]"
  using pool_spread_covers [of "3 :: 8 word" "\<lambda>n. rev [0..<n]" 1000] by simp

text \<open>The chunk index is narrowed without the clamp that the libuv scheduler has: with 8 bits and
  65 workers the last four of 260 chunks repeat the first four, and their iterations never run.\<close>

theorem pool_chunk_index_wraps:
  "\<exists>ps. windows_chunks (65 :: 8 word) 260 = Some ps \<and> drop 256 ps = take 4 ps \<and> (\<forall>p\<in>set ps. snd p \<le> 256)"
proof -
  have "map_option (\<lambda>ps. drop 256 ps = take 4 ps \<and> list_all (\<lambda>p. snd p \<le> 256) ps) (windows_chunks (65 :: 8 word) 260)
      = Some True" by code_simp
  then show ?thesis by (auto simp: list_all_iff)
qed

text \<open>C14. A loop on the Windows pool, with submissions failing at will and callbacks in any order: no
  chunk is called twice; when the call returns every chunk has been called once and every callback
  has left the caller's frame; and while it waits, some callback is still due.\<close>

theorem windows_spread_safe:
  assumes "reach (win_init n) (win_step n) s"
  shows "(\<forall>i. calls s i \<le> 1) \<and>
    (submitter s = S_Returned \<longrightarrow> (\<forall>i<n. calls s i = 1 \<and> callback s i = Ran)) \<and>
    (submitter s = S_Wait \<and> sync s \<noteq> 0 \<longrightarrow> (\<exists>i<n. callback s i = In_Pool \<or> callback s i = In_Callback))"
proof -
  note inv = win_machine.inv_reach [OF assms]
  have le: "called c \<le> 1" for c by (cases c) simp_all
  have unf: "unfinished c = 0 \<longleftrightarrow> c = Ran" for c by (cases c) simp_all
  have sync: "sync s = 0 \<longleftrightarrow> (\<forall>i<n. callback s i = Ran)"
    using inv by (simp add: win_inv_def weight_zero unf)
  have "callback s i = Ran \<or> callback s i = In_Pool \<or> callback s i = In_Callback"
    if "submitter s = S_Wait" "i < n" for i
    using inv that by (cases "callback s i") (auto simp: win_inv_def)
  with inv sync le show ?thesis by (auto simp: win_inv_def)
qed

theorem windows_spread_safe_witness:
  "\<exists>s. submitter s = S_Returned \<and> calls s 0 = 1 \<and> reach (win_init 1) (win_step 1) s"
proof -
  define s0 where "s0 = \<lparr>callback = (\<lambda>_. Not_Submitted), calls = (\<lambda>_. 0), sync = 1, submitter = S_Submit 0\<rparr>"
  define s1 where "s1 = s0\<lparr>callback := (callback s0)(0 := Ran), calls := (calls s0)(0 := calls s0 0 + 1),
    sync := sync s0 - 1, submitter := S_Submit (Suc 0)\<rparr>"
  have "reach (win_init 1) (win_step 1) s0" by (rule reach.start) (simp add: s0_def win_init_def)
  moreover have "win_step 1 s0 s1" unfolding s1_def by (rule win_step.run_inline) (simp_all add: s0_def)
  moreover have "win_step 1 s1 (s1\<lparr>submitter := S_Wait\<rparr>)" by (rule win_step.submitted_all) (simp add: s1_def)
  moreover have "win_step 1 (s1\<lparr>submitter := S_Wait\<rparr>) (s1\<lparr>submitter := S_Wait, submitter := S_Returned\<rparr>)"
    by (rule win_step.latch_wait) (simp_all add: s1_def s0_def)
  ultimately have "reach (win_init 1) (win_step 1) (s1\<lparr>submitter := S_Wait, submitter := S_Returned\<rparr>)"
    by (meson reach.move)
  with windows_spread_safe [OF this] show ?thesis by fastforce
qed

text \<open>OpenMP: below the signed range the pieces of the loop cover every iteration once and in order,
  each of at most the size of a worker's share.\<close>

theorem openmp_spread_covers:
  assumes "unat iterations + (unat iterations div threads + 1) < 2 ^ 31"
    and "0 < threads" and "threads < 2 ^ LENGTH('h::len)" and "LENGTH('h) \<le> 16"
  shows "\<exists>ps. openmp_spread threads TYPE('h) iterations = Some ps \<and> tiles 0 (as_nats ps) (unat iterations)"
proof -
  let ?w = "of_nat threads :: 'h word"
  have w: "unat ?w = threads" using assms(3) by (rule unat_of_nat_small)
  then have u: "unat (ucast ?w :: iterations_t) = threads" using assms(4) by (simp add: unat_ucast_widen)
  have d: "unat (iterations div ucast ?w) = unat iterations div threads" by (simp only: unat_div_eq u)
  have ipw: "unat (iterations div ucast ?w + 1) = unat iterations div threads + 1"
    using assms(1) d by (subst unat_add_small) auto
  then have "iterations div ucast ?w + 1 \<noteq> 0" by (metis Suc_eq_plus1 nat.distinct(1) unat_0)
  then obtain ps where "openmp_loop iterations (iterations div ucast ?w + 1) 0 = Some ps"
      "tiles 0 (as_nats ps) (unat iterations)"
    using openmp_loop_tiles [of iterations "iterations div ucast ?w + 1" 0] assms(1) ipw by auto
  moreover have "?w \<noteq> 0" using w assms(2) by (metis less_numeral_extra(3) unat_0)
  ultimately show ?thesis by (simp add: openmp_spread_def Let_def)
qed

theorem openmp_spread_covers_witness:
  "\<exists>ps. openmp_spread 3 TYPE(16) 10 = Some ps \<and> tiles 0 (as_nats ps) 10"
  using openmp_spread_covers [where iterations = 10 and threads = 3 and 'h = 16] by simp

text \<open>A fire on the platform pools is balanced on every branch (packed or on the heap, no memory,
  rejected by the pool): an accepted fire is counted before it is submitted, runs the work once, frees
  the functor it allocated and uncounts last, so that a drain that reads zero finds no functor alive;
  a fire that is not accepted has done nothing. The OpenMP and the single-threaded shop do not count at
  all, where the header of the counter says that every fire does.\<close>

theorem pool_fire_balanced:
  "map_option all_calls (openmp_fire_and_forget created) \<in> {None, Some [Call_Work]} \<and>
   map_option all_calls (single_threaded_fire_and_forget no_threads created) \<in> {None, Some [Call_Work]} \<and>
   balanced_fire (windows_fire_and_forget fits allocated submitted) \<and>
   (accepted (windows_fire_and_forget fits allocated submitted) \<longleftrightarrow> fits \<or> allocated) \<and>
   (case apple_fire_and_forget fits allocated of None \<Rightarrow> \<not> fits \<and> \<not> allocated | Some f \<Rightarrow> balanced_fire f \<and> accepted f)"
  by (cases fits; cases allocated; cases submitted)
    (simp_all add: balanced_fire_def windows_fire_and_forget_def apple_fire_and_forget_def run_functor_def
      stateless_fire_def map_filter_simps openmp_fire_and_forget_def single_threaded_fire_and_forget_def
      detached_fire_def)

text \<open>A dispatch to the Windows pool delivers the work's result whether the pool takes the closure or
  not; when there is no memory for the closure the future is broken, although the source says that
  the promise is never abandoned. Through GCD the program delivers or terminates.\<close>

theorem pool_dispatch_delivers:
  fixes work :: "'e + 'v"
  shows "let result = expected (if allocated then Some work else None) in
    (\<exists>s'. fs_get moved (windows_dispatch_lite allocated submitted work) = Some (result, s')) \<and>
    (\<exists>s'. os_get moved_outcome (windows_dispatch_outcome allocated submitted work) = Some (result, s')) \<and>
    windows_dispatch allocated submitted work = result \<and>
    apple_dispatch allocated work = (if allocated then Some (expected (Some work)) else None) \<and>
    single_threaded_dispatch work = Some (expected (Some work)) \<and>
    (case apple_dispatch_lite allocated work of None \<Rightarrow> \<not> allocated
      | Some s \<Rightarrow> \<exists>s'. fs_get moved s = Some (expected (Some work), s')) \<and>
    (case apple_dispatch_outcome allocated work of None \<Rightarrow> \<not> allocated
      | Some s \<Rightarrow> \<exists>s'. os_get moved_outcome s = Some (expected (Some work), s'))"
proof -
  have f: "\<exists>s'. fs_get moved (promise_life fs_set_value fs_set_exception completed w future_state_new) = Some (expected w, s')"
    for w :: "('e + 'v) option"
    using future_slot.life_delivers [of future_state_new moved w] by (auto simp: future_fresh_def)
  have o: "\<exists>s'. os_get moved_outcome (promise_life os_set_value os_set_exception o_completed w outcome_state_new) = Some (expected w, s')"
    for w :: "('e + 'v) option"
    using outcome_slot.life_delivers [of outcome_state_new moved_outcome w] by (auto simp: outcome_fresh_def)
  have std: "std_dispatch g work = expected (if Call_Work \<in> set (all_calls g) then Some work else None)" for g
    by (simp add: std_dispatch_def expected_def)
  have win: "Call_Work \<in> set (all_calls (windows_fire_and_forget False allocated submitted)) \<longleftrightarrow> allocated"
    by (simp add: windows_fire_and_forget_def run_functor_def Let_def)
  have apple: "apple_fire_and_forget False allocated = Some g \<Longrightarrow> Call_Work \<in> set (all_calls g)" for g
    by (auto simp: apple_fire_and_forget_def run_functor_def split: if_splits)
  have none: "apple_fire_and_forget False allocated = None \<Longrightarrow> \<not> allocated"
    by (simp add: apple_fire_and_forget_def split: if_splits)
  have single: "single_threaded_dispatch work = Some (expected (Some work))"
    by (simp add: single_threaded_dispatch_def single_threaded_fire_and_forget_def std_dispatch_def expected_def)
  have "apple_dispatch allocated work = (if allocated then Some (expected (Some work)) else None)"
    by (simp add: apple_dispatch_def std apple_fire_and_forget_def run_functor_def)
  then show ?thesis
    using f o apple none
    by (auto simp: Let_def std win windows_dispatch_def single windows_dispatch_lite_def windows_dispatch_outcome_def apple_dispatch_lite_def
        apple_dispatch_outcome_def pool_dispatch_def simp del: all_calls.simps split: option.split)
qed

end
