(* ===== verification/Thread.thy ===== *)
theory Thread
  imports Prelude
begin

text \<open>
  Threads: threading/thread.hpp over threading/posix/thread.hpp and .cpp and
  threading/windows/thread.hpp. A thread object holds a handle; starting it copies a functor to
  the new thread in one of three ways; priorities and affinities are translated to the
  platform's. The operating system's calls are results given as arguments.
\<close>

unbundle bit_operations_syntax

section \<open>Handles\<close>

text \<open>\<open>None\<close> is the empty handle. \<open>move_assign\<close> is the member-wise text of the assignment, on a store
  of thread objects, so that source and target can be the same object.\<close>

type_synonym threads = "nat \<Rightarrow> nat option"

definition joinable :: "nat option \<Rightarrow> bool" where
  "joinable handle \<longleftrightarrow> handle \<noteq> None"

definition swap_threads :: "nat \<Rightarrow> nat \<Rightarrow> threads \<Rightarrow> threads" where
  "swap_threads this other h = h(this := h other, other := h this)"

definition move_construct :: "nat \<Rightarrow> nat \<Rightarrow> threads \<Rightarrow> threads" where
  "move_construct this other h = swap_threads this other (h(this := None))"

definition move_assign :: "nat \<Rightarrow> nat \<Rightarrow> threads \<Rightarrow> threads" where
  "move_assign this other h = (let h' = h(this := h other) in h'(other := None))"

text \<open>\<open>create\<close>: \<open>Inl\<close> is the exception for a failed creation, which leaves the handle empty.\<close>

definition create_thread :: "nat \<Rightarrow> nat option \<Rightarrow> threads \<Rightarrow> string + threads" where
  "create_thread this started h =
     (case started of None \<Rightarrow> Inl ''Not enough resources to create a new thread''
      | Some handle \<Rightarrow> Inr (h(this := Some handle)))"

definition join_thread :: "nat \<Rightarrow> threads \<Rightarrow> threads" where
  "join_thread this h = h(this := None)"

section \<open>Starting a thread\<close>

datatype start_path = In_Pointer | Synchronized | On_Heap

definition start_path_of :: "nat \<Rightarrow> nat \<Rightarrow> bool \<Rightarrow> bool \<Rightarrow> start_path" where
  "start_path_of functor_size pointer_size trivially_copyable nothrow_constructible =
     (if functor_size \<le> pointer_size \<and> trivially_copyable then In_Pointer
      else if nothrow_constructible then Synchronized else On_Heap)"

text \<open>The first path: the functor's bytes in the context pointer, the rest of it uninitialised.\<close>

definition pack_functor :: "8 word list \<Rightarrow> 8 word list \<Rightarrow> 8 word list" where
  "pack_functor functor_bytes context = functor_bytes @ drop (length functor_bytes) context"

definition tiny_functor :: "nat \<Rightarrow> 8 word list \<Rightarrow> 8 word list" where
  "tiny_functor functor_size context = take functor_size context"

text \<open>The third path. The smart pointer gives the functor up only after the creation has succeeded.\<close>

datatype start_event = New_Copy | Throw_Error | Run_Functor | Delete_Copy

definition start_on_heap :: "bool \<Rightarrow> start_event list \<times> start_event list" where
  "start_on_heap created =
     (if created then ([New_Copy], [Run_Functor, Delete_Copy])
      else ([New_Copy, Throw_Error, Delete_Copy], []))"

definition start_in_pointer :: "bool \<Rightarrow> start_event list \<times> start_event list" where
  "start_in_pointer created = (if created then ([], [Run_Functor]) else ([Throw_Error], []))"

text \<open>
  The second path, \<open>synchronized_invocation\<close>: the parent keeps the functor, a mutex, an event and a
  flag on its stack and waits in the destructor until the child has copied the functor. A
  failed creation throws, which runs the same destructor. The child notifies without the mutex.
\<close>

datatype parent_pc = T_Create | T_Check | T_Enter | T_Asleep | T_Left

datatype child_pc = K_None | K_Copy | K_Notify | K_Running

record sync_sys =
  parent :: parent_pc
  child :: child_pc
  functor_copied :: bool
  creation_failed :: bool
  stale_notify :: bool             \<comment> \<open>the event was notified after its destruction\<close>

definition sync_init :: "sync_sys \<Rightarrow> bool" where
  "sync_init s \<longleftrightarrow> s = \<lparr>parent = T_Create, child = K_None, functor_copied = False, creation_failed = False,
     stale_notify = False\<rparr>"

inductive sync_step :: "sync_sys \<Rightarrow> sync_sys \<Rightarrow> bool" where
  create: "parent s = T_Create \<Longrightarrow> sync_step s (s\<lparr>parent := T_Check, child := K_Copy\<rparr>)"
| create_fails: "parent s = T_Create \<Longrightarrow> sync_step s (s\<lparr>parent := T_Check, creation_failed := True\<rparr>)"
| check: "parent s = T_Check \<Longrightarrow> sync_step s (s\<lparr>parent := if functor_copied s then T_Left else T_Enter\<rparr>)"
| sleep: "parent s = T_Enter \<Longrightarrow> sync_step s (s\<lparr>parent := T_Asleep\<rparr>)"
| copy: "child s = K_Copy \<Longrightarrow> sync_step s (s\<lparr>functor_copied := True, child := K_Notify\<rparr>)"
| notify: "child s = K_Notify \<Longrightarrow>
    sync_step s (s\<lparr>child := K_Running, parent := if parent s = T_Asleep then T_Check else parent s,
      stale_notify := (stale_notify s \<or> parent s = T_Left)\<rparr>)"

inductive_simps sync_step_iff: "sync_step s s'"

definition sync_inv :: "sync_sys \<Rightarrow> bool" where
  "sync_inv s \<longleftrightarrow> (functor_copied s \<longleftrightarrow> child s = K_Notify \<or> child s = K_Running) \<and>
     (parent s = T_Left \<longrightarrow> functor_copied s) \<and> (parent s = T_Create \<longrightarrow> child s = K_None \<and> \<not> creation_failed s) \<and>
     (creation_failed s \<longrightarrow> child s = K_None) \<and> (stale_notify s \<longrightarrow> parent s = T_Left)"

interpretation sync_machine: invariant_system sync_init sync_step sync_inv
proof unfold_locales
  show "sync_inv s" if "sync_init s" for s
    using that by (simp add: sync_init_def sync_inv_def)
  show "sync_inv s'" if "sync_inv s" "sync_step s s'" for s s'
    using that(2,1) by cases (auto simp: sync_inv_def)
qed

section \<open>Priorities\<close>

datatype priority = Prio_Idle | Prio_Background | Prio_Low | Prio_Normal | Prio_High | Prio_Foreground | Prio_Time_Critical

fun nice_value :: "priority \<Rightarrow> int" where
  "nice_value Prio_Idle = 19"
| "nice_value Prio_Background = 10"
| "nice_value Prio_Low = 5"
| "nice_value Prio_Normal = 0"
| "nice_value Prio_High = - 5"
| "nice_value Prio_Foreground = - 10"
| "nice_value Prio_Time_Critical = - 20"

text \<open>The quotient and the remainder are taken in \<open>int\<close>; the result is narrowed to eight bits.\<close>

definition round_divide :: "16 word \<Rightarrow> 8 word \<Rightarrow> 8 word" where
  "round_divide numerator denominator =
     (let integral_division = uint numerator div uint denominator;
          at_least_half_remainder = uint numerator mod uint denominator \<ge> uint denominator div 2
      in of_int (integral_division + of_bool at_least_half_remainder))"

definition api_range :: "8 word" where
  "api_range = of_int (nice_value Prio_Idle - nice_value Prio_Time_Critical)"

definition priority_value :: "int \<Rightarrow> int \<Rightarrow> priority \<Rightarrow> int" where
  "priority_value priority_min priority_max new_priority =
     (let platform_range = (of_int (priority_max - priority_min) :: 8 word);
          uninverted_nice_value = (of_int (- (nice_value new_priority - nice_value Prio_Idle)) :: 8 word)
      in priority_min + uint (round_divide (of_int (uint uninverted_nice_value * uint platform_range)) api_range))"

text \<open>The POSIX \<open>set_priority\<close> outside Android and Apple: its result and the call it makes.\<close>

definition posix_set_priority :: "int \<Rightarrow> int \<Rightarrow> bool \<Rightarrow> priority \<Rightarrow> bool \<times> int option" where
  "posix_set_priority priority_min priority_max setschedprio_ok new_priority =
     (if (of_int (priority_max - priority_min) :: 8 word) \<noteq> 0
      then (setschedprio_ok, Some (priority_value priority_min priority_max new_priority))
      else (False, None))"

section \<open>Affinity masks\<close>

definition windows_add_cpu :: "64 word \<Rightarrow> nat \<Rightarrow> 64 word" where
  "windows_add_cpu cpus cpu_id = cpus OR push_bit cpu_id 1"

definition linux_add_cpu :: "nat set \<Rightarrow> nat \<Rightarrow> nat set" where
  "linux_add_cpu cpus cpu_id = (if cpu_id < 1024 then insert cpu_id cpus else cpus)"

definition apple_add_cpu :: "32 word \<Rightarrow> 32 word \<Rightarrow> 32 word" where
  "apple_add_cpu tag cpu_id = cpu_id + 1"


section \<open>Theorems\<close>

text \<open>The rounding, on integers.\<close>

definition nearest_39 :: "int \<Rightarrow> int" where
  "nearest_39 m = m div 39 + of_bool (19 \<le> m mod 39)"

lemma nearest_39_error: "39 * nearest_39 m - m \<le> 20 \<and> m - 39 * nearest_39 m \<le> 20"
  unfolding nearest_39_def by (cases "19 \<le> m mod 39") (simp_all, presburger+)

lemma nearest_39_mono:
  assumes "m \<le> n"
  shows "nearest_39 m \<le> nearest_39 n"
proof -
  have d: "m = 39 * (m div 39) + m mod 39" "n = 39 * (n div 39) + n mod 39"
      "0 \<le> m mod 39" "m mod 39 < 39" "0 \<le> n mod 39" "n mod 39 < 39" by simp_all
  consider "m div 39 < n div 39" | "m div 39 = n div 39" using zdiv_mono1 [OF assms, of 39] by linarith
  then show ?thesis
  proof cases
    case 1
    then show ?thesis by (simp add: nearest_39_def)
  next
    case 2
    then have "m mod 39 \<le> n mod 39" using d assms by linarith
    with 2 show ?thesis by (simp add: nearest_39_def)
  qed
qed

lemma nearest_39_exact: "nearest_39 (39 * n) = n"
  by (simp add: nearest_39_def)

lemma priority_value_eq:
  assumes "0 \<le> priority_max - priority_min" "priority_max - priority_min < 256"
  shows "priority_value priority_min priority_max p =
    priority_min + nearest_39 ((19 - nice_value p) * (priority_max - priority_min))"
proof -
  define R k where "R = priority_max - priority_min" and "k = 19 - nice_value p"
  define m where "m = k * R"
  have k: "0 \<le> k" "k \<le> 39" by (cases p; simp add: k_def)+
  have r: "0 \<le> R" "R < 256" using assms by (simp_all add: R_def)
  have m: "0 \<le> m" "m \<le> 39 * R" using k r by (simp_all add: m_def mult_right_mono)
  have "uint (of_int m :: 16 word) = m"
    using m r by (simp add: uint_word_of_int_eq take_bit_int_eq_self)
  moreover have "uint (of_int k :: 8 word) = k" "uint (of_int R :: 8 word) = R"
    using k r by (simp_all add: uint_word_of_int_eq take_bit_int_eq_self)
  moreover have "0 \<le> nearest_39 m" "nearest_39 m \<le> R"
    using nearest_39_mono [OF m(1)] nearest_39_mono [OF m(2)] nearest_39_exact [of 0] nearest_39_exact [of R] by simp_all
  then have "uint (of_int (nearest_39 m) :: 8 word) = nearest_39 m"
    using r by (subst uint_word_of_int_eq) (simp add: take_bit_int_eq_self)
  moreover have "- (nice_value p - nice_value Prio_Idle) = k" by (simp add: k_def)
  ultimately show ?thesis
    unfolding priority_value_def round_divide_def api_range_def Let_def R_def [symmetric] k_def [symmetric]
    by (simp only: m_def [symmetric]) (simp add: nearest_39_def)
qed

text \<open>The scaling of priorities to a POSIX scheduler: within its range, the ends to the ends, order kept,
  and never more than 20/39 of a step off the exact scale. (The rounding tests for half of the odd
  divisor rounded down: \<open>low\<close> on macOS's range becomes 27, where 26 is nearer.) Where the range is
  empty, as on Linux, no call is made and the result is a failure.\<close>

theorem priority_scaling:
  fixes priority_min priority_max :: int
  assumes "priority_min \<le> priority_max" and "priority_max - priority_min < 256"
  defines "value \<equiv> priority_value priority_min priority_max"
  shows "priority_min \<le> value p \<and> value p \<le> priority_max \<and>
    value Prio_Idle = priority_min \<and> value Prio_Time_Critical = priority_max \<and>
    (nice_value p \<le> nice_value q \<longrightarrow> value q \<le> value p) \<and>
    \<bar>39 * (value p - priority_min) - (19 - nice_value p) * (priority_max - priority_min)\<bar> \<le> 20 \<and>
    priority_value 15 47 Prio_Low = 27 \<and> posix_set_priority 0 0 ok p = (False, None)"
proof -
  define R where "R = priority_max - priority_min"
  have R: "0 \<le> R" "R < 256" using assms by (simp_all add: R_def)
  have v: "value p = priority_min + nearest_39 ((19 - nice_value p) * R)" for p
    using priority_value_eq [of priority_max priority_min p] R by (simp add: value_def R_def)
  have mono: "nearest_39 (k * R) \<le> nearest_39 (l * R)" if "k \<le> l" for k l
    using that R by (intro nearest_39_mono mult_right_mono)
  have k: "0 \<le> 19 - nice_value p" "19 - nice_value p \<le> 39" by (cases p; simp)+
  have ends: "nearest_39 (0 * R) = 0" "nearest_39 (39 * R) = R"
    using nearest_39_exact [of 0] nearest_39_exact by simp_all
  have "priority_value 15 47 Prio_Low = 27" by (simp add: priority_value_eq nearest_39_def)
  moreover have "nice_value p \<le> nice_value q \<longrightarrow> value q \<le> value p"
    using mono [of "19 - nice_value q" "19 - nice_value p"] by (simp add: v)
  moreover have "value Prio_Idle = priority_min" "value Prio_Time_Critical = priority_max"
    using ends by (simp_all add: v R_def)
  moreover have "priority_min \<le> value p" "value p \<le> priority_max"
    using mono [OF k(1)] mono [OF k(2)] ends by (simp_all add: v R_def)
  moreover have "\<bar>39 * (value p - priority_min) - (19 - nice_value p) * (priority_max - priority_min)\<bar> \<le> 20"
    using nearest_39_error [of "(19 - nice_value p) * R"] by (simp add: v abs_le_iff flip: R_def)
  ultimately show ?thesis by (simp add: posix_set_priority_def)
qed

theorem priority_scaling_witness:
  "priority_value 15 47 Prio_Idle = 15 \<and> priority_value 15 47 Prio_Time_Critical = 47"
  using priority_scaling [of 15 47] by simp

definition nobody_will_notify :: "sync_sys \<Rightarrow> bool" where
  "nobody_will_notify s \<longleftrightarrow> parent s = T_Asleep \<and> (\<forall>s'. \<not> sync_step s s')"

text \<open>Starting a thread through \<open>synchronized_invocation\<close>: the caller goes on only after the functor
  has been copied, so the child never reads the caller's functor after that.\<close>

theorem thread_start_copies:
  assumes "reach sync_init sync_step s"
  shows "(parent s = T_Left \<longrightarrow> functor_copied s \<and> \<not> creation_failed s) \<and> (child s = K_Copy \<longrightarrow> parent s \<noteq> T_Left)"
  using sync_machine.inv_reach [OF assms] by (auto simp: sync_inv_def)

lemma sync_start: "reach sync_init sync_step \<lparr>parent = T_Create, child = K_None, functor_copied = False,
    creation_failed = False, stale_notify = False\<rparr>"
  by (rule reach.start) (simp add: sync_init_def)

lemma sync_created: "reach sync_init sync_step \<lparr>parent = T_Check, child = K_Copy, functor_copied = False,
    creation_failed = False, stale_notify = False\<rparr>"
  by (rule reach.move [OF sync_start]) (simp add: sync_step_iff)

theorem thread_start_copies_witness:
  "\<exists>s. reach sync_init sync_step s \<and> child s = K_Copy \<and> parent s \<noteq> T_Left"
  using thread_start_copies [OF sync_created] sync_created by fastforce

text \<open>C32. What goes wrong in \<open>synchronized_invocation\<close>: the flag is set and the event notified without the
  mutex, so the wake-up can be lost (the caller sleeps although the functor is copied, and nobody will
  notify it), and the event can be notified after its destruction; and a failed creation hangs in the
  destructor instead of throwing.\<close>

theorem thread_start_races:
  "(\<exists>s. reach sync_init sync_step s \<and> functor_copied s \<and> nobody_will_notify s) \<and>
   (\<exists>s. reach sync_init sync_step s \<and> stale_notify s) \<and>
   (\<exists>s. reach sync_init sync_step s \<and> creation_failed s \<and> nobody_will_notify s)"
proof (intro conjI)
  let ?s = "\<lambda>p k c f st. \<lparr>parent = p, child = k, functor_copied = c, creation_failed = f, stale_notify = st\<rparr>"
  have "reach sync_init sync_step (?s T_Enter K_Copy False False False)"
    by (rule reach.move [OF sync_created]) (simp add: sync_step_iff)
  then have "reach sync_init sync_step (?s T_Enter K_Notify True False False)"
    by (rule reach.move) (simp add: sync_step_iff)
  then have "reach sync_init sync_step (?s T_Enter K_Running True False False)"
    by (rule reach.move) (simp add: sync_step_iff)
  then have "reach sync_init sync_step (?s T_Asleep K_Running True False False)"
    by (rule reach.move) (simp add: sync_step_iff)
  then show "\<exists>s. reach sync_init sync_step s \<and> functor_copied s \<and> nobody_will_notify s"
    by (intro exI conjI, assumption) (simp_all add: nobody_will_notify_def sync_step_iff)
  have "reach sync_init sync_step (?s T_Check K_Notify True False False)"
    by (rule reach.move [OF sync_created]) (simp add: sync_step_iff)
  then have "reach sync_init sync_step (?s T_Left K_Notify True False False)"
    by (rule reach.move) (simp add: sync_step_iff)
  then have "reach sync_init sync_step (?s T_Left K_Running True False True)"
    by (rule reach.move) (simp add: sync_step_iff)
  then show "\<exists>s. reach sync_init sync_step s \<and> stale_notify s" by (intro exI conjI, assumption) simp
  have "reach sync_init sync_step (?s T_Check K_None False True False)"
    by (rule reach.move [OF sync_start]) (simp add: sync_step_iff)
  then have "reach sync_init sync_step (?s T_Enter K_None False True False)"
    by (rule reach.move) (simp add: sync_step_iff)
  then have "reach sync_init sync_step (?s T_Asleep K_None False True False)"
    by (rule reach.move) (simp add: sync_step_iff)
  then show "\<exists>s. reach sync_init sync_step s \<and> creation_failed s \<and> nobody_will_notify s"
    by (intro exI conjI, assumption) (simp_all add: nobody_will_notify_def sync_step_iff)
qed

text \<open>The other ways to start a thread: a functor packed into the context pointer is read back; a heap
  copy is deleted exactly once, by the child after it ran or by the caller when the creation
  failed; and the functor runs exactly if the thread was created. A move of a thread keeps its
  handle in one place, except that a self-assignment loses it.\<close>

theorem thread_ownership:
  assumes "start_path_of (length functor_bytes) (length context_bytes) True nothrow = In_Pointer"
  shows "tiny_functor (length functor_bytes) (pack_functor functor_bytes context_bytes) = functor_bytes \<and>
    length (pack_functor functor_bytes context_bytes) = length context_bytes \<and>
    (case start_on_heap created of (p, c) \<Rightarrow> count_list (p @ c) Delete_Copy = 1 \<and>
       count_list (p @ c) Run_Functor = of_bool created \<and> (Throw_Error \<in> set p \<longleftrightarrow> \<not> created)) \<and>
    (this \<noteq> other \<longrightarrow> move_construct this other h = h(this := h other, other := None) \<and>
       move_assign this other h = h(this := h other, other := None)) \<and>
    move_assign this this h = h(this := None)"
  using assms
  by (auto simp: start_path_of_def tiny_functor_def pack_functor_def start_on_heap_def move_construct_def
      move_assign_def swap_threads_def Let_def split: if_splits)

theorem thread_ownership_witness:
  "tiny_functor 2 (pack_functor [7, 9] (replicate 8 0)) = [7, 9]"
  using thread_ownership [of "[7, 9]" "replicate 8 0" False] by (simp add: start_path_of_def numeral_2_eq_2)

end
