(* ===== verification/Hmp.thy ===== *)
theory Hmp
  imports SpreadPlan
begin

text \<open>
  Heterogeneous clusters (PSI_SWEATER_HMP): \<open>shop::configure_hmp\<close> and the branch of
  \<open>shop::spread_work\<close> (impls/generic.cpp) that splits a loop between the clusters by their power
  and hands each cluster's share to its workers. A cluster is its power and its number of cores.
\<close>

section \<open>configure_hmp\<close>

definition max_power :: int where
  "max_power = 128"

text \<open>
  \<open>scaled\<close> are the clusters' cores with \<open>capacity / total_power * max_power\<close>, computed in floating
  point and cut to eight bits: they may add up to more or less than \<open>max_power\<close>. The result: the
  clusters' powers and cores, and the size of the new pool.
\<close>

definition configure_hmp :: "bool \<Rightarrow> (8 word \<times> 'h::len word) list \<Rightarrow> (8 word \<times> 'h word) list \<times> 'h word" where
  "configure_hmp use_caller scaled =
     (let powers = map fst scaled; cores = map snd scaled;
          final_total_power = sum_list powers;
          overflow_err = (of_int (max 0 (uint final_total_power - max_power)) :: 8 word);
          underflow_err = (of_int (max 0 (max_power - uint final_total_power)) :: 8 word);
          powers1 = powers[length powers - 1 := powers ! (length powers - 1) - overflow_err];
          powers2 = powers1[0 := powers1 ! 0 + underflow_err]
      in (zip powers2 cores, sum_list cores - of_bool use_caller))"

section \<open>The clusters' shares\<close>

fun hmp_distribute :: "iterations_t \<Rightarrow> iterations_t \<Rightarrow> iterations_t \<Rightarrow> (8 word \<times> 'h::len word) list \<Rightarrow> iterations_t list" where
  "hmp_distribute iterations parallelizable_iterations_count iteration [] = []"
| "hmp_distribute iterations parallelizable_iterations_count iteration ((cluster_power, cluster_cores) # clusters) =
     (let weighted_cluster_iterations = iterations * ucast cluster_power div of_int max_power;
          remaining_iterations = iterations - iteration;
          cluster_iterations = min remaining_iterations
            (max weighted_cluster_iterations (parallelizable_iterations_count * ucast cluster_cores))
      in if cluster_iterations = 0 then []
         else cluster_iterations #
           hmp_distribute iterations parallelizable_iterations_count (iteration + cluster_iterations) clusters)"

text \<open>What is left goes to the first cluster. Without a share for it the source is undefined (\<open>None\<close>).\<close>

definition hmp_distributions :: "iterations_t \<Rightarrow> iterations_t \<Rightarrow> (8 word \<times> 'h::len word) list \<Rightarrow> iterations_t list option" where
  "hmp_distributions iterations parallelizable_iterations_count clusters =
     (case hmp_distribute iterations parallelizable_iterations_count 0 clusters of
        [] \<Rightarrow> None
      | share # shares \<Rightarrow> Some ((share + (iterations - sum_list (share # shares))) # shares))"

section \<open>The dispatch\<close>

text \<open>The loop over the clusters in use; \<open>with_caller\<close> holds for the first of them when the caller takes
  part. The result: the caller's share, the next worker, the next iteration, the workers' slices.\<close>

fun hmp_loop :: "8 word \<Rightarrow> iterations_t \<Rightarrow> ('h::len word \<times> iterations_t) list \<Rightarrow> bool \<Rightarrow> 'h word \<Rightarrow> iterations_t
    \<Rightarrow> (iterations_t \<times> 'h word \<times> iterations_t \<times> ('h word \<times> piece list) list) option" where
  "hmp_loop sd iterations [] with_caller worker iteration = Some (0, worker, iteration, [])"
| "hmp_loop sd iterations ((cluster_cores, cluster_iterations) # clusters) with_caller worker iteration =
     (if cluster_cores = 0 then None
      else let per_core_iterations = cluster_iterations div ucast cluster_cores;
               parts_with_extra = cluster_iterations mod ucast cluster_cores;
               extra_iteration = (of_bool (with_caller \<and> parts_with_extra \<noteq> 0) :: iterations_t);
               c_end = (if with_caller then per_core_iterations + extra_iteration else 0)
           in case dispatch_workers sd worker (if with_caller then c_end else iteration)
                     (cluster_cores - of_bool with_caller) per_core_iterations (parts_with_extra - extra_iteration) iterations of
                None \<Rightarrow> None
              | Some (worker', iteration', ws) \<Rightarrow>
                  map_option (\<lambda>(_, worker'', iteration'', ws'). (c_end, worker'', iteration'', ws @ ws'))
                    (hmp_loop sd iterations clusters False worker' iteration'))"

definition hmp_spread :: "build \<Rightarrow> 'h::len word spread_context \<Rightarrow> (8 word \<times> 'h word) list \<Rightarrow> iterations_t \<Rightarrow> iterations_t
    \<Rightarrow> 'h word spread option" where
  "hmp_spread b c clusters iterations parallelizable_iterations_count =
     (case hmp_distributions iterations parallelizable_iterations_count clusters of None \<Rightarrow> None
      | Some shares \<Rightarrow>
          map_option
            (\<lambda>(c_end, worker, iteration, ws).
               let caller = (if caller_takes_part b c then caller_piece c_end else []);
                   n = length (concat (map snd ws)) + length caller
               in \<lparr>caller_pieces = caller, worker_pieces = ws, shared_pieces = [], arrivals = of_nat n,
                   items_added = of_nat n, spin_join = \<not> queue_and_wait b c, succeeded = True\<rparr>)
            (hmp_loop (stealing_division c) iterations (zip (map snd clusters) shares) (caller_takes_part b c) 0 0))"

section \<open>The shares add up\<close>

text \<open>A list of cores and shares as the distribution makes it: only the last share may be smaller than
  the number of cores.\<close>

fun good_shares :: "('h::len word \<times> iterations_t) list \<Rightarrow> bool" where
  "good_shares [] \<longleftrightarrow> True"
| "good_shares ((cores, share) # rest) \<longleftrightarrow>
     cores \<noteq> 0 \<and> share \<noteq> 0 \<and> (unat cores \<le> unat share \<or> rest = []) \<and> good_shares rest"

definition total_share :: "iterations_t list \<Rightarrow> nat" where
  "total_share shares = (\<Sum>s\<leftarrow>shares. unat s)"

lemma total_share_simps [simp]: "total_share [] = 0" "total_share (s # ss) = unat s + total_share ss"
  by (simp_all add: total_share_def)

lemma unat_sum_shares: "total_share shares < 2 ^ 32 \<Longrightarrow> unat (sum_list shares) = total_share shares"
proof (induction shares)
  case (Cons s ss)
  then show ?case by (simp add: unat_add_small)
qed simp

lemma hmp_distribute_good:
  fixes clusters :: "(8 word \<times> 'h::len word) list"
  assumes "\<forall>(p, k)\<in>set clusters. k \<noteq> 0 \<and> unat pic * unat k < 2 ^ 32" and "0 < unat pic" and "LENGTH('h) \<le> 32"
    and "unat it \<le> unat n"
  shows "good_shares (zip (map snd clusters) (hmp_distribute n pic it clusters)) \<and>
    length (hmp_distribute n pic it clusters) \<le> length clusters \<and>
    unat it + total_share (hmp_distribute n pic it clusters) \<le> unat n \<and>
    (clusters \<noteq> [] \<and> it \<noteq> n \<longrightarrow> hmp_distribute n pic it clusters \<noteq> [])"
  using assms(1,4)
proof (induction clusters arbitrary: it)
  case Nil
  then show ?case by simp
next
  case (Cons pk clusters)
  obtain p k where pk: "pk = (p, k)" by (cases pk)
  define lo where "lo = max (n * ucast p div of_int max_power) (pic * ucast k)"
  define share where "share = min (n - it) lo"
  have d: "hmp_distribute n pic it (pk # clusters) =
      (if share = 0 then [] else share # hmp_distribute n pic (it + share) clusters)"
    by (simp add: pk share_def lo_def Let_def)
  have k: "unat k \<noteq> 0" "unat pic * unat k < 2 ^ 32" using Cons.prems(1) by (auto simp: pk unat_eq_0)
  have "unat (pic * ucast k) = unat pic * unat k"
    using k(2) assms(3) by (subst unat_mult_small) (simp_all add: unat_ucast_widen)
  then have lo: "unat k \<le> unat lo"
    using assms(2) unfolding lo_def unat_max by (intro max.coboundedI2) simp
  have rem: "unat (n - it) = unat n - unat it" using Cons.prems(2) by (rule unat_sub_le)
  have share: "unat share = min (unat n - unat it) (unat lo)" by (simp add: share_def unat_min rem)
  show ?case
  proof (cases "share = 0")
    case True
    then have "unat n - unat it = 0" using share lo k(1) by (simp add: min_def split: if_splits)
    then have "it = n" using Cons.prems(2) by (simp add: word_unat_eq_iff)
    with True d Cons.prems(2) show ?thesis by simp
  next
    case False
    have sum: "unat (it + share) = unat it + unat share"
      using share Cons.prems(2) unat_lt2p [of n] by (intro unat_add_small) simp
    have le: "unat (it + share) \<le> unat n" unfolding sum share using Cons.prems(2) by simp
    have IH: "good_shares (zip (map snd clusters) (hmp_distribute n pic (it + share) clusters))"
        "length (hmp_distribute n pic (it + share) clusters) \<le> length clusters"
        "unat (it + share) + total_share (hmp_distribute n pic (it + share) clusters) \<le> unat n"
      using Cons.IH [OF _ le] Cons.prems(1) by simp_all
    have "hmp_distribute n pic (it + share) clusters = []" if "unat share < unat k"
    proof -
      have "unat (it + share) = unat n" using that lo share sum Cons.prems(2) by simp
      then have "it + share = n" by (simp add: word_unat_eq_iff)
      then show ?thesis by (cases clusters) (auto simp: Let_def)
    qed
    then have "unat k \<le> unat share \<or> zip (map snd clusters) (hmp_distribute n pic (it + share) clusters) = []"
      by (cases "unat k \<le> unat share") simp_all
    with False d IH sum k(1) show ?thesis by (auto simp: pk unat_eq_0)
  qed
qed


section \<open>The slices tile the loop\<close>

text \<open>Workers that are consecutive, over several dispatches.\<close>

definition from_worker :: "'h::len word \<Rightarrow> ('h word \<times> piece list) list \<Rightarrow> bool" where
  "from_worker worker ws \<longleftrightarrow> map fst ws = map (\<lambda>i. worker + of_nat i) [0..<length ws]"

lemma from_worker_append:
  assumes "from_worker w ws" "from_worker (w + of_nat (length ws)) ws'"
  shows "from_worker w (ws @ ws')"
proof -
  have "[0..<length ws + length ws'] = [0..<length ws] @ map (\<lambda>i. i + length ws) [0..<length ws']"
    by (simp add: map_add_upt upt_add_eq_append [of 0] add.commute)
  then show ?thesis using assms by (simp add: from_worker_def algebra_simps)
qed

lemma consecutive_from_worker: "consecutive w d ws \<Longrightarrow> from_worker w ws"
  by (auto simp: consecutive_def from_worker_def intro!: nth_equalityI)

text \<open>One dispatch of \<open>k\<close> parts, whose share ends at \<open>stop\<close>.\<close>

lemma dispatch_share:
  fixes worker parts :: "'h::len word"
  assumes sd: "spread_work_stealing_division_min \<le> sd" "sd \<le> spread_work_stealing_division_max"
    and wide: "LENGTH('h) < 32"
    and stop: "unat it + unat parts * unat ipp + unat extra = stop" "stop \<le> unat n" "unat extra \<le> unat parts"
    and full: "0 < unat ipp \<or> stop = unat n"
  shows "\<exists>it' ws. dispatch_workers sd worker it parts ipp extra n = Some (worker + of_nat (length ws), it', ws) \<and>
    unat it' = stop \<and> tiles (unat it) (as_nats (concat (map snd ws))) stop \<and>
    length ws \<le> unat parts \<and> from_worker worker ws"
proof -
  have D: "dispatch_end (unat ipp) (unat extra) (unat parts) (unat (0 :: 32 word)) (unat it) = stop"
    using stop by (simp add: dispatch_end_def)
  have "unat parts < 2 ^ LENGTH('h)" by (rule unat_lt2p)
  also have "\<dots> \<le> (2::nat) ^ 32" using wide by (intro power_increasing) simp_all
  finally have small: "unat (0 :: 32 word) + unat parts < 2 ^ 32" by simp
  note s = slice_div_range [OF sd, of ipp]
  have room: "dispatch_end (unat ipp) (unat extra) (unat parts) (unat (0 :: 32 word)) (unat it) \<le> unat n"
    and ends: "0 < unat ipp \<or> dispatch_end (unat ipp) (unat extra) (unat parts) (unat (0 :: 32 word)) (unat it) = unat n"
    using stop(2) full by (simp_all only: D)
  from dispatch_loop_tiles [OF s(1) s(3) room ends small, of worker] show ?thesis
    unfolding dispatch_workers_def D using consecutive_from_worker by metis
qed

lemma share_split:
  assumes "LENGTH('h::len) \<le> 32" and "k \<noteq> (0 :: 'h word)"
  shows "unat (share div ucast k :: iterations_t) = unat share div unat k"
    and "unat (share mod ucast k :: iterations_t) = unat share mod unat k"
    and "unat share mod unat k < unat k"
proof -
  have "unat (ucast k :: iterations_t) = unat k" using assms(1) by (intro unat_ucast_widen) simp
  then show "unat (share div ucast k :: iterations_t) = unat share div unat k"
    and "unat (share mod ucast k :: iterations_t) = unat share mod unat k"
    by (simp_all only: unat_div_eq unat_mod_eq)
  show "unat share mod unat k < unat k" using assms(2) by (simp add: unat_gt_0)
qed

lemma hmp_loop_workers:
  fixes worker :: "'h::len word"
  assumes sd: "spread_work_stealing_division_min \<le> sd" "sd \<le> spread_work_stealing_division_max"
    and wide: "LENGTH('h) < 32"
    and "good_shares cl" and "unat it + total_share (map snd cl) = unat n"
  shows "\<exists>ws. hmp_loop sd n cl False worker it = Some (0, worker + of_nat (length ws), n, ws) \<and>
    tiles (unat it) (as_nats (concat (map snd ws))) (unat n) \<and>
    length ws \<le> (\<Sum>(k, _)\<leftarrow>cl. unat k) \<and> from_worker worker ws"
  using assms(4,5)
proof (induction cl arbitrary: worker it)
  case Nil
  then show ?case by (simp add: from_worker_def word_unat_eq_iff)
next
  case (Cons c cl)
  obtain k share where c: "c = (k, share)" by (cases c)
  let ?ipp = "share div ucast k" and ?x = "share mod ucast k"
  have k: "k \<noteq> 0" and g: "unat k \<le> unat share \<or> cl = []" "good_shares cl" using Cons.prems(1) by (auto simp: c)
  have q: "unat ?ipp = unat share div unat k" "unat ?x = unat share mod unat k" "unat share mod unat k < unat k"
    using share_split [OF less_imp_le [OF wide] k] by auto
  let ?stop = "unat it + unat share"
  have stop: "unat it + unat k * unat ?ipp + unat ?x = ?stop" "?stop \<le> unat n" "unat ?x \<le> unat k"
    using Cons.prems(2) q by (simp_all add: c)
  have "0 < unat ?ipp \<or> ?stop = unat n"
    using g(1) Cons.prems(2) q(3) by (auto simp: c q(1) div_greater_zero_iff)
  from dispatch_share [OF sd wide stop this, of worker] obtain it' ws where
    d: "dispatch_workers sd worker it k ?ipp ?x n = Some (worker + of_nat (length ws), it', ws)" "unat it' = ?stop"
      "tiles (unat it) (as_nats (concat (map snd ws))) ?stop" "length ws \<le> unat k" "from_worker worker ws" by blast
  have "unat it' + total_share (map snd cl) = unat n" using Cons.prems(2) d(2) by (simp add: c)
  from Cons.IH [OF g(2) this, of "worker + of_nat (length ws)"] obtain ws' where
    r: "hmp_loop sd n cl False (worker + of_nat (length ws)) it'
        = Some (0, worker + of_nat (length ws) + of_nat (length ws'), n, ws')"
      "tiles (unat it') (as_nats (concat (map snd ws'))) (unat n)" "length ws' \<le> (\<Sum>(k, _)\<leftarrow>cl. unat k)"
      "from_worker (worker + of_nat (length ws)) ws'" by blast
  have "hmp_loop sd n (c # cl) False worker it = Some (0, worker + of_nat (length (ws @ ws')), n, ws @ ws')"
    using k d(1) r(1) by (simp add: c Let_def add.assoc)
  moreover have "tiles (unat it) (as_nats (concat (map snd (ws @ ws')))) (unat n)"
    using d(2,3) r(2) by auto
  ultimately show ?case using d(4) r(3) from_worker_append [OF d(5) r(4)]
    by (intro exI [of _ "ws @ ws'"]) (simp add: c)
qed

lemma hmp_loop_caller:
  fixes worker :: "'h::len word"
  assumes sd: "spread_work_stealing_division_min \<le> sd" "sd \<le> spread_work_stealing_division_max"
    and wide: "LENGTH('h) < 32"
    and good: "good_shares ((k, share) # cl)" and sum: "unat share + total_share (map snd cl) = unat n"
  shows "\<exists>c_end ws. hmp_loop sd n ((k, share) # cl) True worker it = Some (c_end, worker + of_nat (length ws), n, ws) \<and>
    0 < unat c_end \<and> tiles (unat c_end) (as_nats (concat (map snd ws))) (unat n) \<and>
    length ws + 1 \<le> unat k + (\<Sum>(k, _)\<leftarrow>cl. unat k) \<and> from_worker worker ws"
proof -
  let ?ipp = "share div ucast k" and ?x = "share mod ucast k"
  let ?e = "of_bool (?x \<noteq> 0) :: iterations_t"
  have k: "k \<noteq> 0" "share \<noteq> 0" and g: "unat k \<le> unat share \<or> cl = []" "good_shares cl" using good by auto
  have q: "unat ?ipp = unat share div unat k" "unat ?x = unat share mod unat k" "unat share mod unat k < unat k"
    using share_split [OF less_imp_le [OF wide] k(1)] by auto
  have split: "unat share = unat k * unat ?ipp + unat ?x" unfolding q by simp
  have x0: "?x \<noteq> 0 \<longleftrightarrow> 0 < unat ?x" by (simp add: unat_gt_0)
  have xe: "unat (?x - ?e) = unat ?x - of_bool (0 < unat ?x)"
    by (subst unat_sub_le) (auto simp: x0 Suc_le_eq)
  have kk: "unat (k - 1) = unat k - 1" "0 < unat k" using k(1) by (simp_all add: unat_sub_le unat_gt_0 Suc_le_eq)
  obtain k' where k': "unat k = Suc k'" using kk(2) by (cases "unat k") auto
  have ce: "unat (?ipp + ?e) = unat ?ipp + of_bool (0 < unat ?x)"
  proof -
    have "unat ?ipp + of_bool (0 < unat ?x) \<le> unat share" using split k' by auto
    moreover have e: "unat ?e = of_bool (0 < unat ?x)" by (simp only: unat_of_bool x0)
    ultimately have "unat ?ipp + unat ?e < 2 ^ LENGTH(32)" using unat_lt2p [of share] by linarith
    from unat_add_small [OF this] show ?thesis by (simp only: e)
  qed
  have pos: "0 < unat (?ipp + ?e)"
  proof (rule ccontr)
    assume "\<not> 0 < unat (?ipp + ?e)"
    then have "unat ?ipp = 0" "unat ?x = 0" using ce by auto
    then show False using split k(2) by (simp add: unat_eq_0)
  qed
  have stop: "unat (?ipp + ?e) + unat (k - 1) * unat ?ipp + unat (?x - ?e) = unat share"
    "unat share \<le> unat n" "unat (?x - ?e) \<le> unat (k - 1)"
  proof -
    define b where "b = (of_bool (0 < unat ?x) :: nat)"
    have b: "b \<le> unat ?x" "unat ?x \<le> k' + b" using q(2,3) k' by (auto simp: b_def)
    have "unat share = unat ?ipp + k' * unat ?ipp + unat ?x" using split by (simp only: k' mult_Suc)
    with b(1) show "unat (?ipp + ?e) + unat (k - 1) * unat ?ipp + unat (?x - ?e) = unat share"
      unfolding ce xe kk(1) k' b_def [symmetric] diff_Suc_1 by linarith
    show "unat share \<le> unat n" using sum by linarith
    show "unat (?x - ?e) \<le> unat (k - 1)" unfolding xe kk(1) k' b_def [symmetric] diff_Suc_1 using b(2) by linarith
  qed
  have "0 < unat ?ipp \<or> unat share = unat n"
    using g(1) sum q(3) by (auto simp: q(1) div_greater_zero_iff)
  from dispatch_share [OF sd wide stop this, of worker] obtain it' ws where
    d: "dispatch_workers sd worker (?ipp + ?e) (k - 1) ?ipp (?x - ?e) n = Some (worker + of_nat (length ws), it', ws)"
      "unat it' = unat share" "tiles (unat (?ipp + ?e)) (as_nats (concat (map snd ws))) (unat share)"
      "length ws \<le> unat (k - 1)" "from_worker worker ws" by blast
  have "unat it' + total_share (map snd cl) = unat n" using sum d(2) by simp
  from hmp_loop_workers [OF sd wide g(2) this, of "worker + of_nat (length ws)"] obtain ws' where
    r: "hmp_loop sd n cl False (worker + of_nat (length ws)) it'
        = Some (0, worker + of_nat (length ws) + of_nat (length ws'), n, ws')"
      "tiles (unat it') (as_nats (concat (map snd ws'))) (unat n)" "length ws' \<le> (\<Sum>(k, _)\<leftarrow>cl. unat k)"
      "from_worker (worker + of_nat (length ws)) ws'" by blast
  have "hmp_loop sd n ((k, share) # cl) True worker it =
      Some (?ipp + ?e, worker + of_nat (length (ws @ ws')), n, ws @ ws')"
    using k(1) d(1) r(1) by (simp add: Let_def add.assoc)
  moreover have "tiles (unat (?ipp + ?e)) (as_nats (concat (map snd (ws @ ws')))) (unat n)"
    using tiles_appendI [OF d(3) r(2) [unfolded d(2)]] by (simp only: map_append concat_append as_nats_append)
  moreover have "length (ws @ ws') + 1 \<le> unat k + (\<Sum>(k, _)\<leftarrow>cl. unat k)" using d(4) r(3) kk by simp
  ultimately show ?thesis using pos from_worker_append [OF d(5) r(4)] by blast
qed


section \<open>Theorems\<close>

text \<open>The setting: clusters that are not empty, a pool with a worker for each core that the caller does
  not take, and numbers that fit.\<close>

definition hmp_setting :: "build \<Rightarrow> 'h::len word spread_context \<Rightarrow> (8 word \<times> 'h word) list \<Rightarrow> iterations_t \<Rightarrow> bool" where
  "hmp_setting b c clusters parallelizable \<longleftrightarrow>
     LENGTH('h) < 32 \<and> clusters \<noteq> [] \<and> 0 < unat parallelizable \<and>
     (\<forall>(p, k)\<in>set clusters. k \<noteq> 0 \<and> unat parallelizable * unat k < 2 ^ 32) \<and>
     spread_work_stealing_division_min \<le> stealing_division c \<and>
     stealing_division c \<le> spread_work_stealing_division_max \<and>
     unat (worker_threads c) + of_bool (caller_takes_part b c) = (\<Sum>(p, k)\<leftarrow>clusters. unat k)"

lemma hmp_distributions_good:
  fixes clusters :: "(8 word \<times> 'h::len word) list"
  assumes "\<forall>(p, k)\<in>set clusters. k \<noteq> 0 \<and> unat pic * unat k < 2 ^ 32" and "0 < unat pic" and "LENGTH('h) \<le> 32"
    and "clusters \<noteq> []" and "0 < unat n"
  shows "\<exists>shares. hmp_distributions n pic clusters = Some shares \<and> shares \<noteq> [] \<and> length shares \<le> length clusters \<and>
    good_shares (zip (map snd clusters) shares) \<and> total_share shares = unat n"
proof -
  note g = hmp_distribute_good [OF assms(1-3), of 0 n, simplified]
  have n: "n \<noteq> 0" using assms(5) by auto
  then obtain d ds where d: "hmp_distribute n pic 0 clusters = d # ds"
    using g assms(4) by (cases "hmp_distribute n pic 0 clusters") auto
  obtain p k clusters' where c: "clusters = (p, k) # clusters'" using assms(4) by (cases clusters) auto
  have tot: "unat d + total_share ds \<le> unat n" using g d by simp
  have "unat (d + sum_list ds) = unat d + total_share ds"
    using unat_sum_shares [of "d # ds"] tot unat_lt2p [of n] by simp
  then have rest: "unat (n - (d + sum_list ds)) = unat n - (unat d + total_share ds)"
    using tot by (simp add: unat_sub_le)
  define d' where "d' = d + (n - sum_list (d # ds))"
  have d': "unat d' = unat n - total_share ds"
    using tot unat_lt2p [of n] unfolding d'_def by (subst unat_add_small) (simp_all add: rest)
  have "hmp_distributions n pic clusters = Some (d' # ds)" by (simp add: hmp_distributions_def d d'_def)
  moreover have "good_shares (zip (map snd clusters) (d' # ds))"
    using g d d' tot by (auto simp: c unat_eq_0 simp flip: unat_eq_0)
  moreover have "total_share (d' # ds) = unat n" using d' tot by simp
  moreover have "length (d' # ds) \<le> length clusters" using g d by simp
  ultimately show ?thesis by blast
qed

lemma sum_cores_zip: "(\<Sum>(k, _)\<leftarrow>zip ks ss. unat k) \<le> (\<Sum>k\<leftarrow>ks. unat k)"
proof (induction ks arbitrary: ss)
  case (Cons k ks)
  then show ?case by (cases ss) (simp_all add: add_mono)
qed simp


lemma hmp_loop_sound:
  fixes clusters :: "(8 word \<times> 'h::len word) list"
  assumes set: "hmp_setting b c clusters pic" and n: "0 < unat n"
    and shares: "hmp_distributions n pic clusters = Some shares"
  shows "\<exists>c_end w ws. hmp_loop (stealing_division c) n (zip (map snd clusters) shares) (caller_takes_part b c) 0 0
      = Some (c_end, w, n, ws) \<and>
    tiles 0 (as_nats ((if caller_takes_part b c then caller_piece c_end else []) @ concat (map snd ws))) (unat n) \<and>
    length ws \<le> unat (worker_threads c) \<and> from_worker 0 ws"
proof -
  from set have wide: "LENGTH('h) < 32" and sd: "spread_work_stealing_division_min \<le> stealing_division c"
      "stealing_division c \<le> spread_work_stealing_division_max"
    and cores: "unat (worker_threads c) + of_bool (caller_takes_part b c) = (\<Sum>k\<leftarrow>map snd clusters. unat k)"
    and ok: "\<forall>(p, k)\<in>set clusters. k \<noteq> 0 \<and> unat pic * unat k < 2 ^ 32" "0 < unat pic" "clusters \<noteq> []"
    by (auto simp: hmp_setting_def comp_def case_prod_unfold)
  from hmp_distributions_good [OF ok(1,2) less_imp_le [OF wide] ok(3) n] shares
  have g: "shares \<noteq> []" "length shares \<le> length clusters" "good_shares (zip (map snd clusters) shares)"
    "total_share shares = unat n" by auto
  let ?cl = "zip (map snd clusters) shares"
  have snd_cl: "map snd ?cl = shares" using g(2) by (simp add: map_snd_zip_take)
  have le: "(\<Sum>(k, _)\<leftarrow>?cl. unat k) \<le> unat (worker_threads c) + of_bool (caller_takes_part b c)"
    using sum_cores_zip [of "map snd clusters" shares] cores by simp
  show ?thesis
  proof (cases "caller_takes_part b c")
    case False
    from hmp_loop_workers [OF sd wide g(3), of 0 n 0] g(4) snd_cl obtain ws where
      "hmp_loop (stealing_division c) n ?cl False (0 :: 'h word) 0 = Some (0, of_nat (length ws), n, ws)"
      "tiles 0 (as_nats (concat (map snd ws))) (unat n)" "length ws \<le> (\<Sum>(k, _)\<leftarrow>?cl. unat k)" "from_worker 0 ws"
      by auto
    with False le show ?thesis by auto
  next
    case True
    obtain k share cl where cl: "?cl = (k, share) # cl"
      using g(1) ok(3) by (cases "map snd clusters"; cases shares) auto
    have "shares = share # map snd cl" using snd_cl unfolding cl by simp
    then have "unat share + total_share (map snd cl) = unat n" using g(4) by simp
    from hmp_loop_caller [OF sd wide g(3) [unfolded cl] this, of 0 0] obtain c_end ws where
      r: "hmp_loop (stealing_division c) n ((k, share) # cl) True (0 :: 'h word) 0
          = Some (c_end, 0 + of_nat (length ws), n, ws)"
        "tiles (unat c_end) (as_nats (concat (map snd ws))) (unat n)"
        "length ws + 1 \<le> unat k + (\<Sum>(k, _)\<leftarrow>cl. unat k)" "from_worker 0 ws" by blast
    have "tiles 0 (as_nats (caller_piece c_end @ concat (map snd ws))) (unat n)"
      using tiles_appendI [OF tiles_caller r(2)] by simp
    moreover have "length ws \<le> unat (worker_threads c)" using r(3) le True by (simp add: cl)
    ultimately show ?thesis using True r(1,4) unfolding cl by auto
  qed
qed

lemma hmp_spread_covers:
  fixes c :: "'h::len word spread_context"
  assumes "hmp_setting b c clusters pic" and "0 < unat n"
  shows "\<exists>s. hmp_spread b c clusters n pic = Some s \<and> iterations_run s = [0..<unat n] \<and>
    arrivals s = of_nat (length (all_pieces s)) \<and> items_left s = 0 \<and>
    length (worker_pieces s) \<le> unat (worker_threads c) \<and> from_worker 0 (worker_pieces s)"
proof -
  from assms(1) have ok: "\<forall>(p, k)\<in>set clusters. k \<noteq> 0 \<and> unat pic * unat k < 2 ^ 32" "0 < unat pic"
      "LENGTH('h) \<le> 32" "clusters \<noteq> []" by (auto simp: hmp_setting_def)
  from hmp_distributions_good [OF ok assms(2)] obtain shares where
    sh: "hmp_distributions n pic clusters = Some shares" by blast
  from hmp_loop_sound [OF assms sh] obtain c_end w ws where
    r: "hmp_loop (stealing_division c) n (zip (map snd clusters) shares) (caller_takes_part b c) 0 0 = Some (c_end, w, n, ws)"
      "tiles 0 (as_nats ((if caller_takes_part b c then caller_piece c_end else []) @ concat (map snd ws))) (unat n)"
      "length ws \<le> unat (worker_threads c)" "from_worker 0 ws" by blast
  let ?caller = "if caller_takes_part b c then caller_piece c_end else []"
  let ?n = "length (concat (map snd ws)) + length ?caller"
  let ?s = "\<lparr>caller_pieces = ?caller, worker_pieces = ws, shared_pieces = [], arrivals = of_nat ?n,
    items_added = of_nat ?n, spin_join = \<not> queue_and_wait b c, succeeded = True\<rparr>"
  have "hmp_spread b c clusters n pic = Some ?s" by (simp only: hmp_spread_def sh r(1) option.case option.map prod.case Let_def)
  moreover have "iterations_run ?s = [0..<unat n]"
    by (rule iterations_run_tiles) (use r(2) in simp)
  moreover have "length (all_pieces ?s) = ?n" by (simp add: all_pieces_def)
  then have "arrivals ?s = of_nat (length (all_pieces ?s))" "items_left ?s = 0"
    by (simp_all only: items_left_def spread.select_convs diff_self)
  ultimately show ?thesis using r(3,4) by (intro exI [of _ ?s]) simp
qed

text \<open>A spread over heterogeneous clusters hands out every iteration exactly once and in order, whatever
  the configured powers (also where \<open>iterations * power\<close> wraps around), to consecutive workers of the
  pool; barrier and item counter expect exactly the pieces made.\<close>

theorem hmp_spread_each_iteration_once:
  fixes c :: "'h::len word spread_context"
  assumes "hmp_setting b c clusters pic" and "0 < unat n"
  shows "\<exists>s. hmp_spread b c clusters n pic = Some s \<and> iterations_run s = [0..<unat n] \<and>
    arrivals s = of_nat (length (all_pieces s)) \<and> items_left s = 0 \<and>
    length (worker_pieces s) \<le> unat (worker_threads c) \<and> from_worker 0 (worker_pieces s)"
  by (rule hmp_spread_covers [OF assms])

text \<open>Two big and four little cores, the caller one of them.\<close>

definition big_little :: "(8 word \<times> 16 word) list" where
  "big_little = [(80, 2), (48, 4)]"

theorem hmp_spread_each_iteration_once_witness:
  "\<exists>s. hmp_spread default_build (idle_shop (5 :: 16 word)) big_little 1000 1 = Some s \<and> iterations_run s = [0..<1000]"
proof -
  have "hmp_setting default_build (idle_shop (5 :: 16 word)) big_little 1"
    by (simp add: hmp_setting_def default_build_def idle_shop_def big_little_def caller_takes_part_def
        queue_and_wait_def free_workers_def number_of_workers_def
        spread_work_stealing_division_min_def spread_work_stealing_division_max_def)
  from hmp_spread_each_iteration_once [OF this, of 1000] show ?thesis by auto
qed

lemma unat_sum_list: "(\<Sum>p\<leftarrow>ps. unat p) < 2 ^ LENGTH('a) \<Longrightarrow> unat (sum_list ps :: 'a::len word) = (\<Sum>p\<leftarrow>ps. unat p)"
  by (induction ps) (simp_all add: unat_add_small)

lemma sum_unat_update:
  "i < length ps \<Longrightarrow> (\<Sum>p\<leftarrow>ps[i := x]. unat p) + unat (ps ! i) = (\<Sum>p\<leftarrow>ps. unat p) + unat (x :: 'a::len word)"
  by (induction ps arbitrary: i) (auto split: nat.split)

lemma balance_powers:
  fixes ps :: "8 word list"
  defines "tot \<equiv> (\<Sum>p\<leftarrow>ps. unat p)"
    and "over \<equiv> of_int (max 0 (uint (sum_list ps) - max_power)) :: 8 word"
    and "undr \<equiv> of_int (max 0 (max_power - uint (sum_list ps))) :: 8 word"
  assumes "ps \<noteq> []" and "tot \<le> 128 + unat (ps ! (length ps - 1))" and "tot < 256"
  defines "ps1 \<equiv> ps[length ps - 1 := ps ! (length ps - 1) - over]"
  shows "(\<Sum>p\<leftarrow>ps1[0 := ps1 ! 0 + undr]. unat p) = 128"
proof -
  have t: "uint (sum_list ps) = int tot"
    using unat_sum_list [of ps] assms(6) by (simp add: tot_def uint_nat)
  have len: "0 < length ps" "length ps - 1 < length ps" using assms(4) by auto
  show ?thesis
  proof (cases "128 \<le> tot")
    case True
    have "over = of_nat (tot - 128)" using True by (simp add: over_def t max_power_def of_nat_diff)
    then have "unat over = tot - 128" using assms(6) by (simp add: unat_of_nat_small)
    then have "unat (ps ! (length ps - 1) - over) = unat (ps ! (length ps - 1)) - (tot - 128)"
      using assms(5) by (subst unat_sub_le) simp_all
    moreover have "undr = 0" using True by (simp add: undr_def t max_power_def)
    ultimately show ?thesis
      using sum_unat_update [OF len(2), of "ps ! (length ps - 1) - over"] True assms(5)
      by (simp add: ps1_def tot_def)
  next
    case False
    have "over = 0" using False by (simp add: over_def t max_power_def)
    then have ps1: "ps1 = ps" by (simp add: ps1_def)
    have "undr = of_nat (128 - tot)" using False by (simp add: undr_def t max_power_def of_nat_diff)
    then have u: "unat undr = 128 - tot" by (simp add: unat_of_nat_small)
    have "unat (ps ! 0) \<le> tot" unfolding tot_def using len(1) by (cases ps) simp_all
    then have "unat (ps ! 0 + undr) = unat (ps ! 0) + (128 - tot)"
      using False u by (subst unat_add_small) simp_all
    then show ?thesis
      using sum_unat_update [OF len(1), of "ps ! 0 + undr"] False by (simp add: ps1 tot_def)
  qed
qed

text \<open>Configuring the clusters: when the scaled powers exceed the maximal power by no more than the last
  cluster's power (the source asserts a rounding error of at most two), the configured powers add
  up to the maximal power exactly, and the pool gets a worker for each core but the caller's.\<close>

theorem configure_hmp_powers:
  fixes scaled :: "(8 word \<times> 'h::len word) list"
  assumes "scaled \<noteq> []" and "(\<Sum>p\<leftarrow>map fst scaled. unat p) \<le> 128 + unat (fst (last scaled))"
    and "(\<Sum>p\<leftarrow>map fst scaled. unat p) < 256"
  shows "case configure_hmp use_caller scaled of (clusters, pool_size) \<Rightarrow>
    (\<Sum>p\<leftarrow>map fst clusters. unat p) = 128 \<and> map snd clusters = map snd scaled \<and>
    pool_size = (\<Sum>k\<leftarrow>map snd scaled. k) - of_bool use_caller"
proof -
  have "fst (last scaled) = map fst scaled ! (length (map fst scaled) - 1)"
    using assms(1) by (simp add: last_conv_nth)
  with balance_powers [of "map fst scaled"] assms show ?thesis
    unfolding configure_hmp_def Let_def prod.case
    by (subst map_fst_zip, simp, subst map_snd_zip, simp, simp)
qed

theorem configure_hmp_powers_witness:
  "fst (configure_hmp True [(79, 2), (47, 4 :: 16 word)]) = [(81, 2), (47, 4)]"
  using configure_hmp_powers [of "[(79, 2), (47, 4 :: 16 word)]" True]
  by (simp add: configure_hmp_def max_power_def)

end
