(* ===== verification/RwBackends.thy ===== *)
theory RwBackends
  imports ReadRecursion
begin

text \<open>
  The reader-writer mutexes over the operating system's locks (threading/posix/rw_mutex.hpp,
  threading/windows/rw_mutex.hpp) and the guards (threading/rw_mutex.hpp). The lock of the
  operating system is known by its documentation: whether it prefers writers decides if a
  queued writer blocks a new read. Debug builds watch for misuse with the registry of
  \<open>ReadRecursion\<close> and, on Windows, with the id of the active writer.
\<close>

section \<open>The read side\<close>

datatype 'a outcome = Terminates | Assertion_Fails | Goes_On 'a

text \<open>A debug build's hook runs before the call; it allocates in a function that must not throw.\<close>

definition rw_acquire_ro :: "bool \<Rightarrow> bool \<Rightarrow> mutex_id \<Rightarrow> registry \<Rightarrow> (os_call list \<times> registry) outcome" where
  "rw_acquire_ro debug can_grow m held =
     (if \<not> debug then Goes_On ([Os_Acquire_Ro m], held)
      else case on_ro_acquire can_grow m held of
             None \<Rightarrow> Terminates
           | Some (passes, held') \<Rightarrow> if passes then Goes_On ([Os_Acquire_Ro m], held') else Assertion_Fails)"

definition rw_release_ro :: "bool \<Rightarrow> mutex_id \<Rightarrow> registry \<Rightarrow> (os_call list \<times> registry) outcome" where
  "rw_release_ro debug m held =
     (if \<not> debug then Goes_On ([Os_Release_Ro m], held)
      else if m \<in> held_mutex ` set held then Goes_On ([Os_Release_Ro m], on_ro_release m held)
      else Assertion_Fails)"

definition rw_try_acquire_ro :: "bool \<Rightarrow> bool \<Rightarrow> bool \<Rightarrow> mutex_id \<Rightarrow> registry \<Rightarrow> (bool \<times> registry) outcome" where
  "rw_try_acquire_ro debug can_grow os_ok m held =
     (if \<not> os_ok then Goes_On (False, held)
      else if \<not> debug then Goes_On (True, held)
      else case on_ro_acquire can_grow m held of
             None \<Rightarrow> Terminates
           | Some (passes, held') \<Rightarrow> if passes then Goes_On (True, held') else Assertion_Fails)"

text \<open>The reader-preferring class of Linux goes straight to the operating system.\<close>

definition reader_preferring_acquire_ro :: "mutex_id \<Rightarrow> registry \<Rightarrow> os_call list \<times> registry" where
  "reader_preferring_acquire_ro m held = ([Os_Acquire_Ro m], held)"

definition reader_preferring_release_ro :: "mutex_id \<Rightarrow> registry \<Rightarrow> os_call list \<times> registry" where
  "reader_preferring_release_ro m held = ([Os_Release_Ro m], held)"

text \<open>The constructors choose the kind of the operating system's lock.\<close>

datatype rwlock_kind = Prefers_Writers | Prefers_Readers

definition rw_mutex_kind :: rwlock_kind where
  "rw_mutex_kind = Prefers_Writers"

definition reader_preferring_kind :: rwlock_kind where
  "reader_preferring_kind = Prefers_Readers"

text \<open>The documented contract of a read request: a writer blocks it, a queued writer does by preference.\<close>

definition read_blocks :: "rwlock_kind \<Rightarrow> bool \<Rightarrow> nat \<Rightarrow> bool" where
  "read_blocks kind writer_holds queued_writers \<longleftrightarrow> writer_holds \<or> (kind = Prefers_Writers \<and> 0 < queued_writers)"

definition calls_block :: "rwlock_kind \<Rightarrow> bool \<Rightarrow> nat \<Rightarrow> os_call list \<Rightarrow> bool" where
  "calls_block kind writer_holds queued_writers calls \<longleftrightarrow>
     (\<exists>c\<in>set calls. case c of Os_Acquire_Ro _ \<Rightarrow> read_blocks kind writer_holds queued_writers | _ \<Rightarrow> False)"

section \<open>The active writer on Windows\<close>

text \<open>
  The exclusive side in a debug build: the id is stored after the acquisition and cleared after the
  release of the lock; a try stores nothing. Thread ids are positive.
\<close>

datatype srw_pc = X_Out | X_Acquired | X_Held | X_Try_Held | X_Released

record srw_sys =
  srw_owner :: "nat option"
  active_writer :: nat
  xpc :: "nat \<Rightarrow> srw_pc"

definition srw_init :: "srw_sys \<Rightarrow> bool" where
  "srw_init s \<longleftrightarrow> s = \<lparr>srw_owner = None, active_writer = 0, xpc = (\<lambda>_. X_Out)\<rparr>"

text \<open>\<open>verify_deadlock\<close> as thread \<open>t\<close> evaluates it: does the assertion hold?\<close>

definition verify_deadlock :: "srw_sys \<Rightarrow> nat \<Rightarrow> bool" where
  "verify_deadlock s t \<longleftrightarrow> srw_owner s = None \<or> active_writer s \<noteq> t"

inductive srw_step :: "srw_sys \<Rightarrow> srw_sys \<Rightarrow> bool" where
  acquire_rw: "0 < t \<Longrightarrow> xpc s t = X_Out \<Longrightarrow> verify_deadlock s t \<Longrightarrow> srw_owner s = None \<Longrightarrow>
    srw_step s (s\<lparr>srw_owner := Some t, xpc := (xpc s)(t := X_Acquired)\<rparr>)"
| store_writer: "xpc s t = X_Acquired \<Longrightarrow> srw_step s (s\<lparr>active_writer := t, xpc := (xpc s)(t := X_Held)\<rparr>)"
| try_acquire_rw: "0 < t \<Longrightarrow> xpc s t = X_Out \<Longrightarrow> verify_deadlock s t \<Longrightarrow> srw_owner s = None \<Longrightarrow>
    srw_step s (s\<lparr>srw_owner := Some t, xpc := (xpc s)(t := X_Try_Held)\<rparr>)"
| release_rw: "xpc s t = X_Held \<or> xpc s t = X_Try_Held \<Longrightarrow>
    srw_step s (s\<lparr>srw_owner := None, xpc := (xpc s)(t := X_Released)\<rparr>)"
| clear_writer: "xpc s t = X_Released \<Longrightarrow> srw_step s (s\<lparr>active_writer := 0, xpc := (xpc s)(t := X_Out)\<rparr>)"

text \<open>The read side of thread \<open>t\<close>: the check for deadlocks first, then as on POSIX.\<close>

definition windows_acquire_ro ::
  "bool \<Rightarrow> bool \<Rightarrow> srw_sys \<Rightarrow> nat \<Rightarrow> mutex_id \<Rightarrow> registry \<Rightarrow> (os_call list \<times> registry) outcome" where
  "windows_acquire_ro debug can_grow s t m held =
     (if debug \<and> \<not> verify_deadlock s t then Assertion_Fails else rw_acquire_ro debug can_grow m held)"

definition windows_release_ro :: "bool \<Rightarrow> mutex_id \<Rightarrow> registry \<Rightarrow> (os_call list \<times> registry) outcome" where
  "windows_release_ro debug m held = rw_release_ro debug m held"

definition windows_try_acquire_ro ::
  "bool \<Rightarrow> bool \<Rightarrow> bool \<Rightarrow> srw_sys \<Rightarrow> nat \<Rightarrow> mutex_id \<Rightarrow> registry \<Rightarrow> (bool \<times> registry) outcome" where
  "windows_try_acquire_ro debug can_grow os_ok s t m held =
     (if debug \<and> \<not> verify_deadlock s t then Assertion_Fails else rw_try_acquire_ro debug can_grow os_ok m held)"

text \<open>
  Copies and assignments assume that the mutexes are dormant, which they see from the word of the system's lock
  (\<open>lock_.Ptr\<close>, null when nobody holds either side); \<open>None\<close> is undefined behaviour.
\<close>

definition windows_copy :: "(srw_sys \<Rightarrow> bool) \<Rightarrow> srw_sys \<Rightarrow> srw_sys option" where
  "windows_copy ptr_is_null other =
     (if ptr_is_null other then Some \<lparr>srw_owner = None, active_writer = 0, xpc = (\<lambda>_. X_Out)\<rparr> else None)"

definition windows_assign :: "(srw_sys \<Rightarrow> bool) \<Rightarrow> srw_sys \<Rightarrow> srw_sys \<Rightarrow> srw_sys option" where
  "windows_assign ptr_is_null this other = (if ptr_is_null this \<and> ptr_is_null other then Some this else None)"

definition srw_inv :: "srw_sys \<Rightarrow> bool" where
  "srw_inv s \<longleftrightarrow> xpc s 0 = X_Out \<and>
     (\<forall>t. srw_owner s = Some t \<longleftrightarrow> xpc s t = X_Acquired \<or> xpc s t = X_Held \<or> xpc s t = X_Try_Held) \<and>
     (active_writer s \<noteq> 0 \<longrightarrow> xpc s (active_writer s) = X_Held \<or> xpc s (active_writer s) = X_Released)"

lemma srw_thread_pos: "srw_inv s \<Longrightarrow> xpc s t \<noteq> X_Out \<Longrightarrow> t \<noteq> 0"
  by (metis srw_inv_def)

lemma srw_inv_step:
  assumes inv: "srw_inv s" and step: "srw_step s s'"
  shows "srw_inv s'"
  using step
proof cases
  case (acquire_rw t)
  then have "\<And>u. xpc s u \<noteq> X_Acquired \<and> xpc s u \<noteq> X_Held \<and> xpc s u \<noteq> X_Try_Held"
    using inv by (metis option.distinct(1) srw_inv_def)
  with inv acquire_rw show ?thesis by (auto simp: srw_inv_def)
next
  case (store_writer t)
  moreover from this have "t \<noteq> 0" using srw_thread_pos [OF inv] by simp
  ultimately show ?thesis using inv by (auto simp: srw_inv_def)
next
  case (try_acquire_rw t)
  then have "\<And>u. xpc s u \<noteq> X_Acquired \<and> xpc s u \<noteq> X_Held \<and> xpc s u \<noteq> X_Try_Held"
    using inv by (metis option.distinct(1) srw_inv_def)
  with inv try_acquire_rw show ?thesis by (auto simp: srw_inv_def)
next
  case (release_rw t)
  then have "srw_owner s = Some t" using inv by (auto simp: srw_inv_def)
  then have "\<And>u. u \<noteq> t \<Longrightarrow> xpc s u \<noteq> X_Acquired \<and> xpc s u \<noteq> X_Held \<and> xpc s u \<noteq> X_Try_Held"
    using inv by (metis option.inject srw_inv_def)
  moreover have "t \<noteq> 0" using release_rw srw_thread_pos [OF inv, of t] by auto
  ultimately show ?thesis using inv release_rw by (auto simp: srw_inv_def)
next
  case (clear_writer t)
  with inv show ?thesis by (auto simp: srw_inv_def)
qed

interpretation srw_machine: invariant_system srw_init srw_step srw_inv
proof unfold_locales
  show "srw_inv s" if "srw_init s" for s using that by (simp add: srw_init_def srw_inv_def)
qed (rule srw_inv_step)

section \<open>Guards\<close>

text \<open>
  Guards live in numbered storage; \<open>None\<close> is an empty guard or no guard. An assignment destroys its
  target, which leaves the pointer in memory, and constructs it again from the source. \<open>Acquire\<close> and
  \<open>Release\<close> are the calls on the mutex.
\<close>

datatype guard_op = Guard_Construct nat mutex_id | Guard_Move nat nat | Guard_Assign nat nat | Guard_Destroy nat

datatype mutex_call = Acquire mutex_id | Release mutex_id

type_synonym guards = "nat \<Rightarrow> mutex_id option"

definition guard_release :: "nat \<Rightarrow> guards \<Rightarrow> mutex_call list" where
  "guard_release g gs = (case gs g of None \<Rightarrow> [] | Some m \<Rightarrow> [Release m])"

fun guard_apply :: "guard_op \<Rightarrow> guards \<Rightarrow> mutex_call list \<times> guards" where
  "guard_apply (Guard_Construct g m) gs = ([Acquire m], gs(g := Some m))"
| "guard_apply (Guard_Move this other) gs = (let p = gs other in ([], (gs(other := None))(this := p)))"
| "guard_apply (Guard_Assign this other) gs =
     (let released = guard_release this gs; p = gs other in (released, (gs(other := None))(this := p)))"
| "guard_apply (Guard_Destroy g) gs = (guard_release g gs, gs(g := None))"

text \<open>A construction needs fresh storage, and a guard is assigned from another one.\<close>

fun guard_op_ok :: "nat \<Rightarrow> guard_op \<Rightarrow> guards \<Rightarrow> bool" where
  "guard_op_ok n (Guard_Construct g m) gs \<longleftrightarrow> g < n \<and> gs g = None"
| "guard_op_ok n (Guard_Move this other) gs \<longleftrightarrow> this < n \<and> other < n \<and> this \<noteq> other \<and> gs this = None"
| "guard_op_ok n (Guard_Assign this other) gs \<longleftrightarrow> this < n \<and> other < n \<and> this \<noteq> other"
| "guard_op_ok n (Guard_Destroy g) gs \<longleftrightarrow> g < n"

fun guard_run :: "nat \<Rightarrow> guard_op list \<Rightarrow> guards \<Rightarrow> (mutex_call list \<times> guards) option" where
  "guard_run n [] gs = Some ([], gs)"
| "guard_run n (op # ops) gs =
     (if guard_op_ok n op gs
      then let (calls, gs') = guard_apply op gs
           in map_option (\<lambda>(rest, gs''). (calls @ rest, gs'')) (guard_run n ops gs')
      else None)"

text \<open>The holds on a mutex after some calls, from \<open>k\<close> of them.\<close>

fun holds_after :: "mutex_id \<Rightarrow> mutex_call list \<Rightarrow> int \<Rightarrow> int" where
  "holds_after m [] k = k"
| "holds_after m (Acquire m' # calls) k = holds_after m calls (if m' = m then k + 1 else k)"
| "holds_after m (Release m' # calls) k = holds_after m calls (if m' = m then k - 1 else k)"

definition guarding :: "mutex_id \<Rightarrow> mutex_id option \<Rightarrow> nat" where
  "guarding m p = of_bool (p = Some m)"

lemma holds_after_append: "holds_after m (xs @ ys) k = holds_after m ys (holds_after m xs k)"
  by (induction m xs k rule: holds_after.induct) auto

lemma guard_apply_holds:
  assumes "guard_op_ok n op gs" and "guard_apply op gs = (calls, gs')"
  shows "holds_after m calls (weight n (guarding m) gs) = weight n (guarding m) gs'"
proof -
  have g: "int (guarding m p) = of_bool (p = Some m)" for p by (simp add: guarding_def)
  show ?thesis
    using assms
    by (cases op) (auto simp: guard_release_def weight_upd g Let_def split: option.splits)
qed

lemma guard_run_holds:
  "guard_run n ops gs = Some (calls, gs') \<Longrightarrow>
    holds_after m calls (weight n (guarding m) gs) = weight n (guarding m) gs'"
proof (induction ops arbitrary: gs calls)
  case (Cons op ops)
  obtain c g where a: "guard_apply op gs = (c, g)" by fastforce
  with Cons.prems obtain rest where ok: "guard_op_ok n op gs" and r: "guard_run n ops g = Some (rest, gs')"
    and c: "calls = c @ rest" by (auto split: if_splits)
  show ?case using guard_apply_holds [OF ok a, of m] Cons.IH [OF r] by (simp add: c holds_after_append)
qed simp

section \<open>Theorems\<close>

text \<open>A nested read. With the mutex held for reading by the thread, and any number of writers queued: the
  plain mutex blocks on itself as soon as a writer is queued (a debug build asserts before that),
  while neither the reader-preferring mutex of Linux nor the hold-collapsing mutex of the other
  platforms ever blocks.\<close>

theorem nested_read:
  assumes "registry_ok held" and "0 < depth_of held m" and "depth_of held m + 1 < 2 ^ 32"
  shows "(\<exists>calls. rw_acquire_ro False can_grow m held = Goes_On (calls, held) \<and>
      (calls_block rw_mutex_kind False queued calls \<longleftrightarrow> 0 < queued)) \<and>
    rw_acquire_ro True can_grow m held = Assertion_Fails \<and>
    \<not> calls_block reader_preferring_kind False queued (fst (reader_preferring_acquire_ro m held)) \<and>
    (\<exists>calls held'. rrw_acquire_ro can_grow m held = Some (calls, held') \<and> \<not> calls_block rw_mutex_kind False queued calls)"
proof -
  have "registry_enter can_grow m held \<noteq> None"
    using depth_of_absent [of m held] assms(2) by (induction held) (auto split: if_splits)
  then obtain first held' where e: "registry_enter can_grow m held = Some (first, held')" by auto
  with enter_spec [OF assms(1,3) e] assms(2) have "\<not> first" by simp
  with e show ?thesis
    by (simp add: rw_acquire_ro_def on_ro_acquire_def calls_block_def read_blocks_def rw_mutex_kind_def
        reader_preferring_kind_def reader_preferring_acquire_ro_def rrw_acquire_ro_def)
qed

theorem nested_read_witness:
  "\<exists>calls held'. rrw_acquire_ro True 7 [\<lparr>held_mutex = 7, depth = 1\<rparr>] = Some (calls, held') \<and>
     \<not> calls_block rw_mutex_kind False 3 calls"
  using nested_read [of "[\<lparr>held_mutex = 7, depth = 1\<rparr>]" 7 True 3] by (simp add: registry_ok_def)

text \<open>The Windows check for deadlocks: no two threads are ever in the exclusive side, and the assertion
  fails only for a thread that really holds it. It can miss a deadlock, though: for a writer that
  got in by a try, and, because the release clears the id after it has unlocked, for a writer that
  got in between.\<close>

theorem windows_deadlock_check:
  assumes "reach srw_init srw_step s"
  shows "(0 < t \<and> xpc s t \<noteq> X_Released \<and> \<not> verify_deadlock s t \<longrightarrow> srw_owner s = Some t) \<and>
    (xpc s t = X_Held \<and> u \<noteq> t \<longrightarrow> xpc s u \<noteq> X_Held \<and> xpc s u \<noteq> X_Try_Held) \<and>
    (\<exists>s'. reach srw_init srw_step s' \<and> xpc s' 1 = X_Try_Held \<and> verify_deadlock s' 1) \<and>
    (\<exists>s'. reach srw_init srw_step s' \<and> xpc s' 1 = X_Held \<and> verify_deadlock s' 1)"
proof (intro conjI)
  note inv = srw_machine.inv_reach [OF assms]
  have own: "srw_owner s = Some t \<longleftrightarrow> xpc s t = X_Acquired \<or> xpc s t = X_Held \<or> xpc s t = X_Try_Held" for t
    using inv by (simp add: srw_inv_def)
  show "0 < t \<and> xpc s t \<noteq> X_Released \<and> \<not> verify_deadlock s t \<longrightarrow> srw_owner s = Some t"
    using inv by (auto simp: srw_inv_def verify_deadlock_def)
  show "xpc s t = X_Held \<and> u \<noteq> t \<longrightarrow> xpc s u \<noteq> X_Held \<and> xpc s u \<noteq> X_Try_Held"
    using own [of t] own [of u] by auto
  let ?s = "\<lambda>ow w p. \<lparr>srw_owner = ow, active_writer = w, xpc = p\<rparr>"
  define p0 where "p0 = (\<lambda>_ :: nat. X_Out)"
  have s0: "reach srw_init srw_step (?s None 0 p0)"
    by (rule reach.start) (simp add: srw_init_def p0_def)
  have "srw_step (?s None 0 p0) (?s (Some 1) 0 (p0(1 := X_Try_Held)))"
    using srw_step.try_acquire_rw [of 1 "?s None 0 p0"] by (simp add: p0_def verify_deadlock_def)
  with s0 have "reach srw_init srw_step (?s (Some 1) 0 (p0(1 := X_Try_Held)))" by (rule reach.move)
  then show "\<exists>s'. reach srw_init srw_step s' \<and> xpc s' 1 = X_Try_Held \<and> verify_deadlock s' 1"
    by (intro exI conjI, assumption) (simp_all add: verify_deadlock_def)
  have "srw_step (?s None 0 p0) (?s (Some 2) 0 (p0(2 := X_Try_Held)))"
    using srw_step.try_acquire_rw [of 2 "?s None 0 p0"] by (simp add: p0_def verify_deadlock_def)
  with s0 have "reach srw_init srw_step (?s (Some 2) 0 (p0(2 := X_Try_Held)))" by (rule reach.move)
  moreover have "srw_step (?s (Some 2) 0 (p0(2 := X_Try_Held))) (?s None 0 (p0(2 := X_Released)))"
    using srw_step.release_rw [of "?s (Some 2) 0 (p0(2 := X_Try_Held))" 2] by simp
  ultimately have "reach srw_init srw_step (?s None 0 (p0(2 := X_Released)))" by (rule reach.move)
  moreover have "srw_step (?s None 0 (p0(2 := X_Released))) (?s (Some 1) 0 (p0(2 := X_Released, 1 := X_Acquired)))"
    using srw_step.acquire_rw [of 1 "?s None 0 (p0(2 := X_Released))"] by (simp add: p0_def verify_deadlock_def)
  ultimately have "reach srw_init srw_step (?s (Some 1) 0 (p0(2 := X_Released, 1 := X_Acquired)))" by (rule reach.move)
  moreover have "srw_step (?s (Some 1) 0 (p0(2 := X_Released, 1 := X_Acquired))) (?s (Some 1) 1 (p0(2 := X_Released, 1 := X_Held)))"
    using srw_step.store_writer [of "?s (Some 1) 0 (p0(2 := X_Released, 1 := X_Acquired))" 1] by simp
  ultimately have "reach srw_init srw_step (?s (Some 1) 1 (p0(2 := X_Released, 1 := X_Held)))" by (rule reach.move)
  moreover have "srw_step (?s (Some 1) 1 (p0(2 := X_Released, 1 := X_Held))) (?s (Some 1) 0 ((p0(2 := X_Released, 1 := X_Held))(2 := X_Out)))"
    using srw_step.clear_writer [of "?s (Some 1) 1 (p0(2 := X_Released, 1 := X_Held))" 2] by simp
  ultimately have "reach srw_init srw_step (?s (Some 1) 0 ((p0(2 := X_Released, 1 := X_Held))(2 := X_Out)))" by (rule reach.move)
  then show "\<exists>s'. reach srw_init srw_step s' \<and> xpc s' 1 = X_Held \<and> verify_deadlock s' 1"
    by (intro exI conjI, assumption) (simp_all add: verify_deadlock_def)
qed

theorem windows_deadlock_check_witness:
  "\<exists>s'. reach srw_init srw_step s' \<and> xpc s' 1 = X_Held \<and> verify_deadlock s' 1"
proof -
  have "reach srw_init srw_step \<lparr>srw_owner = None, active_writer = 0, xpc = (\<lambda>_. X_Out)\<rparr>"
    by (rule reach.start) (simp add: srw_init_def)
  from windows_deadlock_check [OF this] show ?thesis by blast
qed

text \<open>The read side on Windows: a debug build catches a thread that asks to read while it holds the exclusive side by
  \<open>acquire_rw\<close>, and a nested read, and otherwise behaves like the POSIX one; a release build goes to the
  operating system in every case, which a thread that holds the exclusive side never returns from.\<close>

theorem windows_read_side:
  assumes "srw_inv s" and "xpc s t = X_Held \<and> active_writer s = t"
  shows "windows_acquire_ro True can_grow s t m held = Assertion_Fails \<and>
    windows_try_acquire_ro True can_grow os_ok s t m held = Assertion_Fails \<and>
    windows_acquire_ro False can_grow s t m held = Goes_On ([Os_Acquire_Ro m], held) \<and>
    calls_block kind (srw_owner s \<noteq> None) queued [Os_Acquire_Ro m] \<and>
    (srw_owner s' = None \<longrightarrow> windows_acquire_ro True can_grow s' t m held = rw_acquire_ro True can_grow m held)"
proof -
  have "srw_owner s = Some t" using assms by (auto simp: srw_inv_def)
  then show ?thesis
    using assms(2)
    by (simp add: windows_acquire_ro_def windows_try_acquire_ro_def verify_deadlock_def rw_acquire_ro_def calls_block_def
        read_blocks_def)
qed

theorem windows_read_side_witness:
  "windows_acquire_ro True True \<lparr>srw_owner = Some 1, active_writer = 1, xpc = (\<lambda>_. X_Out)(1 := X_Held)\<rparr> 1 7 [] = Assertion_Fails"
  using windows_read_side [of "\<lparr>srw_owner = Some 1, active_writer = 1, xpc = (\<lambda>_. X_Out)(1 := X_Held)\<rparr>" 1 True 7 "[]"]
  by (auto simp: srw_inv_def)

text \<open>Guards keep the books: however read guards are constructed, moved, assigned and destroyed, the
  holds on a mutex are the guards that refer to it, so that nothing is left held when the guards are gone. Only
  an assignment of a guard to itself breaks this: it releases the mutex and still refers to it.\<close>

theorem guards_balanced:
  assumes "guard_run n ops (\<lambda>_. None) = Some (calls, gs)"
  shows "holds_after m calls 0 = int (card {g. g < n \<and> gs g = Some m}) \<and>
    guard_apply (Guard_Assign h h) (gs(h := Some m)) = ([Release m], gs(h := Some m))"
proof -
  have "weight n (guarding m) (\<lambda>_. None) = 0" by (simp add: weight_zero guarding_def)
  with guard_run_holds [OF assms, of m] show ?thesis
    by (simp add: weight_card guarding_def [abs_def] guard_release_def Let_def fun_eq_iff)
qed

theorem guards_balanced_witness:
  "holds_after 5 [Acquire 5, Acquire 6, Release 6] 0 = 1"
proof -
  have "guard_run 2 [Guard_Construct 0 5, Guard_Construct 1 6, Guard_Assign 1 0] (\<lambda>_. None) =
      Some ([Acquire 5, Acquire 6, Release 6], ((\<lambda>_. None)(0 := Some 5, 1 := Some 6, 0 := None))(1 := Some 5))"
    by (simp add: guard_release_def Let_def)
  from guards_balanced [OF this, of 5] show ?thesis by simp
qed

end
