(* ===== verification/SpreadJoin.thy ===== *)
theory SpreadJoin
  imports SpreadPlan Barrier "HOL-Library.Multiset"
begin

text \<open>
  How a spread of the generic backend runs (impls/generic.cpp: \<open>spread_work\<close> after its plan,
  \<open>perform_caller_work\<close>; impls/generic.hpp: \<open>spread_wrapper\<close>). The plan of theory SpreadPlan becomes a
  straight-line program of the caller: count the pieces into the completion barrier, hand them to
  the queues, run its own piece, steal, join. The workers take pieces, run them and arrive at the
  barrier of theory Barrier. The barrier and the work functor live in the caller's frame, so
  nothing may use them once the caller has returned. Pieces are numbered as in \<open>all_pieces\<close>; the
  caller's own piece, if any, is number 0. Which worker's queue holds a piece, and when that worker
  wakes, is the subject of theory ShopRun: here any idle worker may take any queued piece. Items of
  other spreads that the caller may steal meanwhile are left out.
\<close>

section \<open>The caller's program\<close>

datatype 'hc caller_op =
    Add_Arrival nat
  | Initialize 'hc "nat list"       \<comment> \<open>the pieces counted at once\<close>
  | Bulk_Failed 'hc                 \<comment> \<open>\<open>initialize(n)\<close>, a failed \<open>enqueue_bulk\<close>, \<open>initialize(0)\<close>\<close>
  | Enqueue_Worker 'hc "nat list"
  | Enqueue_Bulk "nat list"
  | Run_Own nat                     \<comment> \<open>\<open>caller_chunk()\<close>\<close>
  | Steal
  | Join_Spin
  | Join_Wait
  | Load_Division
  | Cas_Division "8 word"

definition perform_caller_work :: "'hc spread \<Rightarrow> 'hc caller_op list" where
  "perform_caller_work s = (if caller_pieces s \<noteq> [] then [Add_Arrival 0, Run_Own 0] else [])"

fun dispatch_ops :: "nat \<Rightarrow> ('hc \<times> piece list) list \<Rightarrow> 'hc caller_op list" where
  "dispatch_ops first [] = []"
| "dispatch_ops first ((worker, slices) # rest) =
     map Add_Arrival [first..<first + length slices] @
     Enqueue_Worker worker [first..<first + length slices] # dispatch_ops (first + length slices) rest"

text \<open>\<open>runs_alone\<close>: the two early returns, which do not join.\<close>

definition runs_alone :: "build \<Rightarrow> 'h::len word spread_context \<Rightarrow> bool" where
  "runs_alone b c \<longleftrightarrow> items_in_shop c \<noteq> 0 \<and>
     (use_caller_thread b \<and> single_cpu_linux b \<and> worker_threads c = 0 \<or> on_worker c)"

definition bulk_ops :: "'h::len word spread \<Rightarrow> 'h word caller_op list" where
  "bulk_ops s =
     (let dispatched = items_added s - of_nat (length (caller_pieces s));
          pieces = [length (caller_pieces s)..<length (caller_pieces s) + length (shared_pieces s)]
      in if dispatched \<noteq> 0
         then if succeeded s then [Initialize dispatched pieces, Enqueue_Bulk pieces]
              else [Bulk_Failed dispatched]
         else [Initialize 0 []])"

definition join_ops :: "build \<Rightarrow> 'h::len word spread \<Rightarrow> 'h word caller_op list" where
  "join_ops b s = (if spin_join s then [Steal] else [])
     @ [if use_caller_thread b \<and> spin_join s then Join_Spin else Join_Wait]"

definition spread_program :: "build \<Rightarrow> 'h::len word spread_context \<Rightarrow> 'h word spread \<Rightarrow> 'h word caller_op list"
where
  "spread_program b c s =
     (if runs_alone b c then perform_caller_work s
      else (if exact_worker_selection b \<and> \<not> slow_thread_signals b \<and> items_in_shop c = 0
            then dispatch_ops (length (caller_pieces s)) (worker_pieces s) else bulk_ops s)
        @ perform_caller_work s @ join_ops b s)"

section \<open>Caller and workers\<close>

text \<open>
  The state, for a barrier of any type \<open>'b\<close> whose operations have the points \<open>'q\<close>; here it is the futex
  barrier, in theory \<open>JoinMonitor\<close> the one of the condition variable.
\<close>

datatype 'q piece_phase =
    P_Planned
  | P_Counted
  | P_Queued
  | P_Lost                          \<comment> \<open>refused by a worker's queue\<close>
  | P_Running
  | P_Arrive 'q                     \<comment> \<open>the work is done; inside \<open>arrive\<close>\<close>

record ('b, 'q, 'hc) spread_sys =
  jbar :: 'b
  ops :: "'hc caller_op list"       \<comment> \<open>what the caller has yet to do\<close>
  joining :: "'q option"            \<comment> \<open>the caller inside \<open>wait\<close> or \<open>spin_wait\<close>\<close>
  piece_at :: "nat \<Rightarrow> 'q piece_phase"
  busy :: "tid \<Rightarrow> nat option"       \<comment> \<open>the piece a thread is running; thread 0 is the caller\<close>
  iterations_ran :: "nat list"                 \<comment> \<open>the iterations that were run\<close>
  division :: "8 word"              \<comment> \<open>\<open>spread_work_stealing_division\<close>\<close>
  asserts :: bool                   \<comment> \<open>the barrier's assertions held so far\<close>

type_synonym piece_pc = "bar_pc piece_phase"
type_synonym 'hc join_sys = "(futex_barrier, bar_pc, 'hc) spread_sys"

definition piece_iterations :: "piece \<Rightarrow> nat list" where
  "piece_iterations p = [unat (fst p)..<unat (snd p)]"

definition join_init :: "build \<Rightarrow> 'h::len word spread_context \<Rightarrow> 'h word spread \<Rightarrow> 'h word join_sys \<Rightarrow> bool" where
  "join_init b c sp s \<longleftrightarrow>
     s = \<lparr>jbar = \<lparr>counter = 0, use_spin_wait = \<not> runs_alone b c \<and> use_caller_thread b \<and> spin_join sp\<rparr>,
          ops = spread_program b c sp, joining = None, piece_at = (\<lambda>_. P_Planned), busy = (\<lambda>_. None), iterations_ran = [],
          division = stealing_division c, asserts = True\<rparr>"

definition caller_free :: "('b, 'q, 'hc) spread_sys \<Rightarrow> bool" where
  "caller_free s \<longleftrightarrow> busy s 0 = None \<and> joining s = None"

definition joiner_parked :: "'hc join_sys \<Rightarrow> parked" where
  "joiner_parked s = (if joining s = Some B_Parked then [0 \<mapsto> all_bits] else Map.empty)"

inductive join_step :: "(parked \<Rightarrow> tid set \<Rightarrow> bool) \<Rightarrow> piece list \<Rightarrow> nat \<Rightarrow> 'h::len word join_sys
    \<Rightarrow> 'h word join_sys \<Rightarrow> bool" for wake_one ps n where
  add: "caller_free s \<Longrightarrow> ops s = Add_Arrival i # rest \<Longrightarrow> add_expected_arrival (jbar s) = (ok, b) \<Longrightarrow>
    join_step wake_one ps n s (s\<lparr>jbar := b, ops := rest, piece_at := (piece_at s)(i := P_Counted),
      asserts := asserts s \<and> ok\<rparr>)"
| initialize: "caller_free s \<Longrightarrow> ops s = Initialize k is # rest \<Longrightarrow>
    join_step wake_one ps n s (s\<lparr>jbar := barrier_initialize k (jbar s), ops := rest,
      piece_at := move_all (set is) P_Counted (piece_at s), asserts := asserts s \<and> counter (jbar s) = 0\<rparr>)"
| bulk_failed: "caller_free s \<Longrightarrow> ops s = Bulk_Failed k # rest \<Longrightarrow>
    join_step wake_one ps n s (s\<lparr>jbar := barrier_initialize (0 :: 'h word) (barrier_initialize k (jbar s)),
      ops := rest, asserts := asserts s \<and> counter (jbar s) = 0 \<and> counter (barrier_initialize k (jbar s)) = 0\<rparr>)"
| enqueue_worker: "caller_free s \<Longrightarrow> ops s = Enqueue_Worker w is # rest \<Longrightarrow> p = P_Queued \<or> p = P_Lost \<Longrightarrow>
    join_step wake_one ps n s (s\<lparr>ops := rest, piece_at := move_all (set is) p (piece_at s)\<rparr>)"
| enqueue_bulk: "caller_free s \<Longrightarrow> ops s = Enqueue_Bulk is # rest \<Longrightarrow>
    join_step wake_one ps n s (s\<lparr>ops := rest, piece_at := move_all (set is) P_Queued (piece_at s)\<rparr>)"
| run_own: "caller_free s \<Longrightarrow> ops s = Run_Own i # rest \<Longrightarrow>
    join_step wake_one ps n s (s\<lparr>ops := rest, piece_at := (piece_at s)(i := P_Running), busy := (busy s)(0 := Some i)\<rparr>)"
| take_piece: "0 < t \<Longrightarrow> t \<le> n \<Longrightarrow> busy s t = None \<Longrightarrow> i < length ps \<Longrightarrow> piece_at s i = P_Queued \<Longrightarrow>
    join_step wake_one ps n s (s\<lparr>piece_at := (piece_at s)(i := P_Running), busy := (busy s)(t := Some i)\<rparr>)"
| steal: "caller_free s \<Longrightarrow> ops s = Steal # rest \<Longrightarrow> i < length ps \<Longrightarrow> piece_at s i = P_Queued \<Longrightarrow>
    join_step wake_one ps n s (s\<lparr>piece_at := (piece_at s)(i := P_Running), busy := (busy s)(0 := Some i)\<rparr>)"
| steal_ends: "caller_free s \<Longrightarrow> ops s = Steal # rest \<Longrightarrow> join_step wake_one ps n s (s\<lparr>ops := rest\<rparr>)"
| run: "busy s t = Some i \<Longrightarrow> piece_at s i = P_Running \<Longrightarrow>
    join_step wake_one ps n s (s\<lparr>piece_at := (piece_at s)(i := P_Arrive B_Arrive), iterations_ran := iterations_ran s @ piece_iterations (ps ! i)\<rparr>)"
| arrive: "busy s t = Some i \<Longrightarrow> piece_at s i = P_Arrive B_Arrive \<Longrightarrow>
    bar_next TYPE('h) (jbar s) B_Arrive = Some (b, q) \<Longrightarrow>
    join_step wake_one ps n s (s\<lparr>jbar := b, piece_at := (piece_at s)(i := P_Arrive q),
      asserts := asserts s \<and> 0 < counter (jbar s)\<rparr>)"
| wake: "busy s t = Some i \<Longrightarrow> piece_at s i = P_Arrive B_Wake \<Longrightarrow> wake_one (joiner_parked s) woken \<Longrightarrow>
    join_step wake_one ps n s (s\<lparr>piece_at := (piece_at s)(i := P_Arrive B_Arrived),
      joining := (if 0 \<in> woken then Some B_Load else joining s)\<rparr>)"
| completed: "busy s t = Some i \<Longrightarrow> piece_at s i = P_Arrive B_Arrived \<Longrightarrow>
    join_step wake_one ps n s (s\<lparr>busy := (busy s)(t := None)\<rparr>)"
| join_wait: "caller_free s \<Longrightarrow> ops s = Join_Wait # rest \<Longrightarrow>
    join_step wake_one ps n s (s\<lparr>joining := Some B_Load\<rparr>)"
| join_done: "caller_free s \<Longrightarrow> ops s = Join_Spin # rest \<Longrightarrow> everyone_arrived TYPE('h) (jbar s) \<Longrightarrow>
    join_step wake_one ps n s (s\<lparr>ops := rest\<rparr>)"
| join_spin: "caller_free s \<Longrightarrow> ops s = Join_Spin # rest \<Longrightarrow> \<not> everyone_arrived TYPE('h) (jbar s) \<Longrightarrow>
    join_step wake_one ps n s (s\<lparr>joining := Some (B_Poll spin_count spin_count)\<rparr>)"
| join_moves: "joining s = Some q \<Longrightarrow> bar_next TYPE('h) (jbar s) q = Some (b, q') \<Longrightarrow>
    join_step wake_one ps n s (s\<lparr>jbar := b, joining := Some q'\<rparr>)"
| spurious_wake: "joining s = Some B_Parked \<Longrightarrow> join_step wake_one ps n s (s\<lparr>joining := Some B_Load\<rparr>)"
| waited: "joining s = Some (B_Returned r) \<Longrightarrow> ops s = Join_Wait # rest \<Longrightarrow>
    join_step wake_one ps n s (s\<lparr>joining := None, ops := rest\<rparr>)"
| spun: "joining s = Some (B_Returned stalled) \<Longrightarrow> ops s = Join_Spin # rest \<Longrightarrow>
    join_step wake_one ps n s (s\<lparr>joining := None, ops := (if stalled then Load_Division # rest else rest)\<rparr>)"
| load_division: "caller_free s \<Longrightarrow> ops s = Load_Division # rest \<Longrightarrow>
    join_step wake_one ps n s (s\<lparr>ops := (if division s < spread_work_stealing_division_max
      then Cas_Division (division s) # rest else rest)\<rparr>)"
| cas_division: "caller_free s \<Longrightarrow> ops s = Cas_Division current # rest \<Longrightarrow>
    join_step wake_one ps n s (s\<lparr>ops := rest,
      division := (if division s = current then current + 1 else division s)\<rparr>)"
| other_spreads: "division s < spread_work_stealing_division_max \<Longrightarrow>
    join_step wake_one ps n s (s\<lparr>division := division s + 1\<rparr>)"

text \<open>The caller has left \<open>spread_work\<close>: its frame is gone.\<close>

definition returned :: "('b, 'q, 'hc) spread_sys \<Rightarrow> bool" where
  "returned s \<longleftrightarrow> ops s = [] \<and> caller_free s"

section \<open>Well-formed programs\<close>

fun adds :: "'hc caller_op list \<Rightarrow> nat list" where
  "adds [] = []"
| "adds (Add_Arrival i # rest) = i # adds rest"
| "adds (Initialize k is # rest) = is @ adds rest"
| "adds (_ # rest) = adds rest"

fun hands :: "'hc caller_op list \<Rightarrow> nat list" where
  "hands [] = []"
| "hands (Enqueue_Worker w is # rest) = is @ hands rest"
| "hands (Enqueue_Bulk is # rest) = is @ hands rest"
| "hands (Run_Own i # rest) = i # hands rest"
| "hands (_ # rest) = hands rest"

fun after_join :: "'hc caller_op list \<Rightarrow> bool" where
  "after_join [] = True" | "after_join (Load_Division # rest) = True" | "after_join (Cas_Division d # rest) = True"
| "after_join _ = False"

text \<open>What is left of the program: each piece is counted before it is handed out, both once; a
  program without a join is that of a single piece.\<close>

fun prog_ok :: "nat \<Rightarrow> 'h::len word caller_op list \<Rightarrow> bool" where
  "prog_ok N [] = True"
| "prog_ok N (Add_Arrival i # rest) \<longleftrightarrow> \<not> after_join rest \<and> i < N \<and> i \<notin> set (adds rest) \<and> i \<in> set (hands rest) \<and> prog_ok N rest"
| "prog_ok N (Initialize k is # rest) \<longleftrightarrow> \<not> after_join rest \<and> set is \<union> set (adds rest) = {..<N} \<and>
     set is \<inter> set (adds rest) = {} \<and> distinct is \<and> unat k = length is \<and> set is \<subseteq> set (hands rest) \<and> prog_ok N rest"
| "prog_ok N (Bulk_Failed k # rest) \<longleftrightarrow> \<not> after_join rest \<and> set (adds rest) = {..<N} \<and> prog_ok N rest"
| "prog_ok N (Enqueue_Worker w is # rest) \<longleftrightarrow> \<not> after_join rest \<and> set is \<subseteq> {..<N} \<and>
     set is \<inter> set (adds rest) = {} \<and> set is \<inter> set (hands rest) = {} \<and> prog_ok N rest"
| "prog_ok N (Enqueue_Bulk is # rest) \<longleftrightarrow> \<not> after_join rest \<and> set is \<subseteq> {..<N} \<and>
     set is \<inter> set (adds rest) = {} \<and> set is \<inter> set (hands rest) = {} \<and> prog_ok N rest"
| "prog_ok N (Run_Own i # rest) \<longleftrightarrow> (after_join rest \<longrightarrow> N = 1) \<and> i < N \<and> i \<notin> set (adds rest) \<and> i \<notin> set (hands rest) \<and> prog_ok N rest"
| "prog_ok N (Steal # rest) \<longleftrightarrow> \<not> after_join rest \<and> adds rest = [] \<and> hands rest = [] \<and> prog_ok N rest"
| "prog_ok N (_ # rest) \<longleftrightarrow> rest = []"

lemma adds_append: "adds (a @ b) = adds a @ adds b"
  by (induction a rule: adds.induct) simp_all

lemma hands_append: "hands (a @ b) = hands a @ hands b"
  by (induction a rule: hands.induct) simp_all

lemma adds_Add_map [simp]: "adds (map Add_Arrival is @ rest) = is @ adds rest"
  by (induction "is") simp_all

lemma hands_Add_map [simp]: "hands (map Add_Arrival is @ rest) = hands rest"
  by (induction "is") simp_all

lemma after_join_Add_map: "is \<noteq> [] \<Longrightarrow> \<not> after_join (map Add_Arrival is @ rest)"
  by (cases "is") simp_all

lemma prog_ok_Add_map:
  "prog_ok N (map Add_Arrival is @ rest) \<longleftrightarrow> (is \<noteq> [] \<longrightarrow> \<not> after_join rest) \<and> set is \<subseteq> {..<N} \<and> distinct is \<and>
     set is \<inter> set (adds rest) = {} \<and> set is \<subseteq> set (hands rest) \<and> prog_ok N rest"
proof (induction "is")
  case (Cons i "is")
  then show ?case using after_join_Add_map [of "is" rest] by (cases "is = []") auto
qed simp

lemma dispatch_ops_pieces:
  fixes ws :: "('h::len word \<times> piece list) list"
  defines "m \<equiv> length (concat (map snd ws))"
  shows "adds (dispatch_ops first ws) = [first..<first + m]"
    and "hands (dispatch_ops first ws) = [first..<first + m]"
  unfolding m_def
proof (induction first ws rule: dispatch_ops.induct)
  case (2 first worker slices rest)
  have "[first..<first + (length slices + length (concat (map snd rest)))]
      = [first..<first + length slices] @ [first + length slices..<first + length slices + length (concat (map snd rest))]"
    using upt_add_eq_append [of first "first + length slices" "length (concat (map snd rest))"]
    by (simp add: add.assoc)
  then show "adds (dispatch_ops first ((worker, slices) # rest))
      = [first..<first + length (concat (map snd ((worker, slices) # rest)))]"
    and "hands (dispatch_ops first ((worker, slices) # rest))
      = [first..<first + length (concat (map snd ((worker, slices) # rest)))]"
    using "2.IH" by simp_all
qed simp_all

lemma after_join_dispatch: "\<not> after_join rest \<Longrightarrow> \<not> after_join (dispatch_ops first ws @ rest)"
proof (induction first ws rule: dispatch_ops.induct)
  case (2 first worker slices more)
  show ?case
  proof (cases "slices = []")
    case False
    then show ?thesis using after_join_Add_map [of "[first..<first + length slices]"] by simp
  qed simp
qed simp

lemma prog_ok_dispatch_ops:
  fixes ws :: "('h::len word \<times> piece list) list"
  assumes "prog_ok N rest" "\<not> after_join rest" "first + length (concat (map snd ws)) \<le> N"
    and "\<And>i. i \<in> set (adds rest) \<or> i \<in> set (hands rest) \<Longrightarrow> i < first"
  shows "prog_ok N (dispatch_ops first ws @ rest)"
  using assms(3,4)
proof (induction first ws rule: dispatch_ops.induct)
  case (1 first)
  with assms show ?case by simp
next
  case (2 first worker slices more)
  have "prog_ok N (dispatch_ops (first + length slices) more @ rest)"
    by (rule "2.IH") (use "2.prems" in \<open>auto intro: trans_less_add1\<close>)
  moreover have "set [first..<first + length slices] \<inter> set (adds (dispatch_ops (first + length slices) more @ rest)) = {}"
    "set [first..<first + length slices] \<inter> set (hands (dispatch_ops (first + length slices) more @ rest)) = {}"
    using "2.prems"(2) by (fastforce simp: adds_append hands_append dispatch_ops_pieces)+
  ultimately show ?case using "2.prems"(1) after_join_dispatch [OF assms(2)] by (auto simp: prog_ok_Add_map)
qed

lemma prog_ok_join_ops: "prog_ok N (join_ops b s)" "adds (join_ops b s) = []" "hands (join_ops b s) = []"
    "\<not> after_join (join_ops b s)"
  by (simp_all add: join_ops_def)

lemma prog_ok_own:
  assumes "N = length (caller_pieces s) + m" "length (caller_pieces s) \<le> 1"
  shows "prog_ok N (perform_caller_work s @ join_ops b s)"
    and "adds (perform_caller_work s @ join_ops b s) = [0..<length (caller_pieces s)]"
    and "hands (perform_caller_work s @ join_ops b s) = [0..<length (caller_pieces s)]"
    and "\<not> after_join (perform_caller_work s @ join_ops b s)"
proof -
  have "length (caller_pieces s) = of_bool (caller_pieces s \<noteq> [])"
    using assms(2) by (cases "caller_pieces s") simp_all
  then show "prog_ok N (perform_caller_work s @ join_ops b s)"
    "adds (perform_caller_work s @ join_ops b s) = [0..<length (caller_pieces s)]"
    "hands (perform_caller_work s @ join_ops b s) = [0..<length (caller_pieces s)]"
    "\<not> after_join (perform_caller_work s @ join_ops b s)"
    using assms(1)
    by (simp_all add: perform_caller_work_def prog_ok_join_ops)
qed

text \<open>What the join relies on in the result of a plan.\<close>

definition joinable_spread :: "build \<Rightarrow> 'h::len word spread_context \<Rightarrow> 'h word spread \<Rightarrow> bool" where
  "joinable_spread b c s \<longleftrightarrow>
     length (caller_pieces s) \<le> 1 \<and> length (all_pieces s) < 2 ^ LENGTH('h) \<and> LENGTH('h) \<le> 32 \<and>
     (runs_alone b c \<longrightarrow> length (all_pieces s) = 1 \<and> caller_pieces s \<noteq> []) \<and>
     (if exact_worker_selection b \<and> \<not> slow_thread_signals b \<and> items_in_shop c = 0 then shared_pieces s = []
      else worker_pieces s = [] \<and> (succeeded s \<longrightarrow> items_left s = 0) \<and>
        (\<not> succeeded s \<longrightarrow> shared_pieces s = []))"

lemma spread_program_ok:
  fixes s :: "'h::len word spread"
  assumes j: "joinable_spread b c s" and N: "N = length (all_pieces s)"
  shows "prog_ok N (spread_program b c s)" and "set (adds (spread_program b c s)) = {..<N}"
    and "set (hands (spread_program b c s)) = {..<N}"
proof -
  let ?own = "length (caller_pieces s)"
  have own: "?own \<le> 1" using j by (simp add: joinable_spread_def)
  let ?goal = "prog_ok N (spread_program b c s) \<and> set (adds (spread_program b c s)) = {..<N} \<and>
      set (hands (spread_program b c s)) = {..<N}"
  have ?goal
  proof (cases "runs_alone b c")
    case True
    with j N show ?thesis
      by (auto simp: joinable_spread_def spread_program_def perform_caller_work_def)
  next
    case joins: False
    show ?thesis
    proof (cases "exact_worker_selection b \<and> \<not> slow_thread_signals b \<and> items_in_shop c = 0")
      case True
      let ?m = "length (concat (map snd (worker_pieces s)))"
      have m: "N = ?own + ?m" using j True N by (simp add: joinable_spread_def all_pieces_def)
      note rest = prog_ok_own [OF m own, of b]
      have "prog_ok N (dispatch_ops ?own (worker_pieces s) @ perform_caller_work s @ join_ops b s)"
        by (rule prog_ok_dispatch_ops) (use rest m in simp_all)
      with joins True rest m show ?thesis
        by (auto simp: spread_program_def adds_append [of "dispatch_ops _ _"] hands_append [of "dispatch_ops _ _"]
            dispatch_ops_pieces)
    next
      case False
      let ?m = "length (shared_pieces s)"
      have m: "N = ?own + ?m" using j False N by (simp add: joinable_spread_def all_pieces_def)
      note rest = prog_ok_own [OF m own, of b]
      have d: "succeeded s \<Longrightarrow> unat (items_added s - of_nat ?own) = ?m"
      proof -
        assume "succeeded s"
        then have "items_added s = of_nat N"
          using j False by (simp add: joinable_spread_def items_left_def N)
        then have "items_added s - of_nat ?own = of_nat ?m" by (simp add: m)
        moreover have "?m < 2 ^ LENGTH('h)" using j by (simp add: joinable_spread_def all_pieces_def)
        ultimately show ?thesis by (simp only: unat_of_nat_small)
      qed
      have z: "items_added s - of_nat ?own = 0 \<longleftrightarrow> unat (items_added s - of_nat ?own) = 0"
        by (simp add: unat_eq_0)
      have f: "\<not> succeeded s \<Longrightarrow> ?m = 0" using j False by (simp add: joinable_spread_def)
      show ?thesis
        using joins False rest m d f z
        by (cases "succeeded s") (auto simp: spread_program_def bulk_ops_def Let_def)
    qed
  qed
  then show "prog_ok N (spread_program b c s)" "set (adds (spread_program b c s)) = {..<N}"
    "set (hands (spread_program b c s)) = {..<N}" by blast+
qed

section \<open>The invariant\<close>

fun outstanding :: "piece_pc \<Rightarrow> nat" where
  "outstanding P_Planned = 0" | "outstanding (P_Arrive q) = arriving q" | "outstanding _ = 1"

fun in_hand :: "piece_pc \<Rightarrow> bool" where
  "in_hand P_Running = True" | "in_hand (P_Arrive q) = True" | "in_hand _ = False"

fun was_run :: "piece_pc \<Rightarrow> bool" where
  "was_run (P_Arrive q) = True" | "was_run _ = False"

definition phases_ok :: "nat \<Rightarrow> 'h::len word join_sys \<Rightarrow> bool" where
  "phases_ok N s \<longleftrightarrow> prog_ok N (ops s) \<and> (\<forall>i<N. (piece_at s i = P_Planned \<longleftrightarrow> i \<in> set (adds (ops s))) \<and>
     (piece_at s i = P_Counted \<longleftrightarrow> i \<in> set (hands (ops s)) \<and> i \<notin> set (adds (ops s))) \<and>
     (\<forall>q. piece_at s i = P_Arrive q \<longrightarrow> arriver_pc q))"

definition busy_ok :: "nat \<Rightarrow> nat \<Rightarrow> 'hc join_sys \<Rightarrow> bool" where
  "busy_ok N n s \<longleftrightarrow> (\<forall>t i. busy s t = Some i \<longrightarrow> t \<le> n \<and> i < N \<and> in_hand (piece_at s i)) \<and>
     (\<forall>i<N. in_hand (piece_at s i) \<longrightarrow> piece_at s i = P_Arrive B_Arrived \<or> (\<exists>t\<le>n. busy s t = Some i))"

definition counter_ok :: "nat \<Rightarrow> 'hc join_sys \<Rightarrow> bool" where
  "counter_ok N s \<longleftrightarrow> uint (counter (jbar s)) = weight N outstanding (piece_at s)"

definition joiner_ok :: "bool \<Rightarrow> nat \<Rightarrow> 'hc join_sys \<Rightarrow> bool" where
  "joiner_ok spin N s \<longleftrightarrow> use_spin_wait (jbar s) = spin \<and> (case joining s of None \<Rightarrow> True
     | Some q \<Rightarrow> ops s = [if spin then Join_Spin else Join_Wait] \<and>
         (case q of
            B_Load \<Rightarrow> \<not> spin
          | B_Park c \<Rightarrow> \<not> spin \<and> c \<noteq> 0
          | B_Parked \<Rightarrow> \<not> spin \<and> (counter (jbar s) \<noteq> 0 \<or> (\<exists>i<N. piece_at s i = P_Arrive B_Wake))
          | B_Poll c k \<Rightarrow> spin
          | B_Yield \<Rightarrow> spin
          | B_Returned r \<Rightarrow> counter (jbar s) = 0
          | _ \<Rightarrow> False))"

definition joins_ok :: "bool \<Rightarrow> 'hc join_sys \<Rightarrow> bool" where
  "joins_ok spin s \<longleftrightarrow> (Join_Spin \<in> set (ops s) \<longrightarrow> spin) \<and> (Join_Wait \<in> set (ops s) \<longrightarrow> \<not> spin)"

definition tail_ok :: "nat \<Rightarrow> 'hc join_sys \<Rightarrow> bool" where
  "tail_ok N s \<longleftrightarrow> (after_join (ops s) \<longrightarrow> (\<forall>i<N. outstanding (piece_at s i) \<noteq> 0 \<longrightarrow> busy s 0 = Some i))"

definition ran_ok :: "piece list \<Rightarrow> 'hc join_sys \<Rightarrow> bool" where
  "ran_ok ps s \<longleftrightarrow> mset (iterations_ran s)
     = (\<Sum>i<length ps. if was_run (piece_at s i) then mset (piece_iterations (ps ! i)) else {#})"

definition asserts_ok :: "bool \<Rightarrow> 'hc join_sys \<Rightarrow> bool" where
  "asserts_ok enqueued s \<longleftrightarrow> (enqueued \<longrightarrow> asserts s \<and> (\<forall>k. Bulk_Failed k \<notin> set (ops s)))"

definition division_ok :: "'hc join_sys \<Rightarrow> bool" where
  "division_ok s \<longleftrightarrow> spread_work_stealing_division_min \<le> division s \<and>
     division s \<le> spread_work_stealing_division_max \<and>
     (\<forall>d. Cas_Division d \<in> set (ops s) \<longrightarrow> d < spread_work_stealing_division_max)"

definition join_inv :: "bool \<Rightarrow> bool \<Rightarrow> piece list \<Rightarrow> nat \<Rightarrow> 'h::len word join_sys \<Rightarrow> bool" where
  "join_inv spin enqueued ps n s \<longleftrightarrow> phases_ok (length ps) s \<and> busy_ok (length ps) n s \<and> counter_ok (length ps) s \<and>
     joiner_ok spin (length ps) s \<and> joins_ok spin s \<and> tail_ok (length ps) s \<and> ran_ok ps s \<and> asserts_ok enqueued s \<and> division_ok s"

lemma outstanding_le: "outstanding p \<le> 1"
proof (cases p)
  case (P_Arrive q)
  then show ?thesis by (cases q) simp_all
qed simp_all

lemma counter_bound: "counter_ok N s \<Longrightarrow> uint (counter (jbar s)) \<le> int N"
  unfolding counter_ok_def by (simp only: weight_le [OF outstanding_le])

lemma counter_zero:
  "counter_ok N s \<Longrightarrow> counter (jbar s) = 0 \<longleftrightarrow> (\<forall>i<N. outstanding (piece_at s i) = 0)"
  unfolding counter_ok_def weight_zero [symmetric] by (drule sym) (simp only: unsigned_eq_0_iff)

lemma arrived_exact:
  assumes "counter_ok N (s :: 'h::len word join_sys)" "N < 2 ^ LENGTH('h)"
  shows "everyone_arrived TYPE('h) (jbar s) \<longleftrightarrow> counter (jbar s) = 0"
proof -
  have "uint (counter (jbar s)) < 2 ^ LENGTH('h)"
  proof (rule le_less_trans [OF counter_bound [OF assms(1)]])
    from assms(2) have "int N < int (2 ^ LENGTH('h))" by (simp only: of_nat_less_iff)
    then show "int N < 2 ^ LENGTH('h)" by (simp only: of_nat_power of_nat_numeral)
  qed
  then have "unat (counter (jbar s)) < 2 ^ LENGTH('h)"
    by (simp only: unat_eq_nat_uint nat_less_iff uint_nonnegative of_nat_power of_nat_numeral)
  then show ?thesis by (rule everyone_arrived_exact)
qed

lemma phases_okD:
  assumes "phases_ok N s"
  shows "prog_ok N (ops s)"
    and "i < N \<Longrightarrow> piece_at s i = P_Planned \<longleftrightarrow> i \<in> set (adds (ops s))"
    and "i < N \<Longrightarrow> piece_at s i = P_Counted \<longleftrightarrow> i \<in> set (hands (ops s)) \<and> i \<notin> set (adds (ops s))"
    and "i < N \<Longrightarrow> piece_at s i = P_Arrive q \<Longrightarrow> arriver_pc q"
  using assms unfolding phases_ok_def by blast+

lemma busy_okD:
  assumes "busy_ok N n s"
  shows "busy s t = Some i \<Longrightarrow> t \<le> n \<and> i < N \<and> in_hand (piece_at s i)"
    and "i < N \<Longrightarrow> in_hand (piece_at s i) \<Longrightarrow> piece_at s i = P_Arrive B_Arrived \<or> (\<exists>t\<le>n. busy s t = Some i)"
  using assms unfolding busy_ok_def by blast+

lemma phases_step:
  assumes p: "phases_ok (length ps) s" and b: "busy_ok (length ps) n s"
    and step: "join_step wake_one ps n s s'"
  shows "phases_ok (length ps) s'"
proof -
  have prog: "prog_ok (length ps) (ops s')"
    using step
  proof cases
  qed (use phases_okD(1) [OF p] in auto)
  have point: "(piece_at s' i = P_Planned \<longleftrightarrow> i \<in> set (adds (ops s'))) \<and>
      (piece_at s' i = P_Counted \<longleftrightarrow> i \<in> set (hands (ops s')) \<and> i \<notin> set (adds (ops s'))) \<and>
      (\<forall>q. piece_at s' i = P_Arrive q \<longrightarrow> arriver_pc q)" if i: "i < length ps" for i
    using step
  proof cases
  qed (use phases_okD(1) [OF p] phases_okD(2,3) [OF p i] phases_okD(4) [OF p i] busy_okD(1) [OF b]
        in \<open>auto simp: move_all_def split: if_splits\<close>)
  from prog point show ?thesis unfolding phases_ok_def by blast
qed

lemma busy_ok_same:
  assumes "busy_ok N n s" "busy s' = busy s"
    and "\<And>i. i < N \<Longrightarrow> in_hand (piece_at s' i) \<longleftrightarrow> in_hand (piece_at s i)"
    and "\<And>i. i < N \<Longrightarrow> piece_at s i = P_Arrive B_Arrived \<Longrightarrow> piece_at s' i = P_Arrive B_Arrived"
  shows "busy_ok N n s'"
  using assms unfolding busy_ok_def by simp blast

lemma busy_ok_moves:
  assumes "busy_ok N n s" "busy s' = busy s" "piece_at s' = move_all T q (piece_at s)"
    and "\<forall>i\<in>T. \<not> in_hand (piece_at s i)" "\<not> in_hand q"
  shows "busy_ok N n s'"
proof (rule busy_ok_same [OF assms(1,2)])
  fix i show "in_hand (piece_at s' i) \<longleftrightarrow> in_hand (piece_at s i)" using assms by (auto simp: move_all_def)
  assume "piece_at s i = P_Arrive B_Arrived"
  with assms show "piece_at s' i = P_Arrive B_Arrived" by (metis in_hand.simps(2) move_all_def)
qed

lemma busy_ok_takes:
  assumes "busy_ok N n s" "busy s' = (busy s)(t := Some i)" "piece_at s' = (piece_at s)(i := P_Running)"
    and "busy s t = None" "t \<le> n" "i < N" "\<not> in_hand (piece_at s i)"
  shows "busy_ok N n s'"
  unfolding busy_ok_def
proof (intro conjI allI impI)
  fix u j assume "busy s' u = Some j"
  then show "u \<le> n" "j < N" "in_hand (piece_at s' j)"
    using assms busy_okD(1) [OF assms(1), of u j] by (auto split: if_splits)
next
  fix j assume j: "j < N" "in_hand (piece_at s' j)"
  show "piece_at s' j = P_Arrive B_Arrived \<or> (\<exists>u\<le>n. busy s' u = Some j)"
  proof (cases "j = i")
    case True
    with assms show ?thesis by (intro disjI2 exI [of _ t]) simp
  next
    case False
    with j assms(3) busy_okD(2) [OF assms(1), of j] consider "piece_at s' j = P_Arrive B_Arrived"
      | u where "u \<le> n" "busy s u = Some j" by auto
    then show ?thesis
    proof cases
      case (2 u)
      with assms(2,4) show ?thesis by (intro disjI2 exI [of _ u]) auto
    qed blast
  qed
qed

lemma prog_below:
  assumes "prog_ok N os"
  shows "i \<in> set (hands os) \<Longrightarrow> i < N" and "i \<in> set (adds os) \<Longrightarrow> i < N"
  using assms by (induction N os rule: prog_ok.induct) auto

lemma phase_of:
  assumes "phases_ok N s"
  shows "i \<in> set (adds (ops s)) \<Longrightarrow> piece_at s i = P_Planned"
    and "i \<in> set (hands (ops s)) \<Longrightarrow> i \<notin> set (adds (ops s)) \<Longrightarrow> piece_at s i = P_Counted"
  using phases_okD(2,3) [OF assms, of i] prog_below [OF phases_okD(1) [OF assms], of i] by blast+

lemma busy_step:
  assumes p: "phases_ok (length ps) s" and b: "busy_ok (length ps) n s"
    and step: "join_step wake_one ps n s s'"
  shows "busy_ok (length ps) n s'"
proof -
  note prog = phases_okD(1) [OF p] and phase = phase_of [OF p]
  show ?thesis
    using step
  proof cases
    case (run_own i rest)
    with prog have i: "i < length ps" "i \<in> set (hands (ops s))" "i \<notin> set (adds (ops s))" by auto
    with phase(2) have "piece_at s i = P_Counted" by blast
    with run_own i show ?thesis by (intro busy_ok_takes [OF b]) (auto simp: caller_free_def)
  next
    case (take_piece t i)
    then show ?thesis by (intro busy_ok_takes [OF b]) auto
  next
    case (steal rest i)
    then show ?thesis by (intro busy_ok_takes [OF b]) (auto simp: caller_free_def)
  next
    case (completed t i)
    show ?thesis
      unfolding busy_ok_def
    proof (intro conjI allI impI)
      fix u j assume "busy s' u = Some j"
      then show "u \<le> n" "j < length ps" "in_hand (piece_at s' j)"
        using completed(1) busy_okD(1) [OF b, of u j] by (auto split: if_splits)
    next
      fix j assume j: "j < length ps" "in_hand (piece_at s' j)"
      show "piece_at s' j = P_Arrive B_Arrived \<or> (\<exists>u\<le>n. busy s' u = Some j)"
      proof (cases "piece_at s j = P_Arrive B_Arrived")
        case False
        with j completed(1) busy_okD(2) [OF b, of j] obtain u where "u \<le> n" "busy s u = Some j" by auto
        with False completed show ?thesis by (intro disjI2 exI [of _ u]) auto
      qed (simp add: completed(1))
    qed
  next
    case (initialize k "is" rest)
    then have "\<forall>i\<in>set is. piece_at s i = P_Planned" using phase(1) by simp
    with initialize show ?thesis by (intro busy_ok_moves [OF b]) auto
  next
    case (enqueue_worker w "is" rest q)
    with prog have "\<forall>i\<in>set is. i \<in> set (hands (ops s)) \<and> i \<notin> set (adds (ops s))" by auto
    with phase(2) have "\<forall>i\<in>set is. piece_at s i = P_Counted" by blast
    with enqueue_worker show ?thesis by (intro busy_ok_moves [OF b]) auto
  next
    case (enqueue_bulk "is" rest)
    with prog have "\<forall>i\<in>set is. i \<in> set (hands (ops s)) \<and> i \<notin> set (adds (ops s))" by auto
    with phase(2) have "\<forall>i\<in>set is. piece_at s i = P_Counted" by blast
    with enqueue_bulk show ?thesis by (intro busy_ok_moves [OF b]) auto
  next
    case (add i rest ok b')
    with phase(1) have "piece_at s i = P_Planned" by simp
    with add show ?thesis by (intro busy_ok_same [OF b]) auto
  next
    case (run t i)
    then show ?thesis by (intro busy_ok_same [OF b]) auto
  next
    case (arrive t i b' q)
    then show ?thesis by (intro busy_ok_same [OF b]) auto
  next
    case (wake t i woken)
    then show ?thesis by (intro busy_ok_same [OF b]) auto
  qed (auto intro!: busy_ok_same [OF b])
qed

lemma arriver_next:
  assumes "bar_next h b B_Arrive = Some (b', q)"
  shows "counter b' = counter b - 1" and "use_spin_wait b' = use_spin_wait b"
    and "q = B_Arrived \<or> q = B_Wake \<and> counter b = 1 \<and> \<not> use_spin_wait b"
    and "\<not> use_spin_wait b \<Longrightarrow> counter b = 1 \<Longrightarrow> q = B_Wake"
  using assms by (auto simp: underflow_checked_dec_def split: if_splits)

lemma joiner_next:
  assumes "bar_next h b q = Some (b', q')" "q \<noteq> B_Arrive"
  shows "b' = b"
  using assms by (cases q) (auto simp: Let_def split: if_splits)

lemma counter_ok_same:
  assumes "counter_ok N s" "counter (jbar s') = counter (jbar s)"
    and "\<And>i. i < N \<Longrightarrow> outstanding (piece_at s' i) = outstanding (piece_at s i)"
  shows "counter_ok N s'"
  using assms by (simp add: counter_ok_def weight_def total_weight_def)

lemma counter_step:
  assumes p: "phases_ok (length ps) (s :: 'h::len word join_sys)" and b: "busy_ok (length ps) n s"
    and c: "counter_ok (length ps) s" and j: "joiner_ok spin (length ps) s"
    and N: "length ps < 2 ^ LENGTH('h)" "LENGTH('h) \<le> 32" and step: "join_step wake_one ps n s s'"
  shows "counter_ok (length ps) s'"
proof -
  note prog = phases_okD(1) [OF p] and phase = phase_of [OF p]
  have N32: "int (length ps) < 2 ^ 32"
  proof -
    have "length ps < 2 ^ 32" using N by (meson less_le_trans one_le_numeral power_increasing)
    then show ?thesis by (metis of_nat_less_iff of_nat_numeral of_nat_power)
  qed
  show ?thesis
    using step
  proof cases
    case (add i rest ok b')
    with phase(1) prog have i: "piece_at s i = P_Planned" "i < length ps" by simp_all
    have "weight (length ps) outstanding ((piece_at s)(i := P_Counted)) = weight (length ps) outstanding (piece_at s) + 1"
      using i by (simp add: weight_upd)
    moreover have "weight (length ps) outstanding ((piece_at s)(i := P_Counted)) \<le> int (length ps)"
      by (rule weight_le [OF outstanding_le])
    moreover have "counter b' = counter (jbar s) + 1"
      using add(4) by (auto simp: add_expected_arrival_def overflow_checked_add_def)
    ultimately show ?thesis
      using c N32 unfolding counter_ok_def add(1) by (simp add: uint_plus_small)
  next
    case (initialize k "is" rest)
    then have all: "\<forall>i<length ps. piece_at s i = P_Planned" and is_: "set is \<subseteq> {..<length ps}" "distinct is" "unat k = length is"
      using phase(1) prog by auto
    then have "weight (length ps) outstanding (piece_at s) = 0" by (simp add: weight_zero)
    moreover have "weight (length ps) outstanding (move_all (set is) P_Counted (piece_at s))
        = weight (length ps) outstanding (piece_at s) + int (card (set is)) * (int (outstanding P_Counted) - int 0)"
      by (rule weight_move_all) (use is_ all in auto)
    ultimately have "weight (length ps) outstanding (move_all (set is) P_Counted (piece_at s)) = int (unat k)"
      using is_ by (simp add: distinct_card)
    moreover have "uint (ucast k :: 32 word) = uint k" using N(2) by (intro uint_ucast_widen) simp
    ultimately show ?thesis by (simp add: counter_ok_def initialize(1) barrier_initialize_def)
  next
    case (bulk_failed k rest)
    then have "\<forall>i<length ps. piece_at s i = P_Planned" using phase(1) prog by auto
    then have "weight (length ps) outstanding (piece_at s) = 0" by (simp add: weight_zero)
    then show ?thesis by (simp add: counter_ok_def bulk_failed(1) barrier_initialize_def)
  next
    case (enqueue_worker w "is" rest q)
    with prog have "\<forall>i\<in>set is. i \<in> set (hands (ops s)) \<and> i \<notin> set (adds (ops s))" by auto
    with phase(2) have "\<forall>i\<in>set is. piece_at s i = P_Counted" by blast
    with enqueue_worker show ?thesis by (intro counter_ok_same [OF c]) (auto simp: move_all_def)
  next
    case (enqueue_bulk "is" rest)
    with prog have "\<forall>i\<in>set is. i \<in> set (hands (ops s)) \<and> i \<notin> set (adds (ops s))" by auto
    with phase(2) have "\<forall>i\<in>set is. piece_at s i = P_Counted" by blast
    with enqueue_bulk show ?thesis by (intro counter_ok_same [OF c]) (auto simp: move_all_def)
  next
    case (run_own i rest)
    with prog phase(2) [of i] have "piece_at s i = P_Counted" by auto
    with run_own show ?thesis by (intro counter_ok_same [OF c]) auto
  next
    case (arrive t i b' q)
    from busy_okD(1) [OF b arrive(2)] have i: "i < length ps" by simp
    have "arriving q = 0" using arriver_next(3) [OF arrive(4)] by auto
    then have w: "weight (length ps) outstanding ((piece_at s)(i := P_Arrive q)) = weight (length ps) outstanding (piece_at s) - 1"
      using i arrive(3) by (simp add: weight_upd)
    have "1 \<le> weight (length ps) outstanding (piece_at s)"
      using weight_ge [OF i, of outstanding "piece_at s"] arrive(3) by simp
    then have "0 < counter (jbar s)" using c by (simp add: counter_ok_def word_less_alt)
    from uint_minus_1 [OF this] w c show ?thesis
      by (simp add: counter_ok_def arrive(1) arriver_next(1) [OF arrive(4)])
  next
    case (join_moves q b' q')
    then have "q \<noteq> B_Arrive" using j by (auto simp: joiner_ok_def)
    from joiner_next [OF join_moves(3) this] show ?thesis
      by (intro counter_ok_same [OF c]) (simp_all add: join_moves(1))
  qed (auto intro!: counter_ok_same [OF c])
qed

lemma joiner_woken:
  assumes "wakes_one wake_one" "wake_one (joiner_parked s) woken"
  shows "0 \<in> woken \<longleftrightarrow> joining s = Some B_Parked"
  using assms wakes_oneD [of wake_one "joiner_parked s" woken]
  by (auto simp: joiner_parked_def split: if_splits)

lemma joiner_ok_same:
  assumes "joiner_ok spin N s" "joining s' = joining s" "ops s' = ops s" "jbar s' = jbar s"
    and "\<And>k. piece_at s k = P_Arrive B_Wake \<Longrightarrow> piece_at s' k = P_Arrive B_Wake"
  shows "joiner_ok spin N s'"
proof -
  have "\<exists>k<N. piece_at s' k = P_Arrive B_Wake" if "\<exists>k<N. piece_at s k = P_Arrive B_Wake"
    using that assms(5) by blast
  with assms(1-4) show ?thesis by (cases "joining s") (auto simp: joiner_ok_def split: bar_pc.splits)
qed

lemma joiner_step:
  assumes w: "wakes_one wake_one" and p: "phases_ok (length ps) (s :: 'h::len word join_sys)"
    and b: "busy_ok (length ps) n s" and c: "counter_ok (length ps) s" and j: "joiner_ok spin (length ps) s"
    and jo: "joins_ok spin s" and N: "length ps < 2 ^ LENGTH('h)" and step: "join_step wake_one ps n s s'"
  shows "joiner_ok spin (length ps) s'"
proof -
  note prog = phases_okD(1) [OF p] and exact = arrived_exact [OF c N]
  show ?thesis
    using step
  proof cases
    case (arrive t i b' q)
    from busy_okD(1) [OF b arrive(2)] have i: "i < length ps" by simp
    with arrive(3) have "counter (jbar s) \<noteq> 0" using counter_zero [OF c] by force
    note arr = arriver_next [OF arrive(4)]
    have wakes: "counter b' = 0 \<Longrightarrow> \<not> spin \<Longrightarrow> q = B_Wake"
      using arr(1,4) j by (simp add: joiner_ok_def)
    show ?thesis
    proof (cases "joining s")
      case (Some r)
      with j i wakes arr(2) \<open>counter (jbar s) \<noteq> 0\<close> show ?thesis
        by (cases r) (auto simp: joiner_ok_def arrive(1) split: if_splits)
    qed (use j arr(2) in \<open>simp add: joiner_ok_def arrive(1)\<close>)
  next
    case (wake t i woken)
    note woken = joiner_woken [OF w wake(4)]
    show ?thesis
    proof (cases "joining s")
      case (Some r)
      with j woken show ?thesis by (cases r) (auto simp: joiner_ok_def wake(1))
    qed (use j woken in \<open>simp add: joiner_ok_def wake(1)\<close>)
  next
    case (join_moves q b' q')
    then have "q \<noteq> B_Arrive" using j by (auto simp: joiner_ok_def)
    note same = joiner_next [OF join_moves(3) this]
    from join_moves j show ?thesis
      by (cases q) (auto simp: joiner_ok_def exact parks_def Let_def split: if_splits)
  next
    case (run t i)
    then show ?thesis by (intro joiner_ok_same [OF j]) auto
  next
    case (take_piece t i)
    then show ?thesis by (intro joiner_ok_same [OF j]) auto
  next
    case (completed t i)
    then show ?thesis by (intro joiner_ok_same [OF j]) auto
  next
    case other_spreads
    then show ?thesis by (intro joiner_ok_same [OF j]) auto
  next
    case (join_wait rest)
    with prog jo j show ?thesis by (simp add: joiner_ok_def joins_ok_def)
  next
    case (join_spin rest c)
    with prog jo j show ?thesis by (simp add: joiner_ok_def joins_ok_def)
  qed (use j prog in \<open>auto simp: joiner_ok_def caller_free_def add_expected_arrival_def barrier_initialize_def
        overflow_checked_add_def split: option.splits\<close>)
qed

lemma tail_step:
  assumes p: "phases_ok (length ps) (s :: 'h::len word join_sys)" and b: "busy_ok (length ps) n s"
    and c: "counter_ok (length ps) s" and j: "joiner_ok spin (length ps) s" and tail: "tail_ok (length ps) s"
    and N: "length ps < 2 ^ LENGTH('h)" and step: "join_step wake_one ps n s s'"
  shows "tail_ok (length ps) s'"
  unfolding tail_ok_def
proof (intro impI allI)
  fix i assume a: "after_join (ops s')" and i: "i < length ps" and o: "outstanding (piece_at s' i) \<noteq> 0"
  note prog = phases_okD(1) [OF p]
  have z: "outstanding (piece_at s i) = 0" if "counter (jbar s) = 0"
    using that i counter_zero [OF c] by blast
  have t: "busy s 0 = Some i" if "after_join (ops s)" "outstanding (piece_at s i) \<noteq> 0"
    using that i tail by (simp add: tail_ok_def)
  show "busy s' 0 = Some i"
    using step
  proof cases
    case (take_piece t j)
    with a o t show ?thesis by (auto split: if_splits)
  next
    case (completed t j)
    with a o t show ?thesis by (cases "t = 0") auto
  next
    case (arrive t j b' q)
    with a o t arriver_next(3) [OF arrive(4)] show ?thesis by (auto split: if_splits)
  next
    case (run t j)
    with a o t show ?thesis by (auto split: if_splits)
  next
    case (wake t j woken)
    with a o t show ?thesis by (auto split: if_splits)
  next
    case (join_done rest)
    with o z arrived_exact [OF c N] show ?thesis by simp
  next
    case (waited r rest)
    with j z o show ?thesis by (simp add: joiner_ok_def)
  next
    case (spun r rest)
    with j z o show ?thesis by (simp add: joiner_ok_def)
  next
    case (run_own k rest)
    with prog a i have "i = k" by auto
    with run_own show ?thesis by simp
  qed (use a o t prog in \<open>auto split: if_splits\<close>)
qed

lemma joins_step: "joins_ok spin s \<Longrightarrow> join_step wake_one ps n s s' \<Longrightarrow> joins_ok spin s'"
  by (erule join_step.cases) (auto simp: joins_ok_def)

lemma division_step:
  assumes "division_ok s" and "join_step wake_one ps n s s'"
  shows "division_ok s'"
proof -
  have inc: "spread_work_stealing_division_min \<le> d + 1 \<and> d + 1 \<le> spread_work_stealing_division_max"
    if "spread_work_stealing_division_min \<le> d" "d < spread_work_stealing_division_max" for d
    using that by (auto simp: spread_work_stealing_division_min_def spread_work_stealing_division_max_def
        word_le_nat_alt word_less_nat_alt unat_word_ariths)
  from assms(2) show ?thesis
  proof cases
    case (cas_division current rest)
    with assms(1) inc show ?thesis by (auto simp: division_ok_def)
  next
    case other_spreads
    with assms(1) inc show ?thesis by (auto simp: division_ok_def)
  qed (use assms(1) in \<open>auto simp: division_ok_def\<close>)
qed

lemma ran_ok_same:
  assumes "ran_ok ps s" "iterations_ran s' = iterations_ran s" "\<And>i. i < length ps \<Longrightarrow> was_run (piece_at s' i) \<longleftrightarrow> was_run (piece_at s i)"
  shows "ran_ok ps s'"
proof -
  have "(\<Sum>i<length ps. if was_run (piece_at s' i) then mset (piece_iterations (ps ! i)) else {#})
      = (\<Sum>i<length ps. if was_run (piece_at s i) then mset (piece_iterations (ps ! i)) else {#})"
    by (rule sum.cong) (simp_all add: assms(3))
  with assms(1,2) show ?thesis by (simp add: ran_ok_def)
qed

lemma ran_step:
  assumes p: "phases_ok (length ps) s" and b: "busy_ok (length ps) n s" and r: "ran_ok ps s"
    and step: "join_step wake_one ps n s s'"
  shows "ran_ok ps s'"
proof -
  note prog = phases_okD(1) [OF p] and phase = phase_of [OF p]
  show ?thesis
    using step
  proof cases
    case (run t i)
    let ?f = "\<lambda>s k. if was_run (piece_at s k) then mset (piece_iterations (ps ! k)) else {#}"
    from busy_okD(1) [OF b run(2)] have i: "i < length ps" by simp
    have "(\<Sum>k<length ps. ?f s' k) = ?f s' i + (\<Sum>k\<in>{..<length ps} - {i}. ?f s' k)"
      using i by (intro sum.remove) auto
    also have "(\<Sum>k\<in>{..<length ps} - {i}. ?f s' k) = (\<Sum>k\<in>{..<length ps} - {i}. ?f s k)"
      by (rule sum.cong) (simp_all add: run(1))
    also have "\<dots> = (\<Sum>k<length ps. ?f s k)"
      using i by (subst sum.remove [of "{..<length ps}" i]) (simp_all add: run(3))
    finally show ?thesis using r by (simp add: ran_ok_def run(1))
  next
    case (initialize k "is" rest)
    then have "\<forall>i\<in>set is. piece_at s i = P_Planned" using phase(1) by simp
    with initialize show ?thesis by (intro ran_ok_same [OF r]) (auto simp: move_all_def)
  next
    case (enqueue_worker w "is" rest q)
    with prog have "\<forall>i\<in>set is. i \<in> set (hands (ops s)) \<and> i \<notin> set (adds (ops s))" by auto
    with phase(2) have "\<forall>i\<in>set is. piece_at s i = P_Counted" by blast
    with enqueue_worker show ?thesis by (intro ran_ok_same [OF r]) (auto simp: move_all_def)
  next
    case (enqueue_bulk "is" rest)
    with prog have "\<forall>i\<in>set is. i \<in> set (hands (ops s)) \<and> i \<notin> set (adds (ops s))" by auto
    with phase(2) have "\<forall>i\<in>set is. piece_at s i = P_Counted" by blast
    with enqueue_bulk show ?thesis by (intro ran_ok_same [OF r]) (auto simp: move_all_def)
  next
    case (add i rest ok b')
    with phase(1) have "piece_at s i = P_Planned" by simp
    with add show ?thesis by (intro ran_ok_same [OF r]) auto
  next
    case (run_own i rest)
    with prog phase(2) [of i] have "piece_at s i = P_Counted" by auto
    with run_own show ?thesis by (intro ran_ok_same [OF r]) auto
  qed (auto intro!: ran_ok_same [OF r] split: if_splits)
qed

lemma asserts_step:
  assumes p: "phases_ok (length ps) (s :: 'h::len word join_sys)" and b: "busy_ok (length ps) n s"
    and c: "counter_ok (length ps) s" and a: "asserts_ok enqueued s"
    and N: "length ps < 2 ^ LENGTH('h)" "LENGTH('h) \<le> 32" and step: "join_step wake_one ps n s s'"
  shows "asserts_ok enqueued s'"
proof -
  note prog = phases_okD(1) [OF p] and phase = phase_of [OF p]
  show ?thesis
    using step
  proof cases
    case (add i rest ok b')
    with phase(1) prog have i: "piece_at s i = P_Planned" "i < length ps" by simp_all
    have "weight (length ps) outstanding ((piece_at s)(i := P_Counted)) = weight (length ps) outstanding (piece_at s) + 1"
      using i by (simp add: weight_upd)
    moreover have "weight (length ps) outstanding ((piece_at s)(i := P_Counted)) \<le> int (length ps)"
      by (rule weight_le [OF outstanding_le])
    moreover have "length ps < 2 ^ 32" using N by (meson less_le_trans one_le_numeral power_increasing)
    moreover have "uint (- 1 :: 32 word) = 2 ^ 32 - 1" by (simp add: unsigned_minus_1_eq_mask mask_eq_exp_minus_1)
    ultimately have "uint (counter (jbar s)) < uint (- 1 :: 32 word)" using c by (simp add: counter_ok_def)
    then have "counter (jbar s) < - 1" by (simp only: word_less_alt)
    then have ok using add(4) by (auto simp: add_expected_arrival_def overflow_checked_add_def)
    with a add show ?thesis by (auto simp: asserts_ok_def)
  next
    case (initialize k "is" rest)
    then have "\<forall>i<length ps. piece_at s i = P_Planned" using phase(1) prog by auto
    then have "\<forall>i<length ps. outstanding (piece_at s i) = 0" by simp
    then have "counter (jbar s) = 0" using counter_zero [OF c] by blast
    with a initialize show ?thesis by (auto simp: asserts_ok_def)
  next
    case (arrive t i b' q)
    from busy_okD(1) [OF b arrive(2)] arrive(3) have "counter (jbar s) \<noteq> 0" using counter_zero [OF c] by force
    with a arrive show ?thesis by (auto simp: asserts_ok_def word_gt_0)
  qed (use a in \<open>auto simp: asserts_ok_def\<close>)
qed

lemma join_inv_step:
  assumes "wakes_one wake_one" "length ps < 2 ^ LENGTH('h)" "LENGTH('h) \<le> 32"
    and inv: "join_inv spin enqueued ps n (s :: 'h::len word join_sys)" and step: "join_step wake_one ps n s s'"
  shows "join_inv spin enqueued ps n s'"
proof -
  note i = inv [unfolded join_inv_def]
  note [intro] = phases_step [OF _ _ step] busy_step [OF _ _ step] counter_step [OF _ _ _ _ assms(2,3) step]
    joiner_step [OF assms(1) _ _ _ _ _ assms(2) step] joins_step [OF _ step]
    tail_step [OF _ _ _ _ _ assms(2) step] ran_step [OF _ _ _ step]
    asserts_step [OF _ _ _ _ assms(2,3) step] division_step [OF _ step]
  from i show ?thesis unfolding join_inv_def by blast
qed

definition joins_spinning :: "build \<Rightarrow> 'h::len word spread_context \<Rightarrow> 'h word spread \<Rightarrow> bool" where
  "joins_spinning b c sp \<longleftrightarrow> \<not> runs_alone b c \<and> use_caller_thread b \<and> spin_join sp"

definition join_setting :: "(parked \<Rightarrow> tid set \<Rightarrow> bool) \<Rightarrow> build \<Rightarrow> 'h::len word spread_context
    \<Rightarrow> 'h word spread \<Rightarrow> bool" where
  "join_setting wake_one b c sp \<longleftrightarrow> wakes_one wake_one \<and> joinable_spread b c sp \<and>
     spread_work_stealing_division_min \<le> stealing_division c \<and>
     stealing_division c \<le> spread_work_stealing_division_max"

lemma dispatch_no_fail: "Bulk_Failed k \<notin> set (dispatch_ops first ws)"
    "Cas_Division d \<notin> set (dispatch_ops first ws)" "Join_Spin \<notin> set (dispatch_ops first ws)"
    "Join_Wait \<notin> set (dispatch_ops first ws)"
  by (induction first ws rule: dispatch_ops.induct) auto

lemma spread_program_sets:
  shows "Cas_Division d \<notin> set (spread_program b c sp)"
    and "Join_Spin \<in> set (spread_program b c sp) \<Longrightarrow> joins_spinning b c sp"
    and "Join_Wait \<in> set (spread_program b c sp) \<Longrightarrow> \<not> joins_spinning b c sp"
    and "Bulk_Failed k \<in> set (spread_program b c sp) \<Longrightarrow> \<not> succeeded sp"
  by (auto simp: spread_program_def bulk_ops_def join_ops_def perform_caller_work_def joins_spinning_def
      dispatch_no_fail Let_def split: if_splits)

lemma join_init_inv:
  assumes "join_setting wake_one b c (sp :: 'h::len word spread)" and "join_init b c sp s"
  shows "join_inv (joins_spinning b c sp) (succeeded sp) (all_pieces sp) n s"
proof -
  have j: "joinable_spread b c sp" using assms(1) by (simp add: join_setting_def)
  note prog = spread_program_ok [OF j refl] and sets = spread_program_sets [where b = b and c = c and sp = sp]
  show ?thesis
    unfolding join_inv_def
  proof (intro conjI)
    show "phases_ok (length (all_pieces sp)) s"
      using assms(2) prog by (simp add: phases_ok_def join_init_def)
    show "busy_ok (length (all_pieces sp)) n s" using assms(2) by (simp add: busy_ok_def join_init_def)
    show "counter_ok (length (all_pieces sp)) s"
      using assms(2) by (simp add: counter_ok_def join_init_def weight_def total_weight_def)
    show "joiner_ok (joins_spinning b c sp) (length (all_pieces sp)) s"
      using assms(2) by (simp add: joiner_ok_def join_init_def joins_spinning_def)
    show "joins_ok (joins_spinning b c sp) s"
      using assms(2) sets(2,3) by (auto simp: joins_ok_def join_init_def)
    show "tail_ok (length (all_pieces sp)) s"
      using assms(2) by (simp add: tail_ok_def join_init_def)
    show "ran_ok (all_pieces sp) s" using assms(2) by (simp add: ran_ok_def join_init_def)
    show "asserts_ok (succeeded sp) s"
      using assms(2) sets(4) by (auto simp: asserts_ok_def join_init_def)
    show "division_ok s"
      using assms sets(1) by (simp add: division_ok_def join_init_def join_setting_def)
  qed
qed

interpretation spread_join: invariant_system
  "\<lambda>s. join_setting wake_one b c (sp :: 'h::len word spread) \<and> join_init b c sp s"
  "join_step wake_one (all_pieces sp) n"
  "\<lambda>s. join_setting wake_one b c sp \<longrightarrow> join_inv (joins_spinning b c sp) (succeeded sp) (all_pieces sp) n s"
  for wake_one b c sp n
proof unfold_locales
  fix s s' :: "'h word join_sys"
  assume "join_setting wake_one b c sp \<longrightarrow> join_inv (joins_spinning b c sp) (succeeded sp) (all_pieces sp) n s"
    "join_step wake_one (all_pieces sp) n s s'"
  then show "join_setting wake_one b c sp \<longrightarrow> join_inv (joins_spinning b c sp) (succeeded sp) (all_pieces sp) n s'"
    by (auto simp: join_setting_def joinable_spread_def intro: join_inv_step)
qed (auto intro: join_init_inv)

section \<open>The end of a spread\<close>

lemma returned_state:
  assumes inv: "join_inv spin enqueued ps n s" and r: "returned s" and i: "i < length ps"
  shows "piece_at s i = P_Arrive B_Wake \<or> piece_at s i = P_Arrive B_Arrived"
proof -
  have p: "phases_ok (length ps) s" and t: "tail_ok (length ps) s" using inv by (simp_all add: join_inv_def)
  have "ops s = []" "busy s 0 = None" using r by (simp_all add: returned_def caller_free_def)
  with t i have o: "outstanding (piece_at s i) = 0" by (simp add: tail_ok_def)
  have np: "piece_at s i \<noteq> P_Planned" using phases_okD(2) [OF p i] \<open>ops s = []\<close> by simp
  show ?thesis
  proof (cases "piece_at s i")
    case (P_Arrive q)
    with phases_okD(4) [OF p i] o show ?thesis by (cases q) auto
  qed (use o np in simp_all)
qed

lemma all_iterations_ran:
  assumes inv: "join_inv spin enqueued ps n s" and all: "\<forall>i<length ps. was_run (piece_at s i)"
  shows "mset (iterations_ran s) = mset (concat (map piece_iterations ps))"
proof -
  have "mset (iterations_ran s) = (\<Sum>i<length ps. mset (piece_iterations (ps ! i)))"
    using inv all by (simp add: join_inv_def ran_ok_def)
  also have "\<dots> = mset (concat (map (\<lambda>i. piece_iterations (ps ! i)) [0..<length ps]))"
    by (simp add: mset_concat sum_list_sum_nth atLeast0LessThan comp_def)
  also have "map (\<lambda>i. piece_iterations (ps ! i)) [0..<length ps] = map piece_iterations ps"
    by (rule nth_equalityI) simp_all
  finally show ?thesis .
qed

section \<open>The join can always be completed\<close>

fun piece_rank :: "piece_pc \<Rightarrow> nat" where
  "piece_rank P_Planned = 7" | "piece_rank P_Counted = 6" | "piece_rank P_Queued = 5" | "piece_rank P_Running = 4"
| "piece_rank P_Lost = 0"
| "piece_rank (P_Arrive q) = (if q = B_Arrive then 3 else if q = B_Wake then 2 else 1)"

fun op_rank :: "'hc caller_op \<Rightarrow> nat" where
  "op_rank Join_Spin = 3" | "op_rank Load_Division = 2" | "op_rank _ = 1"

fun joiner_rank :: "bar_pc option \<Rightarrow> nat" where
  "joiner_rank None = 4" | "joiner_rank (Some B_Load) = 2" | "joiner_rank (Some B_Yield) = 2"
| "joiner_rank (Some (B_Returned r)) = 1" | "joiner_rank (Some _) = 3"

definition join_measure :: "nat \<Rightarrow> nat \<Rightarrow> 'hc join_sys \<Rightarrow> nat" where
  "join_measure N n s = 2 * total_weight N piece_rank (piece_at s) + total_weight (Suc n) (\<lambda>b. of_bool (b \<noteq> None)) (busy s)
     + 4 * sum_list (map op_rank (ops s)) + joiner_rank (joining s)"

definition none_lost :: "nat \<Rightarrow> 'hc join_sys \<Rightarrow> bool" where
  "none_lost N s \<longleftrightarrow> (\<forall>i<N. piece_at s i \<noteq> P_Lost)"

lemma piece_rank_mono:
  "(\<And>i. i < N \<Longrightarrow> piece_rank (p' i) \<le> piece_rank (p i)) \<Longrightarrow> total_weight N piece_rank p' \<le> total_weight N piece_rank p"
  unfolding total_weight_def by (rule sum_mono) simp

lemma piece_rank_upd:
  "i < N \<Longrightarrow> piece_rank x < piece_rank (p i) \<Longrightarrow> total_weight N piece_rank (p(i := x)) < total_weight N piece_rank p"
  using total_weight_upd [of i N piece_rank p x] by linarith

lemma joiner_rank_pos: "0 < joiner_rank j"
proof (cases j)
  case (Some q)
  then show ?thesis by (cases q) simp_all
qed simp

lemma busy_upd:
  assumes "t \<le> n"
  shows "total_weight (Suc n) (\<lambda>b. of_bool (b \<noteq> None)) (f(t := x)) + of_bool (f t \<noteq> None)
    = total_weight (Suc n) (\<lambda>b. of_bool (b \<noteq> None)) f + of_bool (x \<noteq> None)"
  using total_weight_upd [of t "Suc n" "\<lambda>b. of_bool (b \<noteq> None)" f x] assms by simp

lemma busy_thread_moves:
  fixes s :: "'h::len word join_sys"
  assumes inv: "join_inv spin enqueued ps n s" and live: "\<forall>p. \<exists>woken. wake_one p woken"
    and nl: "none_lost (length ps) s" and t: "busy s t = Some i"
  shows "\<exists>s'. join_step wake_one ps n s s' \<and> join_measure (length ps) n s' < join_measure (length ps) n s
    \<and> none_lost (length ps) s'"
proof -
  have p: "phases_ok (length ps) s" and b: "busy_ok (length ps) n s" and j: "joiner_ok spin (length ps) s"
    using inv by (simp_all add: join_inv_def)
  from busy_okD(1) [OF b t] have i: "t \<le> n" "i < length ps" "in_hand (piece_at s i)" by simp_all
  note less = piece_rank_upd [OF i(2)]
  from i(3) consider "piece_at s i = P_Running" | q where "piece_at s i = P_Arrive q" by (cases "piece_at s i") auto
  then show ?thesis
  proof cases
    case 1
    let ?s = "s\<lparr>piece_at := (piece_at s)(i := P_Arrive B_Arrive), iterations_ran := iterations_ran s @ piece_iterations (ps ! i)\<rparr>"
    have "join_step wake_one ps n s ?s" using t 1 by (rule join_step.run)
    moreover have "join_measure (length ps) n ?s < join_measure (length ps) n s"
      using less [of "P_Arrive B_Arrive" "piece_at s"] 1 by (simp add: join_measure_def)
    ultimately show ?thesis using nl by (intro exI [of _ ?s]) (simp add: none_lost_def)
  next
    case (2 q)
    with phases_okD(4) [OF p i(2)] consider "q = B_Arrive" | "q = B_Wake" | "q = B_Arrived" by (cases q) auto
    then show ?thesis
    proof cases
      case 1
      obtain b' q' where nx: "bar_next TYPE('h) (jbar s) B_Arrive = Some (b', q')"
        by (cases "use_spin_wait (jbar s)") auto
      let ?s = "s\<lparr>jbar := b', piece_at := (piece_at s)(i := P_Arrive q'), asserts := asserts s \<and> 0 < counter (jbar s)\<rparr>"
      have "join_step wake_one ps n s ?s" using t 2 1 nx by (intro join_step.arrive) simp_all
      moreover have "join_measure (length ps) n ?s < join_measure (length ps) n s"
        using less [of "P_Arrive q'" "piece_at s"] 2 1 arriver_next(3) [OF nx] by (auto simp: join_measure_def)
      ultimately show ?thesis using nl by (intro exI [of _ ?s]) (simp add: none_lost_def)
    next
      case wake: 2
      obtain woken where w: "wake_one (joiner_parked s) woken" using live by blast
      let ?s = "s\<lparr>piece_at := (piece_at s)(i := P_Arrive B_Arrived), joining := (if 0 \<in> woken then Some B_Load else joining s)\<rparr>"
      have step: "join_step wake_one ps n s ?s" using t 2 wake w by (intro join_step.wake) simp_all
      have "joiner_rank (joining ?s) \<le> joiner_rank (joining s) + 1"
        using joiner_rank_pos [of "joining s"] by simp
      then have "join_measure (length ps) n ?s < join_measure (length ps) n s"
        using less [of "P_Arrive B_Arrived" "piece_at s"] 2 wake by (simp add: join_measure_def)
      with step nl show ?thesis by (intro exI [of _ ?s]) (simp add: none_lost_def)
    next
      case arrived: 3
      let ?s = "s\<lparr>busy := (busy s)(t := None)\<rparr>"
      have "join_step wake_one ps n s ?s" using t 2 arrived by (intro join_step.completed) simp_all
      moreover have "join_measure (length ps) n ?s < join_measure (length ps) n s"
        using busy_upd [OF i(1), of "busy s" None] t by (simp add: join_measure_def)
      ultimately show ?thesis using nl by (intro exI [of _ ?s]) (simp add: none_lost_def)
    qed
  qed
qed

lemma idle_takes:
  assumes idle: "\<And>t. busy s t = None" and nl: "none_lost (length ps) s" and n: "0 < n"
    and q: "i < length ps" "piece_at s i = P_Queued"
  shows "\<exists>s'. join_step wake_one ps n s s' \<and> join_measure (length ps) n s' < join_measure (length ps) n s
    \<and> none_lost (length ps) s'"
proof -
  let ?s = "s\<lparr>piece_at := (piece_at s)(i := P_Running), busy := (busy s)(1 := Some i)\<rparr>"
  have "join_step wake_one ps n s ?s" using idle n q by (intro join_step.take_piece) simp_all
  moreover have "join_measure (length ps) n ?s < join_measure (length ps) n s"
    using piece_rank_upd [OF q(1), of P_Running "piece_at s"] busy_upd [of 1 n "busy s" "Some i"] idle n q
    by (simp add: join_measure_def)
  ultimately show ?thesis using nl by (intro exI [of _ ?s]) (simp add: none_lost_def)
qed

lemma idle_arrived:
  assumes inv: "join_inv spin enqueued ps n s" and idle: "\<And>t. busy s t = None"
    and nl: "none_lost (length ps) s" and nq: "\<And>i. i < length ps \<Longrightarrow> piece_at s i \<noteq> P_Queued"
    and o: "adds (ops s) = []" "hands (ops s) = []" and i: "i < length ps"
  shows "piece_at s i = P_Arrive B_Arrived"
proof -
  have p: "phases_ok (length ps) s" and b: "busy_ok (length ps) n s" using inv by (simp_all add: join_inv_def)
  have "piece_at s i \<noteq> P_Planned" "piece_at s i \<noteq> P_Counted" "piece_at s i \<noteq> P_Lost" "piece_at s i \<noteq> P_Queued"
    using phases_okD(2,3) [OF p i] o nl nq [OF i] i by (simp_all add: none_lost_def)
  then have "in_hand (piece_at s i)" by (cases "piece_at s i") simp_all
  then show ?thesis using busy_okD(2) [OF b i] idle by simp
qed

lemma moves:
  assumes "join_step wake_one ps n s s'" "join_measure (length ps) n s' < join_measure (length ps) n s"
    and "none_lost (length ps) s'"
  shows "\<exists>s'. join_step wake_one ps n s s' \<and> join_measure (length ps) n s' < join_measure (length ps) n s
    \<and> none_lost (length ps) s'"
  using assms by blast

lemma idle_caller_moves:
  fixes s :: "'h::len word join_sys"
  assumes inv: "join_inv spin enqueued ps n s" and idle: "\<And>t. busy s t = None" and nj: "joining s = None"
    and nl: "none_lost (length ps) s" and n: "0 < n" and N: "length ps < 2 ^ LENGTH('h)" and nr: "ops s \<noteq> []"
  shows "\<exists>s'. join_step wake_one ps n s s' \<and> join_measure (length ps) n s' < join_measure (length ps) n s
    \<and> none_lost (length ps) s'"
proof -
  have p: "phases_ok (length ps) s" and c: "counter_ok (length ps) s" using inv by (simp_all add: join_inv_def)
  note prog = phases_okD(1) [OF p] and phase = phase_of [OF p]
  have free: "caller_free s" using idle nj by (simp add: caller_free_def)
  note less = piece_rank_mono [of "length ps" _ "piece_at s"]
  from nr obtain x rest where ops: "ops s = x # rest" by (cases "ops s") auto
  have joined: ?thesis if x: "x = Join_Spin \<or> x = Join_Wait"
  proof (cases "\<exists>i<length ps. piece_at s i = P_Queued")
    case True
    then show ?thesis using idle_takes [OF idle nl n] by blast
  next
    case False
    have r: "rest = []" using prog ops x by auto
    have "\<forall>i<length ps. piece_at s i = P_Arrive B_Arrived"
      using idle_arrived [OF inv idle nl] False x ops r by auto
    then have "counter (jbar s) = 0" using counter_zero [OF c] by simp
    then have e: "everyone_arrived TYPE('h) (jbar s)" using arrived_exact [OF c N] by simp
    show ?thesis
    proof (cases "x = Join_Spin")
      case True
      then have "join_step wake_one ps n s (s\<lparr>ops := rest\<rparr>)"
        using join_step.join_done [OF free _ e, of rest] ops by simp
      with True ops nl show ?thesis
        by (intro exI [of _ "s\<lparr>ops := rest\<rparr>"]) (simp add: join_measure_def none_lost_def)
    next
      case False
      with x have "join_step wake_one ps n s (s\<lparr>joining := Some B_Load\<rparr>)"
        using join_step.join_wait [OF free, of rest] ops by simp
      with nj nl show ?thesis
        by (intro exI [of _ "s\<lparr>joining := Some B_Load\<rparr>"]) (simp add: join_measure_def none_lost_def)
    qed
  qed
  show ?thesis
  proof (cases x)
    case (Add_Arrival i)
    obtain ok b where ab: "add_expected_arrival (jbar s) = (ok, b)" by fastforce
    have "piece_at s i = P_Planned" using phase(1) ops Add_Arrival by simp
    then have le: "total_weight (length ps) piece_rank ((piece_at s)(i := P_Counted)) \<le> total_weight (length ps) piece_rank (piece_at s)"
      by (intro less) simp
    show ?thesis
      by (rule moves [OF join_step.add [OF free ops [unfolded Add_Arrival] ab]])
        (use le ops Add_Arrival nl in \<open>simp_all add: join_measure_def none_lost_def\<close>)
  next
    case (Initialize k "is")
    have "\<forall>i\<in>set is. piece_at s i = P_Planned" using phase(1) ops Initialize by simp
    then have le: "total_weight (length ps) piece_rank (move_all (set is) P_Counted (piece_at s))
        \<le> total_weight (length ps) piece_rank (piece_at s)" by (intro less) (simp add: move_all_def)
    show ?thesis
      by (rule moves [OF join_step.initialize [OF free ops [unfolded Initialize]]])
        (use le ops Initialize nl in \<open>simp_all add: join_measure_def none_lost_def move_all_def\<close>)
  next
    case (Bulk_Failed k)
    show ?thesis
      by (rule moves [OF join_step.bulk_failed [OF free ops [unfolded Bulk_Failed]]])
        (use ops Bulk_Failed nl in \<open>simp_all add: join_measure_def none_lost_def\<close>)
  next
    case (Enqueue_Worker w "is")
    have "\<forall>i\<in>set is. i \<in> set (hands (ops s)) \<and> i \<notin> set (adds (ops s))" using prog ops Enqueue_Worker by auto
    then have "\<forall>i\<in>set is. piece_at s i = P_Counted" using phase(2) by blast
    then have le: "total_weight (length ps) piece_rank (move_all (set is) P_Queued (piece_at s))
        \<le> total_weight (length ps) piece_rank (piece_at s)" by (intro less) (simp add: move_all_def)
    show ?thesis
      by (rule moves [OF join_step.enqueue_worker [OF free ops [unfolded Enqueue_Worker] disjI1 [OF refl]]])
        (use le ops Enqueue_Worker nl in \<open>simp_all add: join_measure_def none_lost_def move_all_def\<close>)
  next
    case (Enqueue_Bulk "is")
    have "\<forall>i\<in>set is. i \<in> set (hands (ops s)) \<and> i \<notin> set (adds (ops s))" using prog ops Enqueue_Bulk by auto
    then have "\<forall>i\<in>set is. piece_at s i = P_Counted" using phase(2) by blast
    then have le: "total_weight (length ps) piece_rank (move_all (set is) P_Queued (piece_at s))
        \<le> total_weight (length ps) piece_rank (piece_at s)" by (intro less) (simp add: move_all_def)
    show ?thesis
      by (rule moves [OF join_step.enqueue_bulk [OF free ops [unfolded Enqueue_Bulk]]])
        (use le ops Enqueue_Bulk nl in \<open>simp_all add: join_measure_def none_lost_def move_all_def\<close>)
  next
    case (Run_Own i)
    have "i \<in> set (hands (ops s)) \<and> i \<notin> set (adds (ops s))" using prog ops Run_Own by auto
    then have "piece_at s i = P_Counted" using phase(2) by blast
    then have le: "total_weight (length ps) piece_rank ((piece_at s)(i := P_Running)) \<le> total_weight (length ps) piece_rank (piece_at s)"
      by (intro less) simp
    show ?thesis
      by (rule moves [OF join_step.run_own [OF free ops [unfolded Run_Own]]])
        (use le ops Run_Own nl busy_upd [of 0 n "busy s" "Some i"] idle in \<open>simp_all add: join_measure_def none_lost_def\<close>)
  next
    case Steal
    show ?thesis
      by (rule moves [OF join_step.steal_ends [OF free ops [unfolded Steal]]])
        (use ops Steal nl in \<open>simp_all add: join_measure_def none_lost_def\<close>)
  next
    case Load_Division
    show ?thesis
      by (rule moves [OF join_step.load_division [OF free ops [unfolded Load_Division]]])
        (use ops Load_Division nl in \<open>simp_all add: join_measure_def none_lost_def\<close>)
  next
    case (Cas_Division d)
    show ?thesis
      by (rule moves [OF join_step.cas_division [OF free ops [unfolded Cas_Division]]])
        (use ops Cas_Division nl in \<open>simp_all add: join_measure_def none_lost_def\<close>)
  qed (use joined in blast)+
qed

lemma idle_joiner_moves:
  fixes s :: "'h::len word join_sys"
  assumes inv: "join_inv spin enqueued ps n s" and idle: "\<And>t. busy s t = None" and q: "joining s = Some q"
    and nl: "none_lost (length ps) s" and n: "0 < n" and N: "length ps < 2 ^ LENGTH('h)"
  shows "\<exists>s'. join_step wake_one ps n s s' \<and> join_measure (length ps) n s' < join_measure (length ps) n s
    \<and> none_lost (length ps) s'"
proof (cases "\<exists>i<length ps. piece_at s i = P_Queued")
  case True
  then show ?thesis using idle_takes [OF idle nl n] by blast
next
  case False
  have c: "counter_ok (length ps) s" and j: "joiner_ok spin (length ps) s" using inv by (simp_all add: join_inv_def)
  have ops: "ops s = [if spin then Join_Spin else Join_Wait]" using j q by (simp add: joiner_ok_def)
  have all: "piece_at s i = P_Arrive B_Arrived" if "i < length ps" for i
    using idle_arrived [OF inv idle nl _ _ _ that] False ops by simp
  then have z: "counter (jbar s) = 0" using counter_zero [OF c] by simp
  then have e: "everyone_arrived TYPE('h) (jbar s)" using arrived_exact [OF c N] by simp
  have go: ?thesis if nx: "bar_next TYPE('h) (jbar s) q = Some (jbar s, q')"
    and r: "joiner_rank (Some q') < joiner_rank (Some q)" for q'
    by (rule moves [OF join_step.join_moves [OF q nx]])
      (use r nl q in \<open>simp_all add: join_measure_def none_lost_def\<close>)
  show ?thesis
  proof (cases q)
    case B_Load
    then show ?thesis using go [of "B_Returned True"] z by simp
  next
    case (B_Park k)
    then have "k \<noteq> 0" using j q by (simp add: joiner_ok_def)
    with B_Park show ?thesis using go [of B_Load] z by (simp add: parks_def)
  next
    case (B_Poll k tries)
    show ?thesis
    proof (cases "tries = 0")
      case True
      with B_Poll show ?thesis using go [of B_Yield] by simp
    next
      case False
      with B_Poll show ?thesis
        using go [of "B_Returned (k - (tries - 1) < k div 8)"] e by (simp add: Let_def)
    qed
  next
    case B_Yield
    then show ?thesis using go [of "B_Returned True"] e by simp
  next
    case (B_Returned r)
    show ?thesis
    proof (cases spin)
      case True
      with ops have o: "ops s = Join_Spin # []" by simp
      show ?thesis
        by (rule moves [OF join_step.spun [OF q [unfolded B_Returned] o]])
          (use True ops q B_Returned nl in \<open>simp_all add: join_measure_def none_lost_def\<close>)
    next
      case False
      with ops have o: "ops s = Join_Wait # []" by simp
      show ?thesis
        by (rule moves [OF join_step.waited [OF q [unfolded B_Returned] o]])
          (use False ops q B_Returned nl in \<open>simp_all add: join_measure_def none_lost_def\<close>)
    qed
  qed (use j q z all in \<open>auto simp: joiner_ok_def\<close>)
qed

lemma join_progress:
  fixes s :: "'h::len word join_sys"
  assumes inv: "join_inv spin enqueued ps n s" and live: "\<forall>p. \<exists>woken. wake_one p woken"
    and nl: "none_lost (length ps) s" and n: "0 < n" and N: "length ps < 2 ^ LENGTH('h)" and nr: "\<not> returned s"
  shows "\<exists>s'. join_step wake_one ps n s s' \<and> join_measure (length ps) n s' < join_measure (length ps) n s
    \<and> none_lost (length ps) s'"
proof (cases "\<exists>t i. busy s t = Some i")
  case True
  then show ?thesis using busy_thread_moves [OF inv live nl] by blast
next
  case False
  then have idle: "\<And>t. busy s t = None" by auto
  show ?thesis
  proof (cases "joining s")
    case None
    with nr idle have "ops s \<noteq> []" by (simp add: returned_def caller_free_def)
    with None show ?thesis using idle_caller_moves [OF inv idle _ nl n N] by blast
  next
    case (Some q)
    then show ?thesis using idle_joiner_moves [OF inv idle _ nl n N] by blast
  qed
qed

lemma reach_trans: "reach ((=) s) step t \<Longrightarrow> reach init step s \<Longrightarrow> reach init step t"
  by (induction rule: reach.induct) (auto intro: reach.move)

lemma join_completes:
  fixes s :: "'h::len word join_sys"
  assumes w: "wakes_one wake_one" and live: "\<forall>p. \<exists>woken. wake_one p woken" and n: "0 < n"
    and N: "length ps < 2 ^ LENGTH('h)" "LENGTH('h) \<le> 32"
  shows "join_inv spin enqueued ps n s \<Longrightarrow> none_lost (length ps) s \<Longrightarrow>
    \<exists>s'. reach ((=) s) (join_step wake_one ps n) s' \<and> returned s'"
proof (induction "join_measure (length ps) n s" arbitrary: s rule: less_induct)
  case less
  show ?case
  proof (cases "returned s")
    case True
    then show ?thesis by (blast intro: reach.start)
  next
    case False
    from join_progress [OF less.prems(1) live less.prems(2) n N(1) False] obtain s1
      where s1: "join_step wake_one ps n s s1" "join_measure (length ps) n s1 < join_measure (length ps) n s"
        "none_lost (length ps) s1" by blast
    from less.hyps [OF s1(2) join_inv_step [OF w N less.prems(1) s1(1)] s1(3)] obtain s'
      where s': "reach ((=) s1) (join_step wake_one ps n) s'" "returned s'" by blast
    have "reach ((=) s) (join_step wake_one ps n) s1" using s1(1) by (blast intro: reach.intros)
    with s' show ?thesis by (blast intro: reach_trans)
  qed
qed

section \<open>Plan and join together\<close>

lemma spread_dispatch_shape:
  assumes "spread_dispatch b c n p = Some sp"
  shows "length (caller_pieces sp) \<le> 1"
    and "if exact_worker_selection b \<and> \<not> slow_thread_signals b \<and> items_in_shop c = 0 then shared_pieces sp = []
      else worker_pieces sp = [] \<and> (\<not> succeeded sp \<longrightarrow> shared_pieces sp = [])"
  using assms by (auto simp: spread_dispatch_def Let_def length_caller split: if_splits)

lemma spread_work_joinable:
  fixes c :: "'h::len word spread_context"
  assumes set: "spread_setting b c pic" and n: "0 < unat n" and sp: "spread_work b c n pic = Some sp"
    and small: "length (all_pieces sp) < 2 ^ LENGTH('h)"
  shows "joinable_spread b c sp"
proof -
  have width: "LENGTH('h) \<le> 32" using set by (simp add: spread_setting_def)
  from spread_work_sound [OF set n] sp have covers: "spread_covers (unat n) c sp" by auto
  have n0: "n \<noteq> 0" using n by auto
  show ?thesis
  proof (cases "runs_alone b c")
    case True
    with sp n0 have "sp = caller_only n" by (auto simp: spread_work_def runs_alone_def split: if_splits)
    with True small width show ?thesis
      by (auto simp: joinable_spread_def caller_only_def all_pieces_def runs_alone_def items_left_def)
  next
    case False
    with sp n0 obtain p where "spread_dispatch b c n p = Some sp"
      by (auto simp: spread_work_def runs_alone_def split: if_splits option.splits)
    from spread_dispatch_shape [OF this] covers small width False show ?thesis
      by (auto simp: joinable_spread_def spread_covers_def split: if_splits)
  qed
qed

lemma spread_pieces_iterations:
  "mset (concat (map piece_iterations (all_pieces sp))) = mset (iterations_run sp)"
  by (simp add: iterations_run_def piece_iterations_def [abs_def] case_prod_unfold)

lemma reach_join_inv:
  fixes c :: "'h::len word spread_context"
  assumes setting: "join_setting wake_one b c sp"
    and r: "reach (join_init b c sp) (join_step wake_one (all_pieces sp) n) s"
  shows "join_inv (joins_spinning b c sp) (succeeded sp) (all_pieces sp) n s"
proof -
  have "(\<lambda>s. join_setting wake_one b c sp \<and> join_init b c sp s) = join_init b c sp"
    using setting by (simp add: fun_eq_iff)
  with r spread_join.inv_reach [of wake_one b c sp n s] setting show ?thesis by simp
qed

lemma spread_join_setting:
  fixes c :: "'h::len word spread_context"
  assumes "wakes_one wake_one" "spread_setting b c pic" "0 < unat n" "spread_work b c n pic = Some sp"
    and "length (all_pieces sp) < 2 ^ LENGTH('h)"
  shows "join_setting wake_one b c sp"
  using assms spread_work_joinable [OF assms(2-5)] by (simp add: join_setting_def spread_setting_def)

text \<open>A kernel that wakes whoever is parked, and 20 iterations on three workers of an idle shop.\<close>

definition wake_everybody :: "parked \<Rightarrow> tid set \<Rightarrow> bool" where
  "wake_everybody parked woken \<longleftrightarrow> woken = dom parked"

lemma wake_everybody: "wakes_one wake_everybody" "\<forall>parked. \<exists>woken. wake_everybody parked woken"
  by (auto simp: wakes_one_def wake_everybody_def)

definition small_spread :: "16 word spread" where
  "small_spread = the (spread_work default_build (idle_shop 3) 20 1)"

lemma small_spread:
  "spread_setting default_build (idle_shop (3 :: 16 word)) 1"
  "spread_work default_build (idle_shop 3) 20 1 = Some small_spread" "length (all_pieces small_spread) = 13"
proof -
  show "spread_setting default_build (idle_shop (3 :: 16 word)) 1"
    by (simp add: spread_setting_def default_build_def idle_shop_def spread_work_stealing_division_min_def
        spread_work_stealing_division_max_def)
  have "map_option (\<lambda>s. length (all_pieces s)) (spread_work default_build (idle_shop (3 :: 16 word)) 20 1) = Some 13"
    by code_simp
  then show "spread_work default_build (idle_shop 3) 20 1 = Some small_spread" "length (all_pieces small_spread) = 13"
    by (auto simp: small_spread_def)
qed

definition small_start :: "16 word join_sys" where
  "small_start = \<lparr>jbar = \<lparr>counter = 0, use_spin_wait = True\<rparr>,
     ops = spread_program default_build (idle_shop 3) small_spread, joining = None, piece_at = (\<lambda>_. P_Planned),
     busy = (\<lambda>_. None), iterations_ran = [], division = 4, asserts = True\<rparr>"

lemma small_start: "join_init default_build (idle_shop 3) small_spread small_start"
proof -
  have "map_option spin_join (spread_work default_build (idle_shop (3 :: 16 word)) 20 1) = Some True" by code_simp
  then have "spin_join small_spread" by (auto simp: small_spread(2))
  then show ?thesis by (simp add: join_init_def small_start_def runs_alone_def idle_shop_def default_build_def)
qed

lemma join_can_return:
  fixes sp :: "'h::len word spread"
  assumes setting: "join_setting wake_one b c sp" and live: "\<forall>p. \<exists>woken. wake_one p woken" and n: "0 < n"
  shows "\<exists>s. reach (join_init b c sp) (join_step wake_one (all_pieces sp) n) s \<and> returned s"
proof -
  obtain s0 where s0: "join_init b c sp s0" by (simp add: join_init_def)
  then have r: "reach (join_init b c sp) (join_step wake_one (all_pieces sp) n) s0" by (rule reach.start)
  have "none_lost (length (all_pieces sp)) s0" using s0 by (simp add: none_lost_def join_init_def)
  moreover have "wakes_one wake_one" "length (all_pieces sp) < 2 ^ LENGTH('h)" "LENGTH('h) \<le> 32"
    using setting by (simp_all add: join_setting_def joinable_spread_def)
  ultimately show ?thesis
    using join_completes [OF _ live n _ _ reach_join_inv [OF setting r]] r by (blast intro: reach_trans)
qed

lemma join_result:
  fixes c :: "'h::len word spread_context"
  assumes setting: "join_setting wake_one b c sp" and run: "iterations_run sp = [0..<N]"
    and r: "reach (join_init b c sp) (join_step wake_one (all_pieces sp) n) s"
  shows "returned s \<Longrightarrow> mset (iterations_ran s) = mset [0..<N] \<and> counter (jbar s) = 0 \<and>
      (\<forall>i<length (all_pieces sp). piece_at s i = P_Arrive B_Wake \<or> piece_at s i = P_Arrive B_Arrived)"
    and "succeeded sp \<Longrightarrow> asserts s"
    and "spread_work_stealing_division_min \<le> division s \<and> division s \<le> spread_work_stealing_division_max"
proof -
  note inv = reach_join_inv [OF setting r]
  show "succeeded sp \<Longrightarrow> asserts s"
    "spread_work_stealing_division_min \<le> division s \<and> division s \<le> spread_work_stealing_division_max"
    using inv by (simp_all add: join_inv_def asserts_ok_def division_ok_def)
  assume "returned s"
  then have all: "\<forall>i<length (all_pieces sp). piece_at s i = P_Arrive B_Wake \<or> piece_at s i = P_Arrive B_Arrived"
    using returned_state [OF inv] by blast
  then have "\<forall>i<length (all_pieces sp). was_run (piece_at s i)" by (metis was_run.simps(1))
  moreover have "counter (jbar s) = 0"
    using all inv counter_zero [of "length (all_pieces sp)" s] by (fastforce simp: join_inv_def)
  ultimately show "mset (iterations_ran s) = mset [0..<N] \<and> counter (jbar s) = 0 \<and>
      (\<forall>i<length (all_pieces sp). piece_at s i = P_Arrive B_Wake \<or> piece_at s i = P_Arrive B_Arrived)"
    using all_iterations_ran [OF inv] all by (simp add: spread_pieces_iterations run)
qed

section \<open>Theorems\<close>

text \<open>C1. A spread from its plan to its return, in every interleaving of the caller and the workers: when
  \<open>spread_work\<close> has returned, every iteration has been run exactly once and every piece has made its
  arrival, so no thread can use the work functor again and the barrier's counter is zero (what may be
  left is a wake call, which needs only the address). Unless the bulk enqueue failed, no assertion of
  the barrier has fired; the work-splitting factor stays within its limits. The pieces are few enough
  for \<open>hardware_concurrency_t\<close> to count.\<close>

theorem spread_join_correct:
  fixes c :: "'h::len word spread_context"
  assumes "wakes_one wake_one" and "spread_setting b c pic" and "0 < unat n"
    and "spread_work b c n pic = Some sp" and "length (all_pieces sp) < 2 ^ LENGTH('h)"
    and "reach (join_init b c sp) (join_step wake_one (all_pieces sp) (unat (worker_threads c))) s"
  shows "(returned s \<longrightarrow> mset (iterations_ran s) = mset [0..<unat n] \<and> counter (jbar s) = 0 \<and>
      (\<forall>i<length (all_pieces sp). piece_at s i = P_Arrive B_Wake \<or> piece_at s i = P_Arrive B_Arrived)) \<and>
    (succeeded sp \<longrightarrow> asserts s) \<and>
    spread_work_stealing_division_min \<le> division s \<and> division s \<le> spread_work_stealing_division_max"
proof -
  have "spread_covers (unat n) c sp" using spread_work_sound [OF assms(2,3)] assms(4) by auto
  then have "iterations_run sp = [0..<unat n]" unfolding spread_covers_def by (blast intro: iterations_run_tiles)
  from join_result [OF spread_join_setting [OF assms(1-5)] this assms(6)] show ?thesis by blast
qed

theorem spread_join_correct_witness:
  "\<exists>s. reach (join_init default_build (idle_shop 3) small_spread) (join_step wake_everybody (all_pieces small_spread) 3) s
     \<and> returned s \<and> mset (iterations_ran s) = mset [0..<20] \<and> asserts s"
proof -
  obtain s where r: "reach (join_init default_build (idle_shop 3) small_spread)
      (join_step wake_everybody (all_pieces small_spread) 3) s" "returned s"
    using join_can_return [OF spread_join_setting [OF wake_everybody(1) small_spread(1) _ small_spread(2)]
        wake_everybody(2), of 3] small_spread(3) by auto
  have "map_option succeeded (spread_work default_build (idle_shop (3 :: 16 word)) 20 1) = Some True" by code_simp
  then have "succeeded small_spread" by (auto simp: small_spread(2))
  with spread_join_correct [OF wake_everybody(1) small_spread(1) _ small_spread(2), of s] r small_spread(3)
  show ?thesis by (auto simp: idle_shop_def)
qed



text \<open>After a failed bulk enqueue \<open>initialize(0)\<close> is called on a counter that still holds the number of
  pieces: the barrier's assertion that it is not initialized twice does not hold.\<close>

theorem failed_enqueue_asserts:
  fixes s :: "'h::len word join_sys"
  assumes "ops s = Bulk_Failed k # rest" and "0 < unat k" and "LENGTH('h) \<le> 32" and "caller_free s"
    and "join_step wake_one ps n s s'" and "ops s' \<noteq> ops s"
  shows "\<not> asserts s'"
proof -
  have "unat (ucast k :: 32 word) = unat k" using assms(3) by (intro unat_ucast_widen) simp
  then have "(ucast k :: 32 word) \<noteq> 0" using assms(2) by auto
  from assms(5) show ?thesis
  proof cases
    case (bulk_failed k' rest')
    with assms(1) \<open>ucast k \<noteq> 0\<close> show ?thesis by (simp add: barrier_initialize_def)
  qed (use assms(1,4,6) in \<open>auto simp: caller_free_def\<close>)
qed

end
