(* ===== verification/FutureHandles.thy ===== *)
theory FutureHandles
  imports Future
begin

text \<open>
  The handles of the promise/future pairs (threading/future.hpp: \<open>promise\<close>, \<open>future\<close>, \<open>make\<close>;
  threading/outcome_future.hpp: \<open>outcome_promise\<close>, \<open>outcome_future\<close>, with the same text): move
  construction, move assignment and destruction over slots on the heap. Theory Future has the slot and
  the interleaving of its two owners; here each operation is atomic and the question is who owns what.
  A handle variable that does not exist holds no pointer.
\<close>

section \<open>Slots on the heap, and the variables that point to them\<close>

record ('s, 'v, 'e) slot_operations =
  new_slot :: 's
  set_value_op :: "'v \<Rightarrow> 's \<Rightarrow> 's"
  set_exception_op :: "'e exception_ptr \<Rightarrow> 's \<Rightarrow> 's"
  completed_op :: "'s \<Rightarrow> bool"
  slot_wait :: "'s \<Rightarrow> 's option"
  slot_get :: "'s \<Rightarrow> (('v, 'e) result \<times> 's) option"

record 's handles =
  slots :: "nat \<Rightarrow> ('s \<times> 8 word) option"     \<comment> \<open>the slot and its \<open>owners_\<close>, while it is allocated\<close>
  next_slot :: nat
  promises :: "nat \<Rightarrow> nat option"              \<comment> \<open>\<open>p_state_\<close> of each promise variable\<close>
  futures :: "nat \<Rightarrow> nat option"

datatype handle_error =
    Dangling                          \<comment> \<open>an access to a slot that was deleted\<close>
  | Blocks                            \<comment> \<open>\<open>wait\<close> on a slot that is not completed\<close>
  | Asserts                           \<comment> \<open>a handle without a slot, or a second completion\<close>

definition no_handles :: "'s handles" where
  "no_handles = \<lparr>slots = (\<lambda>_. None), next_slot = 0, promises = (\<lambda>_. None), futures = (\<lambda>_. None)\<rparr>"

definition on_slot :: "('s \<Rightarrow> 8 word \<Rightarrow> handle_error + 's handles) \<Rightarrow> nat \<Rightarrow> 's handles \<Rightarrow> handle_error + 's handles" where
  "on_slot f a h = (case slots h a of None \<Rightarrow> Inl Dangling | Some (s, n) \<Rightarrow> f s n)"

definition put_slot :: "nat \<Rightarrow> 's \<Rightarrow> 8 word \<Rightarrow> 's handles \<Rightarrow> 's handles" where
  "put_slot a s n h = h\<lparr>slots := (slots h)(a := Some (s, n))\<rparr>"

text \<open>\<open>release\<close> of the slot: the last owner deletes it.\<close>

definition state_release :: "nat \<Rightarrow> 's handles \<Rightarrow> handle_error + 's handles" where
  "state_release a h = on_slot (\<lambda>s n.
     Inr (if n = 1 then h\<lparr>slots := (slots h)(a := None)\<rparr> else put_slot a s (n - 1) h)) a h"

section \<open>The operations\<close>

definition make_pair :: "('s, 'v, 'e) slot_operations \<Rightarrow> nat \<Rightarrow> nat \<Rightarrow> 's handles \<Rightarrow> 's handles" where
  "make_pair k p f h = (put_slot (next_slot h) (new_slot k) 2 h)\<lparr>next_slot := next_slot h + 1,
     promises := (promises h)(p := Some (next_slot h)), futures := (futures h)(f := Some (next_slot h))\<rparr>"

definition promise_drop :: "('s, 'v, 'e) slot_operations \<Rightarrow> nat \<Rightarrow> 's handles \<Rightarrow> handle_error + 's handles" where
  "promise_drop k p h = (case promises h p of None \<Rightarrow> Inr h
     | Some a \<Rightarrow> on_slot (\<lambda>s n. state_release a
         (put_slot a (promise_abandon (set_exception_op k) (completed_op k) s) n h)) a h)"

definition future_release :: "('s, 'v, 'e) slot_operations \<Rightarrow> nat \<Rightarrow> 's handles \<Rightarrow> handle_error + 's handles" where
  "future_release k f h = (case futures h f of None \<Rightarrow> Inr h
     | Some a \<Rightarrow> on_slot (\<lambda>s n. case slot_wait k s of None \<Rightarrow> Inl Blocks
         | Some s' \<Rightarrow> map_sum id (\<lambda>h. h\<lparr>futures := (futures h)(f := None)\<rparr>)
             (state_release a (put_slot a s' n h))) a h)"

definition take_promise :: "nat \<Rightarrow> nat \<Rightarrow> 's handles \<Rightarrow> 's handles" where
  "take_promise p q h = (let h' = h\<lparr>promises := (promises h)(p := promises h q)\<rparr>
     in h'\<lparr>promises := (promises h')(q := None)\<rparr>)"

definition take_future :: "nat \<Rightarrow> nat \<Rightarrow> 's handles \<Rightarrow> 's handles" where
  "take_future f g h = (let h' = h\<lparr>futures := (futures h)(f := futures h g)\<rparr>
     in h'\<lparr>futures := (futures h')(g := None)\<rparr>)"

datatype ('v, 'e) handle_op =
    Make nat nat
  | Promise_Move nat nat | Promise_Assign nat nat | Promise_Destroy nat | Promise_Run nat "'e + 'v"
  | Future_Move nat nat | Future_Assign nat nat | Future_Destroy nat | Future_Wait nat | Future_Get nat

text \<open>\<open>Make\<close> and the moves construct variables that do not exist yet; the assignments may be given one
  and the same variable twice.\<close>

fun handle_apply :: "('s, 'v, 'e) slot_operations \<Rightarrow> 's handles \<Rightarrow> ('v, 'e) handle_op \<Rightarrow> handle_error + 's handles" where
  "handle_apply k h (Make p f) = Inr (make_pair k p f h)"
| "handle_apply k h (Promise_Move p q) = Inr (take_promise p q h)"
| "handle_apply k h (Promise_Assign p q) = map_sum id (take_promise p q) (promise_drop k p h)"
| "handle_apply k h (Promise_Destroy p) = map_sum id (\<lambda>h. h\<lparr>promises := (promises h)(p := None)\<rparr>) (promise_drop k p h)"
| "handle_apply k h (Promise_Run p work) = (case promises h p of None \<Rightarrow> Inl Asserts
     | Some a \<Rightarrow> on_slot (\<lambda>s n. if completed_op k s then Inl Asserts
         else Inr (put_slot a (promise_run (set_value_op k) (set_exception_op k) work s) n h)) a h)"
| "handle_apply k h (Future_Move f g) = Inr (take_future f g h)"
| "handle_apply k h (Future_Assign f g) = map_sum id (take_future f g) (future_release k f h)"
| "handle_apply k h (Future_Destroy f) = future_release k f h"
| "handle_apply k h (Future_Wait f) = (case futures h f of None \<Rightarrow> Inl Asserts
     | Some a \<Rightarrow> on_slot (\<lambda>s n. case slot_wait k s of None \<Rightarrow> Inl Blocks | Some s' \<Rightarrow> Inr (put_slot a s' n h)) a h)"
| "handle_apply k h (Future_Get f) = (case futures h f of None \<Rightarrow> Inl Asserts
     | Some a \<Rightarrow> on_slot (\<lambda>s n. case slot_get k s of None \<Rightarrow> Inl Blocks
         | Some (r, s') \<Rightarrow> Inr (put_slot a s' n h)) a h)"

fun constructs_ok :: "'s handles \<Rightarrow> ('v, 'e) handle_op \<Rightarrow> bool" where
  "constructs_ok h (Make p f) \<longleftrightarrow> promises h p = None \<and> futures h f = None"
| "constructs_ok h (Promise_Move p q) \<longleftrightarrow> promises h p = None"
| "constructs_ok h (Future_Move f g) \<longleftrightarrow> futures h f = None"
| "constructs_ok h _ \<longleftrightarrow> True"

inductive handle_step :: "('s, 'v, 'e) slot_operations \<Rightarrow> 's handles \<Rightarrow> 's handles \<Rightarrow> bool" for k where
  apply_op: "constructs_ok h c \<Longrightarrow> handle_apply k h c = Inr h' \<Longrightarrow> handle_step k h h'"

definition slot_ops :: "'s \<Rightarrow> ('v \<Rightarrow> 's \<Rightarrow> 's) \<Rightarrow> ('e exception_ptr \<Rightarrow> 's \<Rightarrow> 's) \<Rightarrow> ('s \<Rightarrow> bool) \<Rightarrow> ('s \<Rightarrow> 's option)
    \<Rightarrow> ('s \<Rightarrow> (('v, 'e) result \<times> 's) option) \<Rightarrow> ('s, 'v, 'e) slot_operations" where
  "slot_ops s0 sv se ic w g = \<lparr>new_slot = s0, set_value_op = sv, set_exception_op = se, completed_op = ic,
     slot_wait = w, slot_get = g\<rparr>"

definition future_operations :: "('v \<Rightarrow> 'v) \<Rightarrow> (('v, 'e) future_state, 'v, 'e) slot_operations" where
  "future_operations moved = slot_ops future_state_new fs_set_value fs_set_exception completed fs_wait (fs_get moved)"

section \<open>The outcome pair\<close>

text \<open>threading/outcome_future.hpp, written out as that header has it.\<close>

definition outcome_make :: "nat \<Rightarrow> nat \<Rightarrow> ('v, 'e) outcome_state handles \<Rightarrow> ('v, 'e) outcome_state handles" where
  "outcome_make p f h = (let a = next_slot h in h\<lparr>slots := (slots h)(a := Some (outcome_state_new, 2)),
     next_slot := a + 1, promises := (promises h)(p := Some a), futures := (futures h)(f := Some a)\<rparr>)"

definition outcome_promise_abandon :: "nat \<Rightarrow> ('v, 'e) outcome_state handles \<Rightarrow> handle_error + ('v, 'e) outcome_state handles"
where
  "outcome_promise_abandon p h = (case promises h p of None \<Rightarrow> Inr h
     | Some a \<Rightarrow> on_slot (\<lambda>s n. state_release a
         (if \<not> o_completed s then put_slot a (os_set_exception Broken_Promise s) n h else put_slot a s n h)) a h)"

definition outcome_promise_run :: "nat \<Rightarrow> 'e + 'v \<Rightarrow> ('v, 'e) outcome_state handles \<Rightarrow> handle_error + ('v, 'e) outcome_state handles"
where
  "outcome_promise_run p work h = (case promises h p of None \<Rightarrow> Inl Asserts
     | Some a \<Rightarrow> on_slot (\<lambda>s n. if o_completed s then Inl Asserts
         else Inr (put_slot a (case work of Inr v \<Rightarrow> os_set_value v s | Inl e \<Rightarrow> os_set_exception (Thrown e) s) n h)) a h)"

definition outcome_future_release :: "nat \<Rightarrow> ('v, 'e) outcome_state handles \<Rightarrow> handle_error + ('v, 'e) outcome_state handles"
where
  "outcome_future_release f h = (case futures h f of None \<Rightarrow> Inr h
     | Some a \<Rightarrow> on_slot (\<lambda>s n. case os_wait s of None \<Rightarrow> Inl Blocks
         | Some s' \<Rightarrow> map_sum id (\<lambda>h. h\<lparr>futures := (futures h)(f := None)\<rparr>) (state_release a (put_slot a s' n h))) a h)"

definition outcome_future_wait :: "nat \<Rightarrow> ('v, 'e) outcome_state handles \<Rightarrow> handle_error + ('v, 'e) outcome_state handles"
where
  "outcome_future_wait f h = (case futures h f of None \<Rightarrow> Inl Asserts
     | Some a \<Rightarrow> on_slot (\<lambda>s n. case os_wait s of None \<Rightarrow> Inl Blocks | Some s' \<Rightarrow> Inr (put_slot a s' n h)) a h)"

definition outcome_future_get :: "(('v, 'e) result \<Rightarrow> ('v, 'e) result) \<Rightarrow> nat \<Rightarrow> ('v, 'e) outcome_state handles
    \<Rightarrow> handle_error + ('v, 'e) outcome_state handles" where
  "outcome_future_get moved f h = (case futures h f of None \<Rightarrow> Inl Asserts
     | Some a \<Rightarrow> on_slot (\<lambda>s n. case os_get moved s of None \<Rightarrow> Inl Blocks | Some (r, s') \<Rightarrow> Inr (put_slot a s' n h)) a h)"

fun outcome_apply :: "(('v, 'e) result \<Rightarrow> ('v, 'e) result) \<Rightarrow> ('v, 'e) outcome_state handles \<Rightarrow> ('v, 'e) handle_op
    \<Rightarrow> handle_error + ('v, 'e) outcome_state handles" where
  "outcome_apply moved h (Make p f) = Inr (outcome_make p f h)"
| "outcome_apply moved h (Promise_Move p q) = Inr (take_promise p q h)"
| "outcome_apply moved h (Promise_Assign p q) = map_sum id (take_promise p q) (outcome_promise_abandon p h)"
| "outcome_apply moved h (Promise_Destroy p) =
     map_sum id (\<lambda>h. h\<lparr>promises := (promises h)(p := None)\<rparr>) (outcome_promise_abandon p h)"
| "outcome_apply moved h (Promise_Run p work) = outcome_promise_run p work h"
| "outcome_apply moved h (Future_Move f g) = Inr (take_future f g h)"
| "outcome_apply moved h (Future_Assign f g) = map_sum id (take_future f g) (outcome_future_release f h)"
| "outcome_apply moved h (Future_Destroy f) = outcome_future_release f h"
| "outcome_apply moved h (Future_Wait f) = outcome_future_wait f h"
| "outcome_apply moved h (Future_Get f) = outcome_future_get moved f h"

inductive outcome_step :: "(('v, 'e) result \<Rightarrow> ('v, 'e) result) \<Rightarrow> ('v, 'e) outcome_state handles
    \<Rightarrow> ('v, 'e) outcome_state handles \<Rightarrow> bool" for moved where
  apply_outcome_op: "constructs_ok h c \<Longrightarrow> outcome_apply moved h c = Inr h' \<Longrightarrow> outcome_step moved h h'"

definition outcome_operations :: "(('v, 'e) result \<Rightarrow> ('v, 'e) result) \<Rightarrow> (('v, 'e) outcome_state, 'v, 'e) slot_operations" where
  "outcome_operations moved = slot_ops outcome_state_new os_set_value os_set_exception o_completed os_wait (os_get moved)"

lemma outcome_abandon_eq: "outcome_promise_abandon p h = promise_drop (outcome_operations moved) p h"
  by (auto simp: outcome_promise_abandon_def promise_drop_def promise_abandon_def on_slot_def outcome_operations_def
      slot_ops_def split: option.splits)

lemma outcome_run_eq: "outcome_promise_run p work h = handle_apply (outcome_operations moved) h (Promise_Run p work)"
  by (auto simp: outcome_promise_run_def promise_run_def on_slot_def outcome_operations_def slot_ops_def
      split: option.splits sum.splits)

lemma outcome_apply_eq: "outcome_apply moved h c = handle_apply (outcome_operations moved) h c"
proof (cases c)
  case (Make p f)
  then show ?thesis by (simp add: outcome_make_def make_pair_def put_slot_def outcome_operations_def slot_ops_def Let_def)
qed (simp_all add: outcome_abandon_eq [of _ _ moved] outcome_run_eq [of _ _ _ moved] outcome_future_release_def
    future_release_def outcome_future_wait_def outcome_future_get_def outcome_operations_def slot_ops_def
    cong: option.case_cong)

lemma outcome_step_eq: "outcome_step moved = handle_step (outcome_operations moved)"
  by (auto simp: fun_eq_iff outcome_step.simps handle_step.simps outcome_apply_eq)

section \<open>Ownership\<close>

text \<open>A slot is allocated while a handle points to it; it counts them; no two promises and no two
  futures share a slot; a slot without a promise is completed.\<close>

definition pointed :: "(nat \<Rightarrow> nat option) \<Rightarrow> nat \<Rightarrow> bool" where
  "pointed m a \<longleftrightarrow> (\<exists>v. m v = Some a)"

definition slot_ok :: "('s \<Rightarrow> bool) \<Rightarrow> ('s \<Rightarrow> 'r \<Rightarrow> bool) \<Rightarrow> bool \<Rightarrow> bool \<Rightarrow> ('s \<times> 8 word) option \<Rightarrow> bool" where
  "slot_ok fresh holds has_promise has_future x \<longleftrightarrow> (case x of None \<Rightarrow> \<not> has_promise \<and> \<not> has_future
     | Some (s, n) \<Rightarrow> (has_promise \<or> has_future) \<and> n = of_bool has_promise + of_bool has_future \<and>
         (has_promise \<and> fresh s \<or> (\<exists>r. holds s r)))"

definition unshared :: "(nat \<Rightarrow> nat option) \<Rightarrow> bool" where
  "unshared m \<longleftrightarrow> (\<forall>v w a. m v = Some a \<longrightarrow> m w = Some a \<longrightarrow> v = w)"

definition handles_ok :: "('s \<Rightarrow> bool) \<Rightarrow> ('s \<Rightarrow> 'r \<Rightarrow> bool) \<Rightarrow> 's handles \<Rightarrow> bool" where
  "handles_ok fresh holds h \<longleftrightarrow> unshared (promises h) \<and> unshared (futures h) \<and>
     (\<forall>a\<ge>next_slot h. slots h a = None) \<and>
     (\<forall>a. slot_ok fresh holds (pointed (promises h) a) (pointed (futures h) a) (slots h a))"

lemma handles_okD:
  assumes "handles_ok fresh holds h"
  shows "unshared (promises h)" "unshared (futures h)" "next_slot h \<le> a \<Longrightarrow> slots h a = None"
    "slot_ok fresh holds (pointed (promises h) a) (pointed (futures h) a) (slots h a)"
  using assms by (simp_all add: handles_ok_def)

lemma pointed_None:
  assumes "unshared m" "m v = Some a"
  shows "pointed (m(v := None)) b \<longleftrightarrow> pointed m b \<and> b \<noteq> a" and "unshared (m(v := None))"
proof -
  show "pointed (m(v := None)) b \<longleftrightarrow> pointed m b \<and> b \<noteq> a"
    using assms unfolding pointed_def unshared_def by (metis fun_upd_apply option.distinct(1) option.inject)
  show "unshared (m(v := None))" using assms by (simp add: unshared_def)
qed

lemma pointed_take: "pointed ((m(p := m q))(q := None)) a \<longleftrightarrow> pointed (m(p := None)) a"
  unfolding pointed_def by (metis fun_upd_apply option.distinct(1))

lemma unshared_take: "unshared (m(p := None)) \<Longrightarrow> unshared ((m(p := m q))(q := None))"
proof (cases "p = q")
  case False
  assume u: "unshared (m(p := None))"
  have eq: "v = w" if "v \<noteq> p" "w \<noteq> p" "m v = Some a" "m w = Some a" for v w a
    using u that unfolding unshared_def by (metis fun_upd_other)
  show ?thesis
    unfolding unshared_def
  proof (intro allI impI)
    fix v w a
    assume "((m(p := m q))(q := None)) v = Some a" "((m(p := m q))(q := None)) w = Some a"
    then show "v = w" using False eq [of q v a] eq [of q w a] eq [of v w a] by (auto split: if_splits)
  qed
qed simp

lemma pointed_new:
  assumes "m v = None" "\<not> pointed m a"
  shows "pointed (m(v := Some a)) b \<longleftrightarrow> pointed m b \<or> b = a" and "unshared m \<Longrightarrow> unshared (m(v := Some a))"
proof -
  show "pointed (m(v := Some a)) b \<longleftrightarrow> pointed m b \<or> b = a"
    using assms unfolding pointed_def by (metis fun_upd_apply option.distinct(1) option.inject)
  show "unshared m \<Longrightarrow> unshared (m(v := Some a))" using assms by (auto simp: unshared_def pointed_def)
qed

lemma take_promise_ok:
  assumes "handles_ok fresh holds (h\<lparr>promises := (promises h)(p := None)\<rparr>)"
  shows "handles_ok fresh holds (take_promise p q h)"
proof -
  have t: "take_promise p q h = h\<lparr>promises := ((promises h)(p := promises h q))(q := None)\<rparr>"
    by (simp add: take_promise_def Let_def)
  show ?thesis using assms unshared_take [of "promises h" p q] unfolding t handles_ok_def by (simp add: pointed_take)
qed

lemma take_future_ok:
  assumes "handles_ok fresh holds (h\<lparr>futures := (futures h)(f := None)\<rparr>)"
  shows "handles_ok fresh holds (take_future f g h)"
proof -
  have t: "take_future f g h = h\<lparr>futures := ((futures h)(f := futures h g))(g := None)\<rparr>"
    by (simp add: take_future_def Let_def)
  show ?thesis using assms unshared_take [of "futures h" f g] unfolding t handles_ok_def by (simp add: pointed_take)
qed

context one_shot_slot
begin

lemma promise_drop_ok:
  assumes ok: "handles_ok fresh holds h"
  shows "\<exists>h'. promise_drop (slot_ops s0 set_value set_exception is_completed wait_op get_op) p h = Inr h' \<and> promises h' = promises h \<and> futures h' = futures h \<and>
    handles_ok fresh holds (h'\<lparr>promises := (promises h)(p := None)\<rparr>)"
proof (cases "promises h p")
  case None
  then have "h\<lparr>promises := (promises h)(p := None)\<rparr> = h" by (simp add: fun_upd_idem)
  with None ok show ?thesis by (simp add: promise_drop_def)
next
  case (Some a)
  note D = handles_okD [OF ok]
  note pn = pointed_None [OF D(1) Some]
  have pt: "pointed (promises h) a" using Some by (auto simp: pointed_def)
  with D(4) [of a] obtain s n where s: "slots h a = Some (s, n)"
    and n: "n = 1 + of_bool (pointed (futures h) a)" and c: "fresh s \<or> (\<exists>r. holds s r)"
    by (auto simp: slot_ok_def split: option.splits)
  obtain r where r: "holds (promise_abandon set_exception is_completed s) r"
    using c drop_held abandon_held by metis
  let ?s = "promise_abandon set_exception is_completed s"
  let ?h = "if n = 1 then h\<lparr>slots := (slots h)(a := None)\<rparr> else put_slot a ?s (n - 1) h"
  have "promise_drop (slot_ops s0 set_value set_exception is_completed wait_op get_op) p h = Inr ?h"
    using Some s by (simp add: promise_drop_def on_slot_def slot_ops_def state_release_def put_slot_def)
  moreover have "handles_ok fresh holds (?h\<lparr>promises := (promises h)(p := None)\<rparr>)"
    unfolding handles_ok_def
  proof (intro conjI allI impI)
    fix b
    have "slots ?h b = (if b = a then if n = 1 then None else Some (?s, n - 1) else slots h b)"
      by (simp add: put_slot_def)
    moreover have "futures ?h = futures h" by (simp add: put_slot_def)
    ultimately show "slot_ok fresh holds (pointed (promises (?h\<lparr>promises := (promises h)(p := None)\<rparr>)) b)
        (pointed (futures (?h\<lparr>promises := (promises h)(p := None)\<rparr>)) b) (slots (?h\<lparr>promises := (promises h)(p := None)\<rparr>) b)"
      using D(4) [of b] r n by (cases "b = a") (auto simp: pn(1) slot_ok_def)
  next
    fix b assume "next_slot (?h\<lparr>promises := (promises h)(p := None)\<rparr>) \<le> b"
    then have "next_slot h \<le> b" by (simp add: put_slot_def split: if_splits)
    from D(3) [OF this] s show "slots (?h\<lparr>promises := (promises h)(p := None)\<rparr>) b = None"
      by (auto simp: put_slot_def)
  qed (use D(2) pn(2) in \<open>simp_all add: put_slot_def\<close>)
  ultimately show ?thesis by (intro exI [of _ ?h]) (simp add: put_slot_def)
qed

lemma future_release_ok:
  assumes ok: "handles_ok fresh holds h"
  shows "(\<exists>h'. future_release (slot_ops s0 set_value set_exception is_completed wait_op get_op) f h = Inr h' \<and> promises h' = promises h \<and>
      futures h' = (futures h)(f := None) \<and> handles_ok fresh holds h') \<or>
    future_release (slot_ops s0 set_value set_exception is_completed wait_op get_op) f h = Inl Blocks"
proof (cases "futures h f")
  case None
  then show ?thesis using ok by (simp add: future_release_def fun_upd_idem)
next
  case (Some a)
  note D = handles_okD [OF ok]
  note pn = pointed_None [OF D(2) Some]
  have pt: "pointed (futures h) a" using Some by (auto simp: pointed_def)
  with D(4) [of a] obtain s n where s: "slots h a = Some (s, n)"
    and n: "n = of_bool (pointed (promises h) a) + 1" and c: "fresh s \<or> (\<exists>r. holds s r)"
    by (auto simp: slot_ok_def split: option.splits)
  show ?thesis
  proof (cases "wait_op s")
    case None
    with Some s show ?thesis by (simp add: future_release_def on_slot_def slot_ops_def)
  next
    case w: (Some s')
    then obtain r where r: "holds s' r" using c fresh_blocks held_wait by force
    let ?h = "(if n = 1 then h\<lparr>slots := (slots h)(a := None)\<rparr> else put_slot a s' (n - 1) h)\<lparr>futures := (futures h)(f := None)\<rparr>"
    have "future_release (slot_ops s0 set_value set_exception is_completed wait_op get_op) f h = Inr ?h"
      using Some s w by (simp add: future_release_def on_slot_def slot_ops_def state_release_def put_slot_def)
    moreover have "handles_ok fresh holds ?h"
      unfolding handles_ok_def
    proof (intro conjI allI impI)
      fix b
      have "slots ?h b = (if b = a then if n = 1 then None else Some (s', n - 1) else slots h b)"
        by (simp add: put_slot_def)
      moreover have "promises ?h = promises h" by (simp add: put_slot_def)
      ultimately show "slot_ok fresh holds (pointed (promises ?h) b) (pointed (futures ?h) b) (slots ?h b)"
        using D(4) [of b] r n by (cases "b = a") (auto simp: pn(1) slot_ok_def)
    next
      fix b assume "next_slot ?h \<le> b"
      then have "next_slot h \<le> b" by (simp add: put_slot_def split: if_splits)
      from D(3) [OF this] s show "slots ?h b = None" by (auto simp: put_slot_def)
    qed (use D(1) pn(2) in \<open>simp_all add: put_slot_def\<close>)
    ultimately show ?thesis by (intro disjI1 exI [of _ ?h]) (simp add: put_slot_def)
  qed
qed

lemma put_slot_ok:
  assumes ok: "handles_ok fresh holds h" and s: "slots h a = Some (s, n)" and r: "holds s' r"
  shows "handles_ok fresh holds (put_slot a s' n h)"
proof -
  note D = handles_okD [OF ok]
  have "slot_ok fresh holds (pointed (promises h) b) (pointed (futures h) b) (slots (put_slot a s' n h) b)" for b
    using D(4) [of b] s r by (cases "b = a") (auto simp: put_slot_def slot_ok_def)
  moreover have "a < next_slot h" using D(3) [of a] s by (cases "a < next_slot h") auto
  ultimately show ?thesis using D(1-3) by (auto simp: handles_ok_def put_slot_def)
qed

lemma make_pair_ok:
  assumes ok: "handles_ok fresh holds h" and f0: "fresh s0" and v: "promises h p = None" "futures h f = None"
  shows "handles_ok fresh holds (make_pair (slot_ops s0 set_value set_exception is_completed wait_op get_op) p f h)"
    (is "handles_ok fresh holds ?h")
proof -
  note D = handles_okD [OF ok]
  have np: "\<not> pointed (promises h) (next_slot h)" "\<not> pointed (futures h) (next_slot h)"
    using D(4) [of "next_slot h"] D(3) [of "next_slot h"] by (simp_all add: slot_ok_def)
  note P = pointed_new [OF v(1) np(1)] and F = pointed_new [OF v(2) np(2)]
  have sel: "promises ?h = (promises h)(p := Some (next_slot h))" "futures ?h = (futures h)(f := Some (next_slot h))"
    "next_slot ?h = next_slot h + 1" "slots ?h = (slots h)(next_slot h := Some (s0, 2))"
    by (simp_all add: make_pair_def put_slot_def slot_ops_def)
  show ?thesis
    unfolding handles_ok_def sel
  proof (intro conjI allI impI)
    fix b
    show "slot_ok fresh holds (pointed ((promises h)(p := Some (next_slot h))) b)
        (pointed ((futures h)(f := Some (next_slot h))) b) (((slots h)(next_slot h := Some (s0, 2))) b)"
      using D(4) [of b] f0 unfolding P(1) F(1) by (cases "b = next_slot h") (simp_all add: slot_ok_def)
  qed (use P(2) [OF D(1)] F(2) [OF D(2)] D(3) in simp_all)
qed

lemma slot_present:
  assumes ok: "handles_ok fresh holds h" and a: "promises h v = Some a \<or> futures h v = Some a"
  obtains s n where "slots h a = Some (s, n)" "fresh s \<or> (\<exists>r. holds s r)"
proof -
  have "pointed (promises h) a \<or> pointed (futures h) a" using a by (auto simp: pointed_def)
  with handles_okD(4) [OF ok, of a] that show thesis by (auto simp: slot_ok_def split: option.splits)
qed

lemma handle_step_ok:
  assumes ok: "handles_ok fresh holds h" and f0: "fresh s0"
    and step: "handle_step (slot_ops s0 set_value set_exception is_completed wait_op get_op) h h'"
  shows "handles_ok fresh holds h'"
  using step
proof cases
  case (apply_op c)
  note drop = promise_drop_ok [OF ok, of s0] and release = future_release_ok [OF ok, of s0]
  show ?thesis
  proof (cases c)
    case (Make p f)
    then show ?thesis using apply_op make_pair_ok [OF ok f0] by auto
  next
    case (Promise_Move p q)
    then have "h\<lparr>promises := (promises h)(p := None)\<rparr> = h" using apply_op by (simp add: fun_upd_idem)
    with Promise_Move apply_op ok take_promise_ok [of fresh holds h p q] show ?thesis by simp
  next
    case (Promise_Assign p q)
    with drop [of p] apply_op show ?thesis by (fastforce intro: take_promise_ok)
  next
    case (Promise_Destroy p)
    with drop [of p] apply_op show ?thesis by fastforce
  next
    case (Promise_Run p work)
    then obtain a where a: "promises h p = Some a" using apply_op by (cases "promises h p") auto
    obtain s n where s: "slots h a = Some (s, n)" "fresh s \<or> (\<exists>r. holds s r)"
      using slot_present [OF ok] a by blast
    have "h' = put_slot a (promise_run set_value set_exception work s) n h" "\<not> is_completed s"
      using apply_op(2) Promise_Run a s(1) by (auto simp: on_slot_def slot_ops_def split: if_splits)
    moreover have "fresh s" using s(2) calculation(2) held_completed by blast
    ultimately show ?thesis using put_slot_ok [OF ok s(1) run_held] by blast
  next
    case (Future_Move f g)
    then have "h\<lparr>futures := (futures h)(f := None)\<rparr> = h" using apply_op by (simp add: fun_upd_idem)
    with Future_Move apply_op ok take_future_ok [of fresh holds h f g] show ?thesis by simp
  next
    case (Future_Assign f g)
    with release [of f] apply_op obtain h1 where h1: "h' = take_future f g h1" "futures h1 f = None"
      "handles_ok fresh holds h1" by auto
    then have "h1\<lparr>futures := (futures h1)(f := None)\<rparr> = h1" by (simp add: fun_upd_idem)
    with h1 show ?thesis by (simp add: take_future_ok)
  next
    case (Future_Destroy f)
    with release [of f] apply_op show ?thesis by fastforce
  next
    case (Future_Wait f)
    then obtain a where a: "futures h f = Some a" using apply_op by (cases "futures h f") auto
    obtain s n where s: "slots h a = Some (s, n)" "fresh s \<or> (\<exists>r. holds s r)"
      using slot_present [OF ok] a by blast
    obtain s' where s': "wait_op s = Some s'" "h' = put_slot a s' n h"
      using apply_op(2) Future_Wait a s(1) by (auto simp: on_slot_def slot_ops_def split: option.splits)
    with s(2) fresh_blocks held_wait obtain r where "holds s' r" by force
    with s' show ?thesis using put_slot_ok [OF ok s(1)] by blast
  next
    case (Future_Get f)
    then obtain a where a: "futures h f = Some a" using apply_op by (cases "futures h f") auto
    obtain s n where s: "slots h a = Some (s, n)" "fresh s \<or> (\<exists>r. holds s r)"
      using slot_present [OF ok] a by blast
    obtain r0 s' where s': "get_op s = Some (r0, s')" "h' = put_slot a s' n h"
      using apply_op(2) Future_Get a s(1) by (auto simp: on_slot_def slot_ops_def split: option.splits)
    with s(2) fresh_blocks held_get obtain r where "holds s' r" by force
    with s' show ?thesis using put_slot_ok [OF ok s(1)] by blast
  qed
qed

lemma handles_reach:
  assumes f0: "fresh s0"
    and r: "reach ((=) no_handles) (handle_step (slot_ops s0 set_value set_exception is_completed wait_op get_op)) h"
  shows "handles_ok fresh holds h"
  using r
proof (induction rule: reach.induct)
  case (start s)
  then have "s = no_handles" by simp
  then show ?case by (simp add: handles_ok_def no_handles_def unshared_def pointed_def slot_ok_def)
next
  case (move s s')
  then show ?case using handle_step_ok [OF _ f0] by blast
qed

lemma handles_never_dangle:
  assumes f0: "fresh s0"
    and r: "reach ((=) no_handles) (handle_step (slot_ops s0 set_value set_exception is_completed wait_op get_op)) h"
  shows "handle_apply (slot_ops s0 set_value set_exception is_completed wait_op get_op) h c \<noteq> Inl Dangling"
    and "slots h a \<noteq> None \<longleftrightarrow> pointed (promises h) a \<or> pointed (futures h) a"
    and "futures h f = Some a \<Longrightarrow> \<not> pointed (promises h) a \<Longrightarrow>
      handle_apply (slot_ops s0 set_value set_exception is_completed wait_op get_op) h (Future_Wait f) \<noteq> Inl Blocks"
proof -
  note ok = handles_reach [OF f0 r]
  note drop = promise_drop_ok [OF ok, of s0] and release = future_release_ok [OF ok, of s0]
  note D = handles_okD(4) [OF ok]
  show "handle_apply (slot_ops s0 set_value set_exception is_completed wait_op get_op) h c \<noteq> Inl Dangling"
  proof (cases c)
    case (Promise_Assign p q)
    with drop [of p] show ?thesis by auto
  next
    case (Promise_Destroy p)
    with drop [of p] show ?thesis by auto
  next
    case (Future_Assign f g)
    with release [of f] show ?thesis by auto
  next
    case (Future_Destroy f)
    with release [of f] show ?thesis by auto
  next
    case (Promise_Run p work)
    show ?thesis
    proof (cases "promises h p")
      case (Some b)
      then obtain s n where "slots h b = Some (s, n)" using slot_present [OF ok] by blast
      with Promise_Run Some show ?thesis by (simp add: on_slot_def)
    qed (simp add: Promise_Run)
  next
    case (Future_Wait f)
    show ?thesis
    proof (cases "futures h f")
      case (Some b)
      then obtain s n where "slots h b = Some (s, n)" using slot_present [OF ok] by blast
      with Future_Wait Some show ?thesis by (simp add: on_slot_def split: option.splits)
    qed (simp add: Future_Wait)
  next
    case (Future_Get f)
    show ?thesis
    proof (cases "futures h f")
      case (Some b)
      then obtain s n where "slots h b = Some (s, n)" using slot_present [OF ok] by blast
      with Future_Get Some show ?thesis by (simp add: on_slot_def split: option.splits)
    qed (simp add: Future_Get)
  qed simp_all
  show "slots h a \<noteq> None \<longleftrightarrow> pointed (promises h) a \<or> pointed (futures h) a"
    using D [of a] by (auto simp: slot_ok_def split: option.splits)
  assume f: "futures h f = Some a" "\<not> pointed (promises h) a"
  then have "pointed (futures h) a" by (auto simp: pointed_def)
  with D [of a] f(2) obtain s n r where s: "slots h a = Some (s, n)" "holds s r"
    by (auto simp: slot_ok_def split: option.splits)
  with held_wait obtain s' where "wait_op s = Some s'" by blast
  with f(1) s show "handle_apply (slot_ops s0 set_value set_exception is_completed wait_op get_op) h (Future_Wait f) \<noteq> Inl Blocks"
    by (simp add: on_slot_def slot_ops_def)
qed

end

lemma future_handles:
  assumes "reach ((=) no_handles) (handle_step (future_operations moved)) h"
  shows "handle_apply (future_operations moved) h c \<noteq> Inl Dangling \<and>
    (slots h a \<noteq> None \<longleftrightarrow> (\<exists>v. promises h v = Some a) \<or> (\<exists>v. futures h v = Some a)) \<and>
    (handle_apply (future_operations moved) h (Future_Wait f) = Inl Blocks \<longrightarrow>
      (\<exists>b v. futures h f = Some b \<and> promises h v = Some b))"
proof -
  have fresh: "future_fresh future_state_new" by (simp add: future_fresh_def)
  note safe = future_slot.handles_never_dangle [OF fresh assms [unfolded future_operations_def],
      folded future_operations_def, unfolded pointed_def]
  show ?thesis
  proof (cases "futures h f")
    case None
    then show ?thesis using safe(1,2) by simp
  next
    case (Some b)
    then show ?thesis using safe(1,2) safe(3) [OF Some] by blast
  qed
qed

lemma outcome_handles:
  assumes "reach ((=) no_handles) (outcome_step moved) h"
  shows "outcome_apply moved h c \<noteq> Inl Dangling \<and>
    (slots h a \<noteq> None \<longleftrightarrow> (\<exists>v. promises h v = Some a) \<or> (\<exists>v. futures h v = Some a)) \<and>
    (outcome_future_wait f h = Inl Blocks \<longrightarrow> (\<exists>b v. futures h f = Some b \<and> promises h v = Some b))"
proof -
  have fresh: "outcome_fresh outcome_state_new" by (simp add: outcome_fresh_def)
  note safe = outcome_slot.handles_never_dangle [OF fresh assms [unfolded outcome_step_eq outcome_operations_def],
      folded outcome_operations_def outcome_apply_eq, unfolded pointed_def]
  show ?thesis
  proof (cases "futures h f")
    case None
    then show ?thesis using safe(1,2) by (simp add: outcome_future_wait_def)
  next
    case (Some b)
    then show ?thesis using safe(1,2) safe(3) [OF Some] by auto
  qed
qed

section \<open>Theorems\<close>

definition future_dropped :: "(nat, nat) future_state handles" where
  "future_dropped = (case handle_apply (future_operations id) (make_pair (future_operations id) 0 0 no_handles) (Promise_Assign 0 0) of Inr h \<Rightarrow> h)"

lemma future_dropped: "reach ((=) no_handles) (handle_step (future_operations id)) future_dropped" "promises future_dropped = (\<lambda>_. None)"
proof -
  have "handle_step (future_operations id) no_handles (make_pair (future_operations id) 0 0 no_handles)"
    by (rule handle_step.apply_op [of _ "Make 0 0"]) (simp_all add: no_handles_def)
  then have r: "reach ((=) no_handles) (handle_step (future_operations id)) (make_pair (future_operations id) 0 0 no_handles)"
    by (blast intro: reach.intros)
  have a: "handle_apply (future_operations id) (make_pair (future_operations id) 0 0 no_handles) (Promise_Assign 0 0) = Inr future_dropped"
    and "promises future_dropped = (\<lambda>_. None)"
    by (simp_all add: future_dropped_def make_pair_def promise_drop_def on_slot_def put_slot_def state_release_def
        take_promise_def no_handles_def slot_ops_def future_operations_def fun_eq_iff)
  then show "promises future_dropped = (\<lambda>_. None)" by simp
  have "handle_step (future_operations id) (make_pair (future_operations id) 0 0 no_handles) future_dropped"
    by (rule handle_step.apply_op [OF _ a]) simp
  with r show "reach ((=) no_handles) (handle_step (future_operations id)) future_dropped" by (rule reach.move)
qed

definition outcome_dropped :: "(nat, nat) outcome_state handles" where
  "outcome_dropped = (case outcome_apply id (outcome_make 0 0 no_handles) (Promise_Assign 0 0) of Inr h \<Rightarrow> h)"

lemma outcome_dropped: "reach ((=) no_handles) (outcome_step id) outcome_dropped" "promises outcome_dropped = (\<lambda>_. None)"
proof -
  have "outcome_step id no_handles (outcome_make 0 0 no_handles)"
    by (rule outcome_step.apply_outcome_op [of _ "Make 0 0"]) (simp_all add: no_handles_def)
  then have r: "reach ((=) no_handles) (outcome_step id) (outcome_make 0 0 no_handles)"
    by (blast intro: reach.intros)
  have a: "outcome_apply id (outcome_make 0 0 no_handles) (Promise_Assign 0 0) = Inr outcome_dropped"
    and "promises outcome_dropped = (\<lambda>_. None)"
    by (simp_all add: outcome_dropped_def outcome_make_def outcome_promise_abandon_def on_slot_def put_slot_def state_release_def
        take_promise_def no_handles_def Let_def fun_eq_iff)
  then show "promises outcome_dropped = (\<lambda>_. None)" by simp
  have "outcome_step id (outcome_make 0 0 no_handles) outcome_dropped"
    by (rule outcome_step.apply_outcome_op [OF _ a]) simp
  with r show "reach ((=) no_handles) (outcome_step id) outcome_dropped" by (rule reach.move)
qed

text \<open>C12. Whatever is done with the handles of the promise/future pairs, of either header, moves, assignments
  onto a live handle and self-assignments included: no operation touches a deleted slot, a slot is
  allocated exactly while a handle points to it, and a future whose promise is gone does not block.\<close>

theorem handles_safe:
  assumes "reach ((=) no_handles) (handle_step (future_operations moved)) h"
    and "reach ((=) no_handles) (outcome_step moved_outcome) g"
  shows "handle_apply (future_operations moved) h c \<noteq> Inl Dangling \<and>
    (slots h a \<noteq> None \<longleftrightarrow> (\<exists>v. promises h v = Some a) \<or> (\<exists>v. futures h v = Some a)) \<and>
    (handle_apply (future_operations moved) h (Future_Wait f) = Inl Blocks \<longrightarrow>
      (\<exists>b v. futures h f = Some b \<and> promises h v = Some b)) \<and>
    outcome_apply moved_outcome g d \<noteq> Inl Dangling \<and>
    (slots g a \<noteq> None \<longleftrightarrow> (\<exists>v. promises g v = Some a) \<or> (\<exists>v. futures g v = Some a)) \<and>
    (outcome_future_wait f g = Inl Blocks \<longrightarrow> (\<exists>b v. futures g f = Some b \<and> promises g v = Some b))"
  using future_handles [OF assms(1), of c a f] outcome_handles [OF assms(2), of d a f] by simp

text \<open>The witness: a pair is made and its promise is assigned to itself.\<close>

theorem handles_safe_witness:
  "handle_apply (future_operations id) future_dropped (Future_Wait 0) \<noteq> Inl Blocks \<and>
   handle_apply (future_operations id) future_dropped (Promise_Assign 0 0) \<noteq> Inl Dangling \<and>
   outcome_future_wait 0 outcome_dropped \<noteq> Inl Blocks \<and>
   outcome_apply id outcome_dropped (Promise_Assign 0 0) \<noteq> Inl Dangling"
  using handles_safe [OF future_dropped(1) outcome_dropped(1), of "Promise_Assign 0 0" 0 0 "Promise_Assign 0 0"]
    future_dropped(2) outcome_dropped(2) by auto

end
