(* ===== verification/Mutex.thy ===== *)
theory Mutex
  imports Prelude
begin

text \<open>
  The mutexes of threading/mutex.hpp: the POSIX one (threading/posix/mutex.hpp) and the Windows one
  (threading/windows/mutex.hpp). Both forward to the operating system, whose mutex is a parameter here: a
  state, its four calls and, in the contract, the thread that holds it. The wrappers add the
  checks of return codes and the debug checks that a mutex which is copied or moved is not locked.
\<close>

section \<open>The operating system's mutex\<close>

text \<open>A call by a thread does not return yet, returns an error code, or succeeds with a new state.\<close>

datatype 'm reply = Blocks | Error | Success 'm

record 'm mutex_api =
  os_init :: 'm
  os_lock :: "tid \<Rightarrow> 'm \<Rightarrow> 'm reply"
  os_trylock :: "tid \<Rightarrow> 'm \<Rightarrow> 'm reply"
  os_unlock :: "tid \<Rightarrow> 'm \<Rightarrow> 'm reply"

text \<open>
  What is documented of it, with \<open>holder\<close> the thread that holds it: a lock of a free mutex succeeds, of one
  held by another thread it blocks; a try fails when the mutex is held, by whomever; the holder can
  unlock. Nothing is said of a second lock by the holder (an error or a deadlock, by the kind of
  mutex) nor of an unlock by another thread.
\<close>

definition mutex_contract :: "'m mutex_api \<Rightarrow> ('m \<Rightarrow> tid option) \<Rightarrow> bool" where
  "mutex_contract api holder \<longleftrightarrow>
     holder (os_init api) = None \<and>
     (\<forall>t m. holder m = None \<longrightarrow> (\<exists>m'. os_lock api t m = Success m' \<and> holder m' = Some t) \<and>
        (\<exists>m'. os_trylock api t m = Success m' \<and> holder m' = Some t)) \<and>
     (\<forall>t u m. holder m = Some u \<longrightarrow> (u \<noteq> t \<longrightarrow> os_lock api t m = Blocks) \<and> os_trylock api t m = Error) \<and>
     (\<forall>t m. holder m = Some t \<longrightarrow> (\<exists>m'. os_unlock api t m = Success m' \<and> holder m' = None))"

section \<open>The wrappers\<close>

text \<open>
  \<open>BOOST_VERIFY\<close> asserts on a return code in a debug build; otherwise the program goes on as if the
  call had succeeded.
\<close>

datatype 'm verified = Waiting | Assertion | Continues 'm

definition verify :: "bool \<Rightarrow> 'm \<Rightarrow> 'm reply \<Rightarrow> 'm verified" where
  "verify debug m r = (case r of Blocks \<Rightarrow> Waiting | Success m' \<Rightarrow> Continues m'
     | Error \<Rightarrow> if debug then Assertion else Continues m)"

definition posix_lock :: "bool \<Rightarrow> 'm mutex_api \<Rightarrow> tid \<Rightarrow> 'm \<Rightarrow> 'm verified" where
  "posix_lock debug api t m = verify debug m (os_lock api t m)"

definition posix_unlock :: "bool \<Rightarrow> 'm mutex_api \<Rightarrow> tid \<Rightarrow> 'm \<Rightarrow> 'm verified" where
  "posix_unlock debug api t m = verify debug m (os_unlock api t m)"

definition posix_try_lock :: "'m mutex_api \<Rightarrow> tid \<Rightarrow> 'm \<Rightarrow> bool \<times> 'm" where
  "posix_try_lock api t m = (case os_trylock api t m of Success m' \<Rightarrow> (True, m') | _ \<Rightarrow> (False, m))"

text \<open>\<open>is_locked\<close> is const and yet takes the mutex for a moment.\<close>

definition posix_is_locked :: "bool \<Rightarrow> 'm mutex_api \<Rightarrow> tid \<Rightarrow> 'm \<Rightarrow> bool \<times> 'm verified" where
  "posix_is_locked debug api t m =
     (case posix_try_lock api t m of
        (True, m') \<Rightarrow> (False, posix_unlock debug api t m')
      | (False, m') \<Rightarrow> (True, Continues m'))"

text \<open>
  The copy and move constructors start a fresh mutex. In a debug build the POSIX ones ask whether
  the mutex under construction is locked, not the other one.
\<close>

definition posix_copy :: "bool \<Rightarrow> 'm mutex_api \<Rightarrow> tid \<Rightarrow> 'm \<Rightarrow> 'm verified" where
  "posix_copy debug api t other =
     (if debug then
        (case posix_is_locked debug api t (os_init api) of (locked, r) \<Rightarrow> if locked then Assertion else r)
      else Continues (os_init api))"

definition posix_assign :: "bool \<Rightarrow> 'm mutex_api \<Rightarrow> tid \<Rightarrow> 'm \<Rightarrow> 'm \<Rightarrow> bool" where
  "posix_assign debug api t this other \<longleftrightarrow>
     \<not> debug \<or> \<not> fst (posix_is_locked debug api t this) \<and> \<not> fst (posix_is_locked debug api t other)"

text \<open>
  Windows: \<open>AcquireSRWLockExclusive\<close> and \<open>ReleaseSRWLockExclusive\<close> return nothing, and the copy looks at
  the other mutex's word (\<open>lock_.Ptr\<close>, null when nobody holds it).
\<close>

definition win32_lock :: "'m mutex_api \<Rightarrow> tid \<Rightarrow> 'm \<Rightarrow> 'm verified" where
  "win32_lock api t m = verify False m (os_lock api t m)"

definition win32_unlock :: "'m mutex_api \<Rightarrow> tid \<Rightarrow> 'm \<Rightarrow> 'm verified" where
  "win32_unlock api t m = verify False m (os_unlock api t m)"

definition win32_try_lock :: "'m mutex_api \<Rightarrow> tid \<Rightarrow> 'm \<Rightarrow> bool \<times> 'm" where
  "win32_try_lock api t m = (case os_trylock api t m of Success m' \<Rightarrow> (True, m') | _ \<Rightarrow> (False, m))"

definition win32_copy :: "bool \<Rightarrow> ('m \<Rightarrow> bool) \<Rightarrow> 'm mutex_api \<Rightarrow> 'm \<Rightarrow> 'm verified" where
  "win32_copy debug ptr_is_null api other =
     (if debug \<and> \<not> ptr_is_null other then Assertion else Continues (os_init api))"

section \<open>What the rest of the library relies on\<close>

locale lockable =
  fixes lock unlock :: "tid \<Rightarrow> 'm \<Rightarrow> 'm verified"
    and try_lock :: "tid \<Rightarrow> 'm \<Rightarrow> bool \<times> 'm"
    and holder :: "'m \<Rightarrow> tid option"
  assumes lock_free: "holder m = None \<Longrightarrow> \<exists>m'. lock t m = Continues m' \<and> holder m' = Some t"
    and lock_held: "holder m = Some u \<Longrightarrow> u \<noteq> t \<Longrightarrow> lock t m = Waiting"
    and try_free: "holder m = None \<Longrightarrow> \<exists>m'. try_lock t m = (True, m') \<and> holder m' = Some t"
    and try_held: "holder m = Some u \<Longrightarrow> try_lock t m = (False, m)"
    and unlock_mine: "holder m = Some t \<Longrightarrow> \<exists>m'. unlock t m = Continues m' \<and> holder m' = None"
begin

lemma lock_takes:
  assumes "holder m \<noteq> Some t" and "lock t m = Continues m'"
  shows "holder m = None \<and> holder m' = Some t"
proof (cases "holder m")
  case None
  then show ?thesis using lock_free [OF None, of t] assms(2) by auto
next
  case (Some u)
  then show ?thesis using lock_held [OF Some, of t] assms by auto
qed

lemma lock_never_asserts: "holder m \<noteq> Some t \<Longrightarrow> lock t m \<noteq> Assertion"
  using lock_free [of m t] lock_held [of m _ t] by (cases "holder m") auto

lemma unlock_frees: "holder m = Some t \<Longrightarrow> unlock t m = Continues m' \<Longrightarrow> holder m' = None"
  using unlock_mine [of m t] by auto

lemma unlock_never_waits: "holder m = Some t \<Longrightarrow> unlock t m \<noteq> Waiting \<and> unlock t m \<noteq> Assertion"
  using unlock_mine [of m t] by auto

lemma try_lock_iff: "fst (try_lock t m) \<longleftrightarrow> holder m = None"
  using try_free [of m t] try_held [of m _ t] by (cases "holder m") auto

text \<open>The probe that \<open>is_locked\<close> is made of.\<close>

lemma probe:
  "case try_lock t m of
     (True, m') \<Rightarrow> holder m = None \<and> (\<forall>u. \<not> fst (try_lock u m')) \<and> (\<exists>m''. unlock t m' = Continues m'' \<and> holder m'' = None)
   | (False, m') \<Rightarrow> holder m \<noteq> None \<and> m' = m"
proof (cases "holder m")
  case None
  then obtain m' where "try_lock t m = (True, m')" "holder m' = Some t" using try_free by blast
  with None show ?thesis using try_lock_iff [of _ m'] unlock_mine [of m' t] by simp
next
  case (Some u)
  then show ?thesis using try_held [OF Some, of t] by simp
qed

end

locale os_mutex =
  fixes api :: "'m mutex_api" and holder :: "'m \<Rightarrow> tid option"
  assumes contract: "mutex_contract api holder"
begin

lemma os_init_free: "holder (os_init api) = None"
  and os_lock_free: "holder m = None \<Longrightarrow> \<exists>m'. os_lock api t m = Success m' \<and> holder m' = Some t"
  and os_trylock_free: "holder m = None \<Longrightarrow> \<exists>m'. os_trylock api t m = Success m' \<and> holder m' = Some t"
  and os_lock_held: "holder m = Some u \<Longrightarrow> u \<noteq> t \<Longrightarrow> os_lock api t m = Blocks"
  and os_trylock_held: "holder m = Some u \<Longrightarrow> os_trylock api t m = Error"
  and os_unlock_mine: "holder m = Some t \<Longrightarrow> \<exists>m'. os_unlock api t m = Success m' \<and> holder m' = None"
  using contract unfolding mutex_contract_def by blast+

end

sublocale os_mutex \<subseteq> posix: lockable "posix_lock debug api" "posix_unlock debug api" "posix_try_lock api" holder
  for debug
proof unfold_locales
  show "\<exists>m'. posix_lock debug api t m = Continues m' \<and> holder m' = Some t" if "holder m = None" for m t
    using os_lock_free [OF that, of t] by (auto simp: posix_lock_def verify_def)
  show "posix_lock debug api t m = Waiting" if "holder m = Some u" "u \<noteq> t" for m u t
    using os_lock_held [OF that] by (simp add: posix_lock_def verify_def)
  show "\<exists>m'. posix_try_lock api t m = (True, m') \<and> holder m' = Some t" if "holder m = None" for m t
    using os_trylock_free [OF that, of t] by (auto simp: posix_try_lock_def)
  show "posix_try_lock api t m = (False, m)" if "holder m = Some u" for m u t
    using os_trylock_held [OF that, of t] by (simp add: posix_try_lock_def)
  show "\<exists>m'. posix_unlock debug api t m = Continues m' \<and> holder m' = None" if "holder m = Some t" for m t
    using os_unlock_mine [OF that] by (auto simp: posix_unlock_def verify_def)
qed

lemma win32_is_posix: "win32_lock = posix_lock False" "win32_unlock = posix_unlock False"
    "win32_try_lock = posix_try_lock"
  by (simp_all add: fun_eq_iff win32_lock_def posix_lock_def win32_unlock_def posix_unlock_def
      win32_try_lock_def posix_try_lock_def)

sublocale os_mutex \<subseteq> win32: lockable "win32_lock api" "win32_unlock api" "win32_try_lock api" holder
  by (simp add: win32_is_posix posix.lockable_axioms)

text \<open>Two documented kinds of mutex: one that reports misuse, as debug builds use, and one that blocks.\<close>

definition errorcheck_mutex :: "tid option mutex_api" where
  "errorcheck_mutex = \<lparr>os_init = None,
     os_lock = (\<lambda>t m. case m of None \<Rightarrow> Success (Some t) | Some u \<Rightarrow> if u = t then Error else Blocks),
     os_trylock = (\<lambda>t m. if m = None then Success (Some t) else Error),
     os_unlock = (\<lambda>t m. if m = Some t then Success None else Error)\<rparr>"

definition slim_mutex :: "tid option mutex_api" where
  "slim_mutex = \<lparr>os_init = None,
     os_lock = (\<lambda>t m. if m = None then Success (Some t) else Blocks),
     os_trylock = (\<lambda>t m. if m = None then Success (Some t) else Error),
     os_unlock = (\<lambda>t m. Success None)\<rparr>"

interpretation errorcheck: os_mutex errorcheck_mutex "\<lambda>m. m"
  by unfold_locales (simp add: mutex_contract_def errorcheck_mutex_def)

interpretation slim: os_mutex slim_mutex "\<lambda>m. m"
  by unfold_locales (simp add: mutex_contract_def slim_mutex_def)

context os_mutex begin

lemma is_locked:
  "(fst (posix_is_locked debug api t m) \<longleftrightarrow> holder m \<noteq> None) \<and>
   (\<exists>m'. snd (posix_is_locked debug api t m) = Continues m' \<and> holder m' = holder m)"
proof (cases "posix_try_lock api t m")
  case (Pair ok m')
  with posix.probe [where t = t and m = m and debug = debug] show ?thesis
    by (cases ok) (auto simp: posix_is_locked_def)
qed

lemma probe_shows: "posix_try_lock api t m = (True, m') \<Longrightarrow> holder m = None \<and> \<not> fst (posix_try_lock api u m')"
  using posix.probe [where t = t and m = m] by (auto split: prod.splits bool.splits)

lemma copy_passes: "\<exists>m'. posix_copy debug api t other = Continues m' \<and> holder m' = None"
  using is_locked [of debug t "os_init api"] by (auto simp: posix_copy_def os_init_free split: prod.splits)

end

section \<open>Threads that share a mutex\<close>

text \<open>The holder is the one thread at a place of the code where \<open>holding\<close> says that it holds the mutex.\<close>

definition mutex_owned :: "('m \<Rightarrow> tid option) \<Rightarrow> ('pc \<Rightarrow> bool) \<Rightarrow> nat \<Rightarrow> 'm \<Rightarrow> (tid \<Rightarrow> 'pc) \<Rightarrow> bool" where
  "mutex_owned holder holding n m f \<longleftrightarrow> (\<forall>t. holder m = Some t \<longleftrightarrow> t < n \<and> holding (f t))"

lemma mutex_owned_quiet:
  "mutex_owned holder holding n m f \<Longrightarrow> holding (f t) = holding p \<Longrightarrow> mutex_owned holder holding n m (f(t := p))"
  by (auto simp: mutex_owned_def)

lemma mutex_owned_unique:
  "mutex_owned holder holding n m f \<Longrightarrow> t < n \<Longrightarrow> holding (f t) \<Longrightarrow> u < n \<Longrightarrow> holding (f u) \<Longrightarrow> u = t"
  by (metis mutex_owned_def option.inject)

lemma mutex_owned_taken:
  assumes "mutex_owned holder holding n m f" and "t < n" "holding p" and "holder m = None" "holder m' = Some t"
  shows "mutex_owned holder holding n m' (f(t := p)) \<and> (\<forall>u<n. \<not> holding (f u))"
  using assms by (auto simp: mutex_owned_def)

lemma mutex_owned_left:
  assumes own: "mutex_owned holder holding n m f" and t: "t < n" "holding (f t)" "\<not> holding p" and "holder m' = None"
  shows "mutex_owned holder holding n m' (f(t := p)) \<and> (\<forall>u<n. \<not> holding ((f(t := p)) u))"
proof -
  have "\<not> holding ((f(t := p)) u)" if "u < n" for u
    using that t mutex_owned_unique [OF own t(1,2), of u] by auto
  then show ?thesis using assms(5) by (auto simp: mutex_owned_def)
qed

context os_mutex begin

lemma owned_lock:
  assumes own: "mutex_owned holder holding n m f" and t: "t < n" "\<not> holding (f t)" "holding p"
    and lock: "posix_lock debug api t m = Continues m'"
  shows "mutex_owned holder holding n m' (f(t := p)) \<and> (\<forall>u<n. \<not> holding (f u))"
proof -
  have "holder m \<noteq> Some t" using own t by (simp add: mutex_owned_def)
  from posix.lock_takes [OF this lock] show ?thesis by (intro mutex_owned_taken [OF own t(1,3)]) simp_all
qed

lemma owned_unlock:
  assumes own: "mutex_owned holder holding n m f" and t: "t < n" "holding (f t)" "\<not> holding p"
    and unlock: "posix_unlock debug api t m = Continues m'"
  shows "mutex_owned holder holding n m' (f(t := p)) \<and> (\<forall>u<n. \<not> holding ((f(t := p)) u))"
proof -
  have "holder m = Some t" using own t by (simp add: mutex_owned_def)
  from posix.unlock_frees [OF this unlock] show ?thesis by (rule mutex_owned_left [OF own t])
qed

end

section \<open>Theorems\<close>

text \<open>The debug checks of the POSIX mutex: \<open>is_locked\<close> tells whether somebody holds the mutex and leaves it as it
  was, but while it looks every \<open>try_lock\<close> of the free mutex fails; the assignment asserts exactly when one of
  the two is held; the copy and move constructors never assert, even for a mutex that is held, because they
  look at the new mutex, while those of Windows assert then.\<close>

theorem mutex_dormant_checks:
  assumes "mutex_contract api holder" and "\<And>m. ptr_is_null m \<longleftrightarrow> holder m = None"
  shows "(fst (posix_is_locked debug api t m) \<longleftrightarrow> holder m \<noteq> None) \<and>
    (\<exists>m'. snd (posix_is_locked debug api t m) = Continues m' \<and> holder m' = holder m) \<and>
    (\<forall>m'. posix_try_lock api t m = (True, m') \<longrightarrow> holder m = None \<and> \<not> fst (posix_try_lock api u m')) \<and>
    (posix_assign True api t this other \<longleftrightarrow> holder this = None \<and> holder other = None) \<and>
    (\<exists>m'. posix_copy debug api t other = Continues m' \<and> holder m' = None) \<and>
    (win32_copy True ptr_is_null api other = Assertion \<longleftrightarrow> holder other \<noteq> None)"
proof -
  have os: "os_mutex api holder" using assms(1) by (simp add: os_mutex_def)
  note locked = os_mutex.is_locked [OF os]
  show ?thesis
    using locked [where debug = debug and t = t and m = m] os_mutex.probe_shows [OF os, where t = t and m = m and u = u]
      locked [where debug = True and t = t and m = this] locked [where debug = True and t = t and m = other]
      os_mutex.copy_passes [OF os, where debug = debug and t = t and other = other]
    by (auto simp: posix_assign_def win32_copy_def assms(2))
qed

theorem mutex_dormant_checks_witness:
  "fst (posix_is_locked True errorcheck_mutex 1 (Some 2)) \<and>
   posix_copy True errorcheck_mutex 1 (Some 2) = Continues None"
proof -
  have "mutex_contract errorcheck_mutex (\<lambda>m. m)" by (rule errorcheck.contract)
  from mutex_dormant_checks [OF this, of "\<lambda>m. m = None" True 1 "Some 2" 3 None "Some 2"] show ?thesis by simp
qed

end
