(* ===== verification/Monitor.thy ===== *)
theory Monitor
  imports Barrier Mutex
begin

text \<open>
  The condition-variable barrier (threading/generic_barrier.cpp) call by call: the atomic counter, every lock
  and unlock of \<open>mutex_\<close>, the wait on and the notification of \<open>event_\<close> (threading/condvar.hpp over
  posix/condvar.hpp and windows/condvar.hpp), and the end of the barrier's life when the waiter's frame goes. The mutex
  is that of theory \<open>Mutex\<close>, over any operating system that keeps its contract. It refines the barrier of theory
  \<open>Barrier\<close>, whose critical sections are single steps.
\<close>

section \<open>The program\<close>

datatype mon_pc =
    A_Enter                         \<comment> \<open>\<open>arrive\<close>\<close>
  | A_Locking
  | A_Decrement
  | A_Notify
  | A_Unlock
  | A_Left
  | V_Locking                       \<comment> \<open>\<open>wait\<close>, also when it has been woken\<close>
  | V_Test
  | V_Sleep                         \<comment> \<open>about to call \<open>event_.wait\<close>\<close>
  | V_Asleep
  | V_Unlock
  | V_Poll "32 word" "32 word"      \<comment> \<open>\<open>spin_wait\<close>\<close>
  | V_Yield
  | V_Returned bool
  | V_Destroyed bool                \<comment> \<open>the frame of the barrier is gone\<close>

record ('m, 'hc) mon_sys =
  mon_barrier :: "'hc generic_barrier"
  mon_mutex :: 'm
  mon_pcs :: "tid \<Rightarrow> mon_pc"

text \<open>
  One call of thread \<open>t\<close>. \<open>None\<close>: the thread cannot move on its own. Waiting on the condition variable
  releases the mutex and suspends the thread at once.
\<close>

definition on_mutex :: "'m verified \<Rightarrow> 'b \<Rightarrow> mon_pc \<Rightarrow> ('b \<times> 'm \<times> mon_pc) option" where
  "on_mutex r b p = (case r of Continues m' \<Rightarrow> Some (b, m', p) | _ \<Rightarrow> None)"

fun mon_next :: "bool \<Rightarrow> 'm mutex_api \<Rightarrow> tid \<Rightarrow> 'h::len word generic_barrier \<Rightarrow> 'm \<Rightarrow> mon_pc
    \<Rightarrow> ('h word generic_barrier \<times> 'm \<times> mon_pc) option" where
  "mon_next debug api t b m A_Enter =
     (if g_spin_wait b then Some (b\<lparr>g_counter := snd (underflow_checked_dec (g_counter b))\<rparr>, m, A_Left)
      else Some (b, m, A_Locking))"
| "mon_next debug api t b m A_Locking = on_mutex (posix_lock debug api t m) b A_Decrement"
| "mon_next debug api t b m A_Decrement =
     Some (b\<lparr>g_counter := g_counter b - 1\<rparr>, m, if g_counter b = 1 then A_Notify else A_Unlock)"
| "mon_next debug api t b m A_Unlock = on_mutex (posix_unlock debug api t m) b A_Left"
| "mon_next debug api t b m V_Locking = on_mutex (posix_lock debug api t m) b V_Test"
| "mon_next debug api t b m V_Test = Some (b, m, if g_counter b \<noteq> 0 then V_Sleep else V_Unlock)"
| "mon_next debug api t b m V_Sleep = on_mutex (posix_unlock debug api t m) b V_Asleep"
| "mon_next debug api t b m V_Unlock = on_mutex (posix_unlock debug api t m) b (V_Returned True)"
| "mon_next debug api t b m (V_Poll nop_spin_count spin_tries) =
     (if spin_tries \<noteq> 0
      then let spin_tries' = spin_tries - 1
           in Some (b, m, if generic_everyone_arrived b
                          then V_Returned (nop_spin_count - spin_tries' < nop_spin_count div 8)
                          else V_Poll nop_spin_count spin_tries')
      else Some (b, m, V_Yield))"
| "mon_next debug api t b m V_Yield =
     Some (b, m, if generic_everyone_arrived b then V_Returned True else V_Yield)"
| "mon_next debug api t b m (V_Returned r) = Some (b, m, V_Destroyed r)"
| "mon_next debug api t b m _ = None"

text \<open>Thread 0 waits, the others arrive. A suspended thread may also wake up for no reason.\<close>

definition mon_init :: "'m mutex_api \<Rightarrow> nat \<Rightarrow> ('m, 'h::len word) mon_sys \<Rightarrow> bool" where
  "mon_init api n s \<longleftrightarrow> 0 < n \<and> n \<le> 2 ^ LENGTH('h) \<and> g_counter (mon_barrier s) = of_nat (n - 1) \<and>
     mon_mutex s = os_init api \<and> (\<forall>t. t \<noteq> 0 \<longrightarrow> mon_pcs s t = A_Enter) \<and>
     (if g_spin_wait (mon_barrier s) then \<exists>c. mon_pcs s 0 = V_Poll c c else mon_pcs s 0 = V_Locking)"

inductive mon_act :: "bool \<Rightarrow> 'm mutex_api \<Rightarrow> nat \<Rightarrow> ('m, 'h::len word) mon_sys \<Rightarrow> ('m, 'h word) mon_sys \<Rightarrow> bool"
  for debug api n where
  call: "t < n \<Longrightarrow> mon_next debug api t (mon_barrier s) (mon_mutex s) (mon_pcs s t) = Some (b, m, p) \<Longrightarrow>
    mon_act debug api n s (s\<lparr>mon_barrier := b, mon_mutex := m, mon_pcs := (mon_pcs s)(t := p)\<rparr>)"
| notify_one: "t < n \<Longrightarrow> mon_pcs s t = A_Notify \<Longrightarrow> mon_act debug api n s
    (s\<lparr>mon_pcs := (if mon_pcs s 0 = V_Asleep then (mon_pcs s)(0 := V_Locking) else mon_pcs s)(t := A_Unlock)\<rparr>)"

inductive mon_step :: "bool \<Rightarrow> 'm mutex_api \<Rightarrow> nat \<Rightarrow> ('m, 'h::len word) mon_sys \<Rightarrow> ('m, 'h word) mon_sys \<Rightarrow> bool"
  for debug api n where
  act: "mon_act debug api n s s' \<Longrightarrow> mon_step debug api n s s'"
| spurious: "mon_pcs s 0 = V_Asleep \<Longrightarrow> mon_step debug api n s (s\<lparr>mon_pcs := (mon_pcs s)(0 := V_Locking)\<rparr>)"

section \<open>The invariant\<close>

text \<open>Who holds the mutex, who has still to count down, and who will touch the barrier again.\<close>

definition mon_holding :: "mon_pc \<Rightarrow> bool" where
  "mon_holding p \<longleftrightarrow> p \<in> {A_Decrement, A_Notify, A_Unlock, V_Test, V_Sleep, V_Unlock}"

definition mon_arriving :: "mon_pc \<Rightarrow> nat" where
  "mon_arriving p = of_bool (p \<in> {A_Enter, A_Locking, A_Decrement})"

definition mon_touches :: "mon_pc \<Rightarrow> bool" where
  "mon_touches p \<longleftrightarrow> p \<noteq> A_Left \<and> (\<forall>r. p \<noteq> V_Returned r \<and> p \<noteq> V_Destroyed r)"

fun mon_arriver :: "bool \<Rightarrow> mon_pc \<Rightarrow> bool" where
  "mon_arriver spin A_Enter = True" | "mon_arriver spin A_Left = True"
| "mon_arriver spin A_Locking = (\<not> spin)" | "mon_arriver spin A_Decrement = (\<not> spin)"
| "mon_arriver spin A_Notify = (\<not> spin)" | "mon_arriver spin A_Unlock = (\<not> spin)"
| "mon_arriver spin _ = False"

text \<open>The waiter, with the counter and whether somebody is about to notify.\<close>

fun mon_waiter :: "bool \<Rightarrow> bool \<Rightarrow> bool \<Rightarrow> mon_pc \<Rightarrow> bool" where
  "mon_waiter spin zero notifying V_Locking = (\<not> spin)"
| "mon_waiter spin zero notifying V_Test = (\<not> spin)"
| "mon_waiter spin zero notifying V_Sleep = (\<not> spin \<and> \<not> zero)"
| "mon_waiter spin zero notifying V_Asleep = (\<not> spin \<and> (zero \<longrightarrow> notifying))"
| "mon_waiter spin zero notifying V_Unlock = (\<not> spin \<and> zero)"
| "mon_waiter spin zero notifying (V_Poll _ _) = spin"
| "mon_waiter spin zero notifying V_Yield = spin"
| "mon_waiter spin zero notifying (V_Returned _) = zero"
| "mon_waiter spin zero notifying (V_Destroyed _) = zero"
| "mon_waiter spin zero notifying _ = False"

definition mon_over :: "mon_pc \<Rightarrow> bool" where
  "mon_over p \<longleftrightarrow> p = V_Unlock \<or> (\<exists>r. p = V_Returned r \<or> p = V_Destroyed r)"

definition mon_notifying :: "nat \<Rightarrow> (tid \<Rightarrow> mon_pc) \<Rightarrow> bool" where
  "mon_notifying n p \<longleftrightarrow> (\<exists>t<n. p t = A_Notify)"

abbreviation mon_owned :: "('m \<Rightarrow> tid option) \<Rightarrow> nat \<Rightarrow> 'm \<Rightarrow> (tid \<Rightarrow> mon_pc) \<Rightarrow> bool" where
  "mon_owned holder \<equiv> mutex_owned holder mon_holding"

definition mon_inv :: "('m \<Rightarrow> tid option) \<Rightarrow> nat \<Rightarrow> ('m, 'h::len word) mon_sys \<Rightarrow> bool" where
  "mon_inv holder n s \<longleftrightarrow> 0 < n \<and>
     uint (g_counter (mon_barrier s)) = weight n mon_arriving (mon_pcs s) \<and>
     mon_owned holder n (mon_mutex s) (mon_pcs s) \<and>
     (\<forall>t. t \<noteq> 0 \<longrightarrow> mon_arriver (g_spin_wait (mon_barrier s)) (mon_pcs s t)) \<and>
     (mon_notifying n (mon_pcs s) \<longrightarrow> g_counter (mon_barrier s) = 0) \<and>
     mon_waiter (g_spin_wait (mon_barrier s)) (g_counter (mon_barrier s) = 0) (mon_notifying n (mon_pcs s)) (mon_pcs s 0) \<and>
     (mon_over (mon_pcs s 0) \<longrightarrow> (\<forall>t. 0 < t \<and> t < n \<longrightarrow> mon_pcs s t = A_Left))"

lemma mon_notifying_upd:
  "t < n \<Longrightarrow> mon_notifying n (f(t := p)) \<longleftrightarrow> p = A_Notify \<or> (\<exists>u<n. u \<noteq> t \<and> f u = A_Notify)"
  by (auto simp: mon_notifying_def)

lemma mon_notifying_quiet:
  "f t \<noteq> A_Notify \<Longrightarrow> p \<noteq> A_Notify \<Longrightarrow> mon_notifying n (f(t := p)) = mon_notifying n f"
  by (auto simp: mon_notifying_def)

lemmas mon_owned_quiet = mutex_owned_quiet [where holding = mon_holding]
lemmas mon_owned_unique = mutex_owned_unique [where holding = mon_holding]
lemmas mon_owned_def = mutex_owned_def [where holding = mon_holding]

context os_mutex begin

lemma mon_owned_lock:
  assumes own: "mon_owned holder n m f" and t: "t < n" "\<not> mon_holding (f t)" "mon_holding p"
    and lock: "on_mutex (posix_lock debug api t m) b p = Some (b', m', p')"
  shows "b' = b \<and> p' = p \<and> mon_owned holder n m' (f(t := p)) \<and> (\<forall>u<n. \<not> mon_holding (f u))"
  using lock owned_lock [OF own t, of debug m'] by (auto simp: on_mutex_def split: verified.splits)

lemma mon_owned_unlock:
  assumes own: "mon_owned holder n m f" and t: "t < n" "mon_holding (f t)" "\<not> mon_holding p"
    and unlock: "on_mutex (posix_unlock debug api t m) b p = Some (b', m', p')"
  shows "b' = b \<and> p' = p \<and> mon_owned holder n m' (f(t := p)) \<and> (\<forall>u<n. \<not> mon_holding ((f(t := p)) u))"
  using unlock owned_unlock [OF own t, of debug m'] by (auto simp: on_mutex_def split: verified.splits)

end

text \<open>
  A step of thread \<open>t\<close>: what is to be shown of the new state, by component.
\<close>

lemma mon_invI:
  assumes "mon_inv holder n s"
    and "uint (g_counter b) = weight n mon_arriving f" and "mon_owned holder n m f"
    and "g_spin_wait b = g_spin_wait (mon_barrier s)"
    and "\<And>u. u \<noteq> 0 \<Longrightarrow> mon_arriver (g_spin_wait b) (f u)"
    and "mon_notifying n f \<Longrightarrow> g_counter b = 0"
    and "mon_waiter (g_spin_wait b) (g_counter b = 0) (mon_notifying n f) (f 0)"
    and "\<And>u. mon_over (f 0) \<Longrightarrow> 0 < u \<Longrightarrow> u < n \<Longrightarrow> f u = A_Left"
  shows "mon_inv holder n (s\<lparr>mon_barrier := b, mon_mutex := m, mon_pcs := f\<rparr>)"
  using assms by (simp add: mon_inv_def)

lemma mon_invD:
  assumes "mon_inv holder n s"
  shows mon_inv_pos: "0 < n"
    and mon_inv_count: "uint (g_counter (mon_barrier s)) = weight n mon_arriving (mon_pcs s)"
    and mon_inv_owned: "mon_owned holder n (mon_mutex s) (mon_pcs s)"
    and mon_inv_arriver: "\<And>t. t \<noteq> 0 \<Longrightarrow> mon_arriver (g_spin_wait (mon_barrier s)) (mon_pcs s t)"
    and mon_inv_notifying: "mon_notifying n (mon_pcs s) \<Longrightarrow> g_counter (mon_barrier s) = 0"
    and mon_inv_waiter: "mon_waiter (g_spin_wait (mon_barrier s)) (g_counter (mon_barrier s) = 0)
      (mon_notifying n (mon_pcs s)) (mon_pcs s 0)"
    and mon_inv_over: "\<And>t. mon_over (mon_pcs s 0) \<Longrightarrow> 0 < t \<Longrightarrow> t < n \<Longrightarrow> mon_pcs s t = A_Left"
  using assms unfolding mon_inv_def by simp_all

lemma mon_inv_none_arriving:
  assumes "mon_inv holder n s" "t < n" "mon_arriving (mon_pcs s t) = 1"
  shows "0 < g_counter (mon_barrier s)"
  using mon_inv_count [OF assms(1)] weight_ge [OF assms(2), of mon_arriving "mon_pcs s"] assms(3)
  by (simp add: word_less_alt)

lemma mon_waiter_kept:
  "mon_waiter spin zero notifying p \<Longrightarrow> (zero \<Longrightarrow> zero') \<Longrightarrow> (zero' \<Longrightarrow> \<not> zero \<Longrightarrow> \<not> spin \<Longrightarrow> p \<noteq> V_Sleep \<and> notifying') \<Longrightarrow>
     (notifying \<Longrightarrow> notifying') \<Longrightarrow> mon_waiter spin zero' notifying' p"
  by (cases p) auto

lemma mon_not_over:
  assumes "mon_inv holder n s" "t \<noteq> 0" "t < n" "mon_pcs s t \<noteq> A_Left"
  shows "\<not> mon_over (mon_pcs s 0)"
  using mon_inv_over [OF assms(1), of t] assms(2-4) by auto

lemma mon_inv_count_down:
  fixes s :: "('m, 'h::len word) mon_sys"
  assumes inv: "mon_inv holder n s" and t: "t < n" "t \<noteq> 0" and p: "mon_pcs s t = A_Enter \<and> g_spin_wait (mon_barrier s) \<and> p = A_Left \<or>
      mon_pcs s t = A_Decrement \<and> p = (if g_counter (mon_barrier s) = 1 then A_Notify else A_Unlock)"
  shows "mon_inv holder n (s\<lparr>mon_barrier := (mon_barrier s)\<lparr>g_counter := g_counter (mon_barrier s) - 1\<rparr>,
     mon_mutex := mon_mutex s, mon_pcs := (mon_pcs s)(t := p)\<rparr>)"
proof (rule mon_invI [OF inv])
  let ?c = "g_counter (mon_barrier s)" and ?f = "mon_pcs s"
  have arr: "mon_arriving (?f t) = 1" "mon_arriving p = 0" using p by (auto simp: mon_arriving_def split: if_splits)
  then have pos: "0 < ?c" using mon_inv_none_arriving [OF inv t(1)] by simp
  note dec = uint_minus_1 [OF pos]
  show "uint (g_counter ((mon_barrier s)\<lparr>g_counter := ?c - 1\<rparr>)) = weight n mon_arriving (?f(t := p))"
    using mon_inv_count [OF inv] dec arr by (simp add: weight_upd [OF t(1)])
  show "mon_owned holder n (mon_mutex s) (?f(t := p))"
    by (rule mon_owned_quiet [OF mon_inv_owned [OF inv]]) (use p in \<open>auto simp: mon_holding_def split: if_splits\<close>)
  show "mon_arriver (g_spin_wait ((mon_barrier s)\<lparr>g_counter := ?c - 1\<rparr>)) ((?f(t := p)) u)" if "u \<noteq> 0" for u
    using mon_inv_arriver [OF inv that] mon_inv_arriver [OF inv t(2)] p by auto
  have quiet: "\<not> mon_notifying n ?f" using mon_inv_notifying [OF inv] pos by auto
  then have noti: "mon_notifying n (?f(t := p)) \<longleftrightarrow> p = A_Notify"
    using t(1) by (auto simp: mon_notifying_def)
  then show "mon_notifying n (?f(t := p)) \<Longrightarrow> g_counter ((mon_barrier s)\<lparr>g_counter := ?c - 1\<rparr>) = 0"
    using p by (auto split: if_splits)
  have awake: "?f 0 \<noteq> V_Sleep" if "\<not> g_spin_wait (mon_barrier s)"
    using that mon_owned_unique [OF mon_inv_owned [OF inv] t(1), of 0] mon_inv_pos [OF inv] t(2) p
    by (auto simp: mon_holding_def)
  have "mon_waiter (g_spin_wait (mon_barrier s)) (?c - 1 = 0) (mon_notifying n (?f(t := p))) (?f 0)"
  proof (rule mon_waiter_kept [OF mon_inv_waiter [OF inv]])
    show "?f 0 \<noteq> V_Sleep \<and> mon_notifying n (?f(t := p))"
      if "?c - 1 = 0" "?c \<noteq> 0" "\<not> g_spin_wait (mon_barrier s)"
      using that awake noti p by auto
  qed (use pos quiet in auto)
  then show "mon_waiter (g_spin_wait ((mon_barrier s)\<lparr>g_counter := ?c - 1\<rparr>))
      (g_counter ((mon_barrier s)\<lparr>g_counter := ?c - 1\<rparr>) = 0) (mon_notifying n (?f(t := p))) ((?f(t := p)) 0)"
    using t(2) by simp
  show "(?f(t := p)) u = A_Left" if "mon_over ((?f(t := p)) 0)" "0 < u" "u < n" for u
    using that mon_not_over [OF inv t(2,1)] p t(2) by auto
qed simp

lemma mon_inv_quiet_move:
  assumes inv: "mon_inv holder n s" and t: "t < n" "t \<noteq> 0"
    and own: "mon_owned holder n m ((mon_pcs s)(t := p))"
    and same: "mon_arriving p = mon_arriving (mon_pcs s t)" "p \<noteq> A_Notify" "mon_pcs s t \<noteq> A_Notify"
    and p: "mon_arriver (g_spin_wait (mon_barrier s)) p" "mon_pcs s t \<noteq> A_Left"
  shows "mon_inv holder n (s\<lparr>mon_barrier := mon_barrier s, mon_mutex := m, mon_pcs := (mon_pcs s)(t := p)\<rparr>)"
proof (rule mon_invI [OF inv _ own])
  have noti: "mon_notifying n ((mon_pcs s)(t := p)) = mon_notifying n (mon_pcs s)"
    by (rule mon_notifying_quiet) (use same in auto)
  show "uint (g_counter (mon_barrier s)) = weight n mon_arriving ((mon_pcs s)(t := p))"
    using mon_inv_count [OF inv] same by (simp add: weight_upd [OF t(1)])
  show "mon_arriver (g_spin_wait (mon_barrier s)) (((mon_pcs s)(t := p)) u)" if "u \<noteq> 0" for u
    using mon_inv_arriver [OF inv that] p by simp
  show "mon_notifying n ((mon_pcs s)(t := p)) \<Longrightarrow> g_counter (mon_barrier s) = 0"
    using mon_inv_notifying [OF inv] noti by simp
  show "mon_waiter (g_spin_wait (mon_barrier s)) (g_counter (mon_barrier s) = 0)
      (mon_notifying n ((mon_pcs s)(t := p))) (((mon_pcs s)(t := p)) 0)"
    using mon_inv_waiter [OF inv] t(2) noti by simp
  show "((mon_pcs s)(t := p)) u = A_Left" if "mon_over (((mon_pcs s)(t := p)) 0)" "0 < u" "u < n" for u
    using that mon_not_over [OF inv t(2,1) p(2)] t(2) by auto
qed simp

lemma mon_inv_waiter_move:
  assumes inv: "mon_inv holder n s"
    and own: "mon_owned holder n m ((mon_pcs s)(0 := p))" and quiet: "mon_arriving p = 0" "p \<noteq> A_Notify"
    and p: "mon_waiter (g_spin_wait (mon_barrier s)) (g_counter (mon_barrier s) = 0) (mon_notifying n (mon_pcs s)) p"
    and over: "\<And>u. mon_over p \<Longrightarrow> 0 < u \<Longrightarrow> u < n \<Longrightarrow> mon_pcs s u = A_Left"
  shows "mon_inv holder n (s\<lparr>mon_barrier := mon_barrier s, mon_mutex := m, mon_pcs := (mon_pcs s)(0 := p)\<rparr>)"
proof (rule mon_invI [OF inv _ own])
  have w0: "mon_arriving (mon_pcs s 0) = 0" "mon_pcs s 0 \<noteq> A_Notify"
    using mon_inv_waiter [OF inv] by (cases "mon_pcs s 0"; simp add: mon_arriving_def)+
  have noti: "mon_notifying n ((mon_pcs s)(0 := p)) = mon_notifying n (mon_pcs s)"
    by (rule mon_notifying_quiet) (use quiet w0 in auto)
  show "uint (g_counter (mon_barrier s)) = weight n mon_arriving ((mon_pcs s)(0 := p))"
    using mon_inv_count [OF inv] quiet w0 by (simp add: weight_upd [OF mon_inv_pos [OF inv]])
  show "mon_arriver (g_spin_wait (mon_barrier s)) (((mon_pcs s)(0 := p)) u)" if "u \<noteq> 0" for u
    using mon_inv_arriver [OF inv that] that by simp
  show "mon_notifying n ((mon_pcs s)(0 := p)) \<Longrightarrow> g_counter (mon_barrier s) = 0"
    using mon_inv_notifying [OF inv] noti by simp
  show "mon_waiter (g_spin_wait (mon_barrier s)) (g_counter (mon_barrier s) = 0)
      (mon_notifying n ((mon_pcs s)(0 := p))) (((mon_pcs s)(0 := p)) 0)"
    using p noti by simp
  show "((mon_pcs s)(0 := p)) u = A_Left" if "mon_over (((mon_pcs s)(0 := p)) 0)" "0 < u" "u < n" for u
    using that over by auto
qed simp

text \<open>When the count is zero and nobody else holds the mutex, everybody has left.\<close>

lemma mon_zero_left:
  assumes inv: "mon_inv holder n s" and zero: "g_counter (mon_barrier s) = 0"
    and free: "g_spin_wait (mon_barrier s) \<or> \<not> mon_holding (mon_pcs s u)" and u: "0 < u" "u < n"
  shows "mon_pcs s u = A_Left"
proof -
  have "mon_arriving (mon_pcs s u) \<noteq> 1" using mon_inv_none_arriving [OF inv u(2)] zero by auto
  then show ?thesis
    using mon_inv_arriver [OF inv, of u] u(1) free by (cases "mon_pcs s u") (auto simp: mon_arriving_def mon_holding_def)
qed

lemma mon_zero_left_holding:
  assumes inv: "mon_inv holder n s" and zero: "g_counter (mon_barrier s) = 0"
    and mine: "mon_holding (mon_pcs s 0)" and u: "0 < u" "u < n"
  shows "mon_pcs s u = A_Left"
  using mon_owned_unique [OF mon_inv_owned [OF inv] mon_inv_pos [OF inv] mine u(2)] u(1)
  by (intro mon_zero_left [OF inv zero _ u]) auto

context os_mutex begin

lemma mon_inv_arriver_call:
  assumes inv: "mon_inv holder n s" and t: "t < n" "t \<noteq> 0"
    and nx: "mon_next debug api t (mon_barrier s) (mon_mutex s) (mon_pcs s t) = Some (b, m, p)"
  shows "mon_inv holder n (s\<lparr>mon_barrier := b, mon_mutex := m, mon_pcs := (mon_pcs s)(t := p)\<rparr>)"
proof (cases "mon_pcs s t")
  case A_Enter
  show ?thesis
  proof (cases "g_spin_wait (mon_barrier s)")
    case True
    with nx A_Enter mon_inv_count_down [OF inv t, of p] show ?thesis by (auto simp: underflow_checked_dec_def)
  next
    case False
    with nx A_Enter have "b = mon_barrier s" "m = mon_mutex s" "p = A_Locking" by auto
    moreover have "mon_owned holder n (mon_mutex s) ((mon_pcs s)(t := A_Locking))"
      by (rule mon_owned_quiet [OF mon_inv_owned [OF inv]]) (simp add: A_Enter mon_holding_def)
    ultimately show ?thesis using False A_Enter mon_inv_quiet_move [OF inv t, of "mon_mutex s" A_Locking]
      by (simp add: mon_arriving_def)
  qed
next
  case A_Locking
  have "\<not> g_spin_wait (mon_barrier s)" using mon_inv_arriver [OF inv t(2)] A_Locking by simp
  moreover have "b = mon_barrier s \<and> p = A_Decrement \<and> mon_owned holder n m ((mon_pcs s)(t := A_Decrement))"
    using mon_owned_lock [OF mon_inv_owned [OF inv] t(1), of A_Decrement debug "mon_barrier s" b m p] nx A_Locking
    by (simp add: mon_holding_def)
  ultimately show ?thesis using A_Locking mon_inv_quiet_move [OF inv t, of m A_Decrement]
    by (simp add: mon_arriving_def)
next
  case A_Decrement
  with nx mon_inv_count_down [OF inv t, of p] show ?thesis by auto
next
  case A_Unlock
  have "b = mon_barrier s \<and> p = A_Left \<and> mon_owned holder n m ((mon_pcs s)(t := A_Left))"
    using mon_owned_unlock [OF mon_inv_owned [OF inv] t(1), of A_Left debug "mon_barrier s" b m p] nx A_Unlock
    by (simp add: mon_holding_def)
  then show ?thesis using A_Unlock mon_inv_quiet_move [OF inv t, of m A_Left]
    by (simp add: mon_arriving_def)
qed (use mon_inv_arriver [OF inv t(2)] nx in auto)

lemma mon_inv_waiter_call:
  assumes inv: "mon_inv holder n s"
    and nx: "mon_next debug api 0 (mon_barrier s) (mon_mutex s) (mon_pcs s 0) = Some (b, m, p)"
  shows "mon_inv holder n (s\<lparr>mon_barrier := b, mon_mutex := m, mon_pcs := (mon_pcs s)(0 := p)\<rparr>)"
proof -
  note own = mon_inv_owned [OF inv] and pos = mon_inv_pos [OF inv] and waiter = mon_inv_waiter [OF inv]
  have b: "b = mon_barrier s"
    using nx waiter by (cases "mon_pcs s 0") (auto simp: on_mutex_def Let_def split: verified.splits if_splits)
  have quiet: "mon_arriving p = 0" "p \<noteq> A_Notify"
    using nx waiter by (cases "mon_pcs s 0"; auto simp: on_mutex_def Let_def mon_arriving_def split: verified.splits if_splits)+
  have "mon_owned holder n m ((mon_pcs s)(0 := p))"
  proof (cases "mon_holding (mon_pcs s 0) = mon_holding p")
    case True
    moreover have "m = mon_mutex s"
      using nx waiter True by (cases "mon_pcs s 0") (auto simp: on_mutex_def Let_def mon_holding_def split: verified.splits if_splits)
    ultimately show ?thesis using mon_owned_quiet [OF own] by auto
  next
    case False
    then show ?thesis
      using nx waiter mon_owned_lock [OF own pos, of V_Test debug "mon_barrier s" b m p]
        mon_owned_unlock [OF own pos, of V_Asleep debug "mon_barrier s" b m p]
        mon_owned_unlock [OF own pos, of "V_Returned True" debug "mon_barrier s" b m p]
      by (cases "mon_pcs s 0") (auto simp: Let_def mon_holding_def split: if_splits)
  qed
  moreover have "mon_waiter (g_spin_wait (mon_barrier s)) (g_counter (mon_barrier s) = 0) (mon_notifying n (mon_pcs s)) p"
    using nx waiter
    by (cases "mon_pcs s 0") (auto simp: on_mutex_def Let_def generic_everyone_arrived_def split: verified.splits if_splits)
  moreover have "mon_pcs s u = A_Left" if over: "mon_over p" and u: "0 < u" "u < n" for u
  proof (cases "mon_over (mon_pcs s 0)")
    case True
    then show ?thesis using mon_inv_over [OF inv] u by simp
  next
    case False
    then have "g_counter (mon_barrier s) = 0 \<and> (mon_holding (mon_pcs s 0) \<or> g_spin_wait (mon_barrier s))"
      using nx waiter over
      by (cases "mon_pcs s 0")
        (auto simp: on_mutex_def Let_def mon_over_def mon_holding_def generic_everyone_arrived_def split: verified.splits if_splits)
    then show ?thesis using mon_zero_left_holding [OF inv _ _ u] mon_zero_left [OF inv _ _ u] by auto
  qed
  ultimately show ?thesis unfolding b by (intro mon_inv_waiter_move [OF inv _ quiet])
qed

end

lemma mon_inv_awaken:
  assumes inv: "mon_inv holder n s" and asleep: "mon_pcs s 0 = V_Asleep"
  shows "mon_inv holder n (s\<lparr>mon_pcs := (mon_pcs s)(0 := V_Locking)\<rparr>)"
proof -
  have "mon_inv holder n
      (s\<lparr>mon_barrier := mon_barrier s, mon_mutex := mon_mutex s, mon_pcs := (mon_pcs s)(0 := V_Locking)\<rparr>)"
    using mon_inv_waiter [OF inv] asleep
    by (intro mon_inv_waiter_move [OF inv] mon_owned_quiet [OF mon_inv_owned [OF inv]])
      (simp_all add: mon_arriving_def mon_holding_def mon_over_def)
  then show ?thesis by simp
qed

lemma mon_inv_notified:
  assumes inv: "mon_inv holder n s" and t: "t < n" "mon_pcs s t = A_Notify" and awake: "mon_pcs s 0 \<noteq> V_Asleep"
  shows "mon_inv holder n (s\<lparr>mon_pcs := (mon_pcs s)(t := A_Unlock)\<rparr>)"
proof -
  have t0: "t \<noteq> 0" using mon_inv_waiter [OF inv] t(2) by (cases t) auto
  have zero: "g_counter (mon_barrier s) = 0" by (rule mon_inv_notifying [OF inv]) (use t in \<open>auto simp: mon_notifying_def\<close>)
  have "mon_inv holder n
      (s\<lparr>mon_barrier := mon_barrier s, mon_mutex := mon_mutex s, mon_pcs := (mon_pcs s)(t := A_Unlock)\<rparr>)"
  proof (rule mon_invI [OF inv])
    show "uint (g_counter (mon_barrier s)) = weight n mon_arriving ((mon_pcs s)(t := A_Unlock))"
      using mon_inv_count [OF inv] t by (simp add: weight_upd mon_arriving_def)
    show "mon_owned holder n (mon_mutex s) ((mon_pcs s)(t := A_Unlock))"
      by (rule mon_owned_quiet [OF mon_inv_owned [OF inv]]) (simp add: t mon_holding_def)
    show "mon_arriver (g_spin_wait (mon_barrier s)) (((mon_pcs s)(t := A_Unlock)) u)" if "u \<noteq> 0" for u
      using mon_inv_arriver [OF inv that] mon_inv_arriver [OF inv t0] t(2) by simp
    show "mon_waiter (g_spin_wait (mon_barrier s)) (g_counter (mon_barrier s) = 0)
        (mon_notifying n ((mon_pcs s)(t := A_Unlock))) (((mon_pcs s)(t := A_Unlock)) 0)"
      using mon_inv_waiter [OF inv] awake t0 by (cases "mon_pcs s 0") simp_all
    show "((mon_pcs s)(t := A_Unlock)) u = A_Left" if "mon_over (((mon_pcs s)(t := A_Unlock)) 0)" "0 < u" "u < n" for u
      using that mon_not_over [OF inv t0 t(1)] t(2) t0 by auto
  qed (simp_all add: zero)
  then show ?thesis by simp
qed

lemma mon_init_inv:
  fixes s :: "('m, 'h::len word) mon_sys"
  assumes "mon_init api n s" and "holder (os_init api) = None"
  shows "mon_inv holder n s"
proof -
  have n: "0 < n" "n - 1 < 2 ^ LENGTH('h)" using assms(1) by (auto simp: mon_init_def)
  then have "{..<n} = insert 0 {1..<n}" by auto
  moreover have "mon_arriving (mon_pcs s 0) = 0"
    using assms(1) by (auto simp: mon_init_def mon_arriving_def split: if_splits)
  moreover have "(\<Sum>t\<in>{1..<n}. mon_arriving (mon_pcs s t)) = (\<Sum>t\<in>{1..<n}. 1)"
    using assms(1) by (intro sum.cong) (auto simp: mon_init_def mon_arriving_def)
  ultimately have "weight n mon_arriving (mon_pcs s) = int (n - 1)"
    by (simp add: weight_def total_weight_def)
  moreover have "unat (g_counter (mon_barrier s)) = n - 1"
    using assms(1) unat_of_nat_small [OF n(2)] by (simp add: mon_init_def)
  ultimately have "uint (g_counter (mon_barrier s)) = weight n mon_arriving (mon_pcs s)" by (simp add: uint_nat)
  moreover have "\<not> mon_holding (mon_pcs s t)" for t
    using assms(1) by (cases "t = 0") (auto simp: mon_init_def mon_holding_def split: if_splits)
  then have "mon_owned holder n (mon_mutex s) (mon_pcs s)"
    using assms by (simp add: mon_owned_def mon_init_def)
  moreover have "mon_pcs s t \<noteq> A_Notify" for t
    using assms(1) by (cases "t = 0") (auto simp: mon_init_def split: if_splits)
  then have "\<not> mon_notifying n (mon_pcs s)" by (simp add: mon_notifying_def)
  moreover have "\<not> mon_over (mon_pcs s 0)"
    using assms(1) by (auto simp: mon_over_def mon_init_def split: if_splits)
  moreover have "mon_waiter (g_spin_wait (mon_barrier s)) zero False (mon_pcs s 0)" for zero
    using assms(1) by (auto simp: mon_init_def split: if_splits)
  ultimately show ?thesis using assms(1) n(1) by (simp add: mon_inv_def mon_init_def)
qed

sublocale os_mutex \<subseteq> mon: invariant_system "mon_init api n" "mon_step debug api n" "mon_inv holder n"
  for debug n
proof unfold_locales
  show "mon_inv holder n s" if "mon_init api n s" for s
    using that by (rule mon_init_inv) (rule os_init_free)
  show "mon_inv holder n s'" if inv: "mon_inv holder n s" and step: "mon_step debug api n s s'"
    for s s'
    using step
  proof cases
    case act
    then show ?thesis
    proof cases
      case (call t b m p)
      then show ?thesis
        using mon_inv_arriver_call [OF inv call(2)] mon_inv_waiter_call [OF inv] by (cases "t = 0") auto
    next
      case (notify_one t)
      have t0: "t \<noteq> 0" using mon_inv_waiter [OF inv] notify_one(3) by (cases t) auto
      let ?s = "if mon_pcs s 0 = V_Asleep then s\<lparr>mon_pcs := (mon_pcs s)(0 := V_Locking)\<rparr> else s"
      have "mon_inv holder n ?s" using inv mon_inv_awaken [OF inv] by simp
      moreover have "mon_pcs ?s t = A_Notify" "mon_pcs ?s 0 \<noteq> V_Asleep" using notify_one t0 by auto
      ultimately have "mon_inv holder n (?s\<lparr>mon_pcs := (mon_pcs ?s)(t := A_Unlock)\<rparr>)"
        using mon_inv_notified notify_one(2) by blast
      then show ?thesis by (simp add: notify_one(1) split: if_splits)
    qed
  next
    case spurious
    then show ?thesis using mon_inv_awaken [OF inv] by simp
  qed
qed

section \<open>Refinement\<close>

text \<open>
  Where the barrier with atomic critical sections is meanwhile. An arriver has arrived when it has
  counted down; a waiter that has been suspended and is about to be notified is awake already.
\<close>

fun mon_view :: "bool \<Rightarrow> mon_pc \<Rightarrow> gbar_pc" where
  "mon_view notifying A_Enter = G_Arrive" | "mon_view notifying A_Locking = G_Arrive"
| "mon_view notifying A_Decrement = G_Arrive"
| "mon_view notifying A_Notify = G_Arrived" | "mon_view notifying A_Unlock = G_Arrived"
| "mon_view notifying A_Left = G_Arrived"
| "mon_view notifying V_Locking = G_Lock" | "mon_view notifying V_Test = G_Lock"
| "mon_view notifying V_Sleep = G_Asleep"
| "mon_view notifying V_Asleep = (if notifying then G_Lock else G_Asleep)"
| "mon_view notifying V_Unlock = G_Returned True"
| "mon_view notifying (V_Poll c i) = G_Poll c i" | "mon_view notifying V_Yield = G_Yield"
| "mon_view notifying (V_Returned r) = G_Returned r" | "mon_view notifying (V_Destroyed r) = G_Returned r"

definition mon_abs :: "nat \<Rightarrow> ('m, 'h::len word) mon_sys \<Rightarrow> 'h word gbar_sys" where
  "mon_abs n s = \<lparr>gbar = mon_barrier s, gpc = (\<lambda>t. mon_view (mon_notifying n (mon_pcs s)) (mon_pcs s t))\<rparr>"

lemma mon_view_notifying: "p \<noteq> V_Asleep \<Longrightarrow> mon_view notifying p = mon_view notifying' p"
  by (cases p) auto

lemma mon_asleep_waiter: "mon_inv holder n s \<Longrightarrow> mon_pcs s t = V_Asleep \<Longrightarrow> t = 0"
  using mon_inv_arriver [of holder n s t] by (cases "t = 0") auto

lemma mon_stutter:
  assumes "mon_notifying n ((mon_pcs s)(t := p)) = mon_notifying n (mon_pcs s)"
    and "mon_view (mon_notifying n (mon_pcs s)) p = mon_view (mon_notifying n (mon_pcs s)) (mon_pcs s t)"
  shows "mon_abs n (s\<lparr>mon_barrier := mon_barrier s, mon_mutex := m, mon_pcs := (mon_pcs s)(t := p)\<rparr>) = mon_abs n s"
  using assms by (simp add: mon_abs_def fun_eq_iff)

lemma mon_follow:
  assumes "t < n" and "mon_notifying n ((mon_pcs s)(t := p)) = mon_notifying n (mon_pcs s)"
    and "gbar_next (mon_barrier s) (mon_view (mon_notifying n (mon_pcs s)) (mon_pcs s t)) =
      Some (b, mon_view (mon_notifying n (mon_pcs s)) p, False)"
  shows "gbar_step n (mon_abs n s) (mon_abs n (s\<lparr>mon_barrier := b, mon_mutex := m, mon_pcs := (mon_pcs s)(t := p)\<rparr>))"
proof -
  let ?nt = "mon_notifying n (mon_pcs s)"
  have "gbar_step n (mon_abs n s)
      ((mon_abs n s)\<lparr>gbar := b, gpc := gbar_notify False ((gpc (mon_abs n s))(t := mon_view ?nt p))\<rparr>)"
    using assms(3) by (intro gbar_step.act [OF assms(1)]) (simp add: mon_abs_def)
  moreover have "(\<lambda>u. mon_view ?nt (((mon_pcs s)(t := p)) u)) = (\<lambda>u. mon_view ?nt (mon_pcs s u))(t := mon_view ?nt p)"
    by (simp add: fun_eq_iff)
  ultimately show ?thesis using assms(2) by (simp add: mon_abs_def gbar_notify_def)
qed

text \<open>The last arriver counts down: the notification it is about to make counts as made.\<close>

lemma mon_follow_last:
  assumes inv: "mon_inv holder n s" and t: "t < n" "mon_pcs s t = A_Decrement" and last: "g_counter (mon_barrier s) = 1"
  shows "gbar_step n (mon_abs n s) (mon_abs n (s\<lparr>mon_barrier := (mon_barrier s)\<lparr>g_counter := 0\<rparr>,
     mon_mutex := mon_mutex s, mon_pcs := (mon_pcs s)(t := A_Notify)\<rparr>))"
proof -
  let ?f = "mon_pcs s" and ?b = "(mon_barrier s)\<lparr>g_counter := 0\<rparr>"
  have t0: "t \<noteq> 0" using mon_inv_waiter [OF inv] t(2) by (cases t) auto
  have "\<not> mon_notifying n ?f" using mon_inv_notifying [OF inv] last by auto
  have nt: "mon_notifying n ?f = False" "mon_notifying n (?f(t := A_Notify)) = True"
    using mon_inv_notifying [OF inv] last t(1) by (auto simp: mon_notifying_def)
  have spin: "\<not> g_spin_wait (mon_barrier s)" using mon_inv_arriver [OF inv t0] t(2) by simp
  have awake: "?f 0 \<noteq> V_Sleep"
    using mon_owned_unique [OF mon_inv_owned [OF inv] t(1), of 0] mon_inv_pos [OF inv] t t0
    by (auto simp: mon_holding_def)
  have same: "mon_view True ((?f(t := A_Notify)) u) = gbar_notify True ((\<lambda>u. mon_view False (?f u))(t := G_Arrived)) u" for u
  proof (cases "u = 0")
    case True
    then show ?thesis using t0 awake mon_inv_waiter [OF inv] by (cases "?f 0") (auto simp: gbar_notify_def)
  next
    case False
    then have "?f u \<noteq> V_Asleep" using mon_asleep_waiter [OF inv, of u] by auto
    then show ?thesis using False mon_view_notifying [of "?f u" True False] by (simp add: gbar_notify_def)
  qed
  have "gbar_step n (mon_abs n s)
      ((mon_abs n s)\<lparr>gbar := ?b, gpc := gbar_notify True ((gpc (mon_abs n s))(t := G_Arrived))\<rparr>)"
    using t last spin by (intro gbar_step.act) (simp_all add: mon_abs_def)
  moreover have "mon_abs n (s\<lparr>mon_barrier := ?b, mon_mutex := mon_mutex s, mon_pcs := ?f(t := A_Notify)\<rparr>) =
      (mon_abs n s)\<lparr>gbar := ?b, gpc := gbar_notify True ((gpc (mon_abs n s))(t := G_Arrived))\<rparr>"
    by (simp add: mon_abs_def nt same del: fun_upd_apply)
  ultimately show ?thesis by (simp only:)
qed

lemma mon_refines_call:
  assumes inv: "mon_inv holder n s" and t: "t < n"
    and nx: "mon_next debug api t (mon_barrier s) (mon_mutex s) (mon_pcs s t) = Some (b, m, p)"
  defines "s' \<equiv> s\<lparr>mon_barrier := b, mon_mutex := m, mon_pcs := (mon_pcs s)(t := p)\<rparr>"
  shows "gbar_step n (mon_abs n s) (mon_abs n s') \<or> mon_abs n s' = mon_abs n s"
proof (cases "mon_pcs s t = A_Decrement \<and> g_counter (mon_barrier s) = 1")
  case True
  with nx mon_follow_last [OF inv t] show ?thesis by (auto simp: s'_def)
next
  case False
  have p: "p \<noteq> A_Notify" "mon_pcs s t \<noteq> A_Notify"
    using nx False by (cases "mon_pcs s t"; auto simp: on_mutex_def Let_def split: verified.splits if_splits)+
  note nt = mon_notifying_quiet [where f = "mon_pcs s" and t = t and p = p and n = n, OF p(2,1)]
  have sleep: "\<not> mon_notifying n (mon_pcs s)" if "mon_pcs s t = V_Sleep"
  proof -
    have "t = 0" using mon_inv_arriver [OF inv, of t] that by (cases "t = 0") auto
    then show ?thesis using mon_inv_waiter [OF inv] that mon_inv_notifying [OF inv] by auto
  qed
  have "mon_view (mon_notifying n (mon_pcs s)) p = mon_view (mon_notifying n (mon_pcs s)) (mon_pcs s t) \<and> b = mon_barrier s \<or>
      gbar_next (mon_barrier s) (mon_view (mon_notifying n (mon_pcs s)) (mon_pcs s t)) =
        Some (b, mon_view (mon_notifying n (mon_pcs s)) p, False)"
    using nx False sleep mon_inv_arriver [OF inv, of t] mon_inv_waiter [OF inv]
    by (cases "t = 0"; cases "mon_pcs s t")
      (auto simp: on_mutex_def Let_def split: verified.splits if_splits)
  then show ?thesis
    using mon_stutter [OF nt, of m] mon_follow [OF t nt, of b m] by (auto simp: s'_def)
qed

lemma mon_refines_notify:
  assumes inv: "mon_inv holder n s" and t: "t < n" "mon_pcs s t = A_Notify"
  shows "mon_abs n (s\<lparr>mon_pcs := (if mon_pcs s 0 = V_Asleep then (mon_pcs s)(0 := V_Locking) else mon_pcs s)(t := A_Unlock)\<rparr>)
    = mon_abs n s"
proof -
  let ?f = "(if mon_pcs s 0 = V_Asleep then (mon_pcs s)(0 := V_Locking) else mon_pcs s)(t := A_Unlock)"
  have t0: "t \<noteq> 0" using mon_inv_waiter [OF inv] t(2) by (cases t) auto
  have nt: "mon_notifying n (mon_pcs s)" using t by (auto simp: mon_notifying_def)
  have "mon_view k (?f u) = mon_view True (mon_pcs s u)" for u k
  proof (cases "mon_pcs s u = V_Asleep")
    case True
    then have "u = 0" by (rule mon_asleep_waiter [OF inv])
    with True t0 show ?thesis by simp
  next
    case False
    then show ?thesis using t t0 mon_view_notifying [OF False, of k True] by auto
  qed
  then show ?thesis using nt by (simp add: mon_abs_def)
qed

lemma mon_refines_spurious:
  assumes inv: "mon_inv holder n s" and asleep: "mon_pcs s 0 = V_Asleep"
  defines "s' \<equiv> s\<lparr>mon_pcs := (mon_pcs s)(0 := V_Locking)\<rparr>"
  shows "gbar_step n (mon_abs n s) (mon_abs n s') \<or> mon_abs n s' = mon_abs n s"
proof -
  have nt: "mon_notifying n ((mon_pcs s)(0 := V_Locking)) = mon_notifying n (mon_pcs s)"
    by (rule mon_notifying_quiet) (simp_all add: asleep)
  have v: "mon_abs n s' = (mon_abs n s)\<lparr>gpc := (gpc (mon_abs n s))(0 := G_Lock)\<rparr>"
    by (simp add: s'_def mon_abs_def nt fun_eq_iff)
  show ?thesis
  proof (cases "mon_notifying n (mon_pcs s)")
    case True
    then have "gpc (mon_abs n s) 0 = G_Lock" using asleep by (simp add: mon_abs_def)
    then have "(gpc (mon_abs n s))(0 := G_Lock) = gpc (mon_abs n s)" by (simp add: fun_upd_idem)
    then show ?thesis by (simp add: v)
  next
    case False
    then have "gpc (mon_abs n s) 0 = G_Asleep" using asleep by (simp add: mon_abs_def)
    from gbar_step.spurious [OF mon_inv_pos [OF inv] this] show ?thesis by (simp add: v)
  qed
qed

lemma mon_init_abs: "mon_init api n s \<Longrightarrow> gbar_init n (mon_abs n s)"
  by (auto simp: mon_init_def gbar_init_def mon_abs_def split: if_splits)

sublocale os_mutex \<subseteq> mon_barrier: refinement "mon_init api n" "mon_step debug api n" "mon_inv holder n"
    "gbar_init n" "gbar_step n" "mon_abs n"
  for debug n
proof unfold_locales
  show "gbar_step n (mon_abs n s) (mon_abs n s') \<or> mon_abs n s' = mon_abs n s"
    if inv: "mon_inv holder n s" and step: "mon_step debug api n s s'" for s s'
    using step
  proof cases
    case act
    then show ?thesis using mon_refines_call [OF inv] mon_refines_notify [OF inv] by cases simp_all
  qed (use mon_refines_spurious [OF inv] in simp)
qed (rule mon_init_abs)

context os_mutex begin

lemmas mon_reach_inv = mon.inv_reach
lemmas mon_reach_abs = mon_barrier.reach_abs
lemmas mon_step_abs = mon_barrier.step_abs

end

section \<open>Completion\<close>

text \<open>
  The work left: every state that is not the end has a step that lowers it. A notification
  pays for the second round of the waiter.
\<close>

fun mon_left :: "mon_pc \<Rightarrow> nat" where
  "mon_left A_Enter = 8" | "mon_left A_Locking = 7" | "mon_left A_Decrement = 6" | "mon_left A_Notify = 5"
| "mon_left A_Unlock = 1" | "mon_left A_Left = 0"
| "mon_left V_Locking = 6" | "mon_left V_Test = 5" | "mon_left V_Sleep = 4" | "mon_left V_Asleep = 3"
| "mon_left V_Unlock = 2" | "mon_left (V_Poll _ _) = 3" | "mon_left V_Yield = 2"
| "mon_left (V_Returned _) = 1" | "mon_left (V_Destroyed _) = 0"

definition mon_finished :: "nat \<Rightarrow> ('m, 'h::len word) mon_sys \<Rightarrow> bool" where
  "mon_finished n s \<longleftrightarrow> (\<exists>r. mon_pcs s 0 = V_Destroyed r) \<and> (\<forall>t. 0 < t \<and> t < n \<longrightarrow> mon_pcs s t = A_Left)"

lemma mon_call_lowers:
  assumes "t < n" and "mon_next debug api t (mon_barrier s) (mon_mutex s) (mon_pcs s t) = Some (b, m, p)"
    and "mon_left p < mon_left (mon_pcs s t)"
  shows "\<exists>s'. mon_act debug api n s s' \<and> total_weight n mon_left (mon_pcs s') < total_weight n mon_left (mon_pcs s)"
proof (intro exI conjI)
  show "mon_act debug api n s (s\<lparr>mon_barrier := b, mon_mutex := m, mon_pcs := (mon_pcs s)(t := p)\<rparr>)"
    using assms(1,2) by (rule mon_act.call)
  show "total_weight n mon_left (mon_pcs (s\<lparr>mon_barrier := b, mon_mutex := m, mon_pcs := (mon_pcs s)(t := p)\<rparr>))
      < total_weight n mon_left (mon_pcs s)"
    using total_weight_upd [OF assms(1), of mon_left "mon_pcs s" p] assms(3) by simp
qed

lemma mon_notify_lowers:
  assumes inv: "mon_inv holder n s" and t: "t < n" "mon_pcs s t = A_Notify"
  shows "\<exists>s'. mon_act debug api n s s' \<and> total_weight n mon_left (mon_pcs s') < total_weight n mon_left (mon_pcs s)"
proof -
  let ?g = "if mon_pcs s 0 = V_Asleep then (mon_pcs s)(0 := V_Locking) else mon_pcs s"
  have t0: "t \<noteq> 0" using mon_inv_waiter [OF inv] t(2) by (cases t) auto
  have "total_weight n mon_left ?g \<le> total_weight n mon_left (mon_pcs s) + 3"
    using total_weight_upd [OF mon_inv_pos [OF inv], of mon_left "mon_pcs s" V_Locking]
    by (cases "mon_pcs s 0 = V_Asleep") simp_all
  moreover have "total_weight n mon_left (?g(t := A_Unlock)) + 5 = total_weight n mon_left ?g + 1"
    using total_weight_upd [OF t(1), of mon_left ?g A_Unlock] t(2) t0
    by (cases "mon_pcs s 0 = V_Asleep") simp_all
  ultimately have "total_weight n mon_left (?g(t := A_Unlock)) < total_weight n mon_left (mon_pcs s)" by linarith
  then show ?thesis using mon_act.notify_one [OF t, of debug api] by auto
qed

context os_mutex begin

lemma mon_holder_moves:
  assumes inv: "mon_inv holder n s" and h: "holder (mon_mutex s) = Some t"
  shows "\<exists>s'. mon_act debug api n s s' \<and> total_weight n mon_left (mon_pcs s') < total_weight n mon_left (mon_pcs s)"
proof -
  have t: "t < n" "mon_holding (mon_pcs s t)" using mon_inv_owned [OF inv] h unfolding mon_owned_def by blast+
  obtain m' where u: "posix_unlock debug api t (mon_mutex s) = Continues m'" using posix.unlock_mine [OF h] by blast
  consider (notify) "mon_pcs s t = A_Notify"
    | (call) b m p where "mon_next debug api t (mon_barrier s) (mon_mutex s) (mon_pcs s t) = Some (b, m, p)"
        "mon_left p < mon_left (mon_pcs s t)"
    using t(2) that u by (cases "mon_pcs s t") (auto simp: mon_holding_def on_mutex_def)
  then show ?thesis
  proof cases
    case notify
    then show ?thesis by (rule mon_notify_lowers [OF inv t(1)])
  next
    case call
    then show ?thesis by (rule mon_call_lowers [OF t(1)])
  qed
qed

lemma mon_free_arriver_moves:
  assumes inv: "mon_inv holder n s" and free: "holder (mon_mutex s) = None" and t: "0 < t" "t < n" "mon_pcs s t \<noteq> A_Left"
  shows "\<exists>s'. mon_act debug api n s s' \<and> total_weight n mon_left (mon_pcs s') < total_weight n mon_left (mon_pcs s)"
proof -
  have "\<not> mon_holding (mon_pcs s t)" using mon_inv_owned [OF inv] free t(2) by (auto simp: mon_owned_def)
  then have p: "mon_pcs s t = A_Enter \<or> mon_pcs s t = A_Locking"
    using mon_inv_arriver [OF inv, of t] t by (cases "mon_pcs s t") (auto simp: mon_holding_def)
  obtain m' where l: "posix_lock debug api t (mon_mutex s) = Continues m'" using posix.lock_free [OF free] by blast
  obtain b m q where "mon_next debug api t (mon_barrier s) (mon_mutex s) (mon_pcs s t) = Some (b, m, q)"
      "mon_left q < mon_left (mon_pcs s t)"
    using p l by (cases "g_spin_wait (mon_barrier s)") (auto simp: on_mutex_def)
  then show ?thesis by (rule mon_call_lowers [OF t(2)])
qed

lemma mon_free_waiter_moves:
  assumes inv: "mon_inv holder n s" and free: "holder (mon_mutex s) = None"
    and gone: "\<And>t. 0 < t \<Longrightarrow> t < n \<Longrightarrow> mon_pcs s t = A_Left" and here: "\<And>r. mon_pcs s 0 \<noteq> V_Destroyed r"
  shows "\<exists>s'. mon_act debug api n s s' \<and> total_weight n mon_left (mon_pcs s') < total_weight n mon_left (mon_pcs s)"
proof -
  note pos = mon_inv_pos [OF inv]
  have w: "\<not> mon_holding (mon_pcs s 0)" using mon_inv_owned [OF inv] free pos by (auto simp: mon_owned_def)
  have "mon_arriving (mon_pcs s t) = 0 \<and> mon_pcs s t \<noteq> A_Notify" if "t < n" for t
    using that gone [of t] mon_inv_waiter [OF inv]
    by (cases "t = 0"; cases "mon_pcs s 0") (auto simp: mon_arriving_def)
  then have "weight n mon_arriving (mon_pcs s) = 0" and quiet: "\<not> mon_notifying n (mon_pcs s)"
    by (auto simp: weight_zero mon_notifying_def)
  then have zero: "g_counter (mon_barrier s) = 0" using mon_inv_count [OF inv] by (simp add: uint_0_iff)
  obtain m' where l: "posix_lock debug api 0 (mon_mutex s) = Continues m'" using posix.lock_free [OF free] by blast
  have "\<exists>b m q. mon_next debug api 0 (mon_barrier s) (mon_mutex s) (mon_pcs s 0) = Some (b, m, q) \<and>
      mon_left q < mon_left (mon_pcs s 0)"
  proof (cases "mon_pcs s 0")
    case (V_Poll c i)
    then show ?thesis using zero by (cases "i = 0") (auto simp: Let_def generic_everyone_arrived_def)
  qed (use mon_inv_waiter [OF inv] w zero quiet here l in \<open>auto simp: on_mutex_def mon_holding_def generic_everyone_arrived_def\<close>)
  then obtain b m q where "mon_next debug api 0 (mon_barrier s) (mon_mutex s) (mon_pcs s 0) = Some (b, m, q)"
      "mon_left q < mon_left (mon_pcs s 0)" by blast
  then show ?thesis by (rule mon_call_lowers [OF pos])
qed

lemma mon_progress:
  assumes inv: "mon_inv holder n s" and more: "\<not> mon_finished n s"
  shows "\<exists>s'. mon_act debug api n s s' \<and> total_weight n mon_left (mon_pcs s') < total_weight n mon_left (mon_pcs s)"
proof (cases "holder (mon_mutex s)")
  case None
  show ?thesis
  proof (cases "\<exists>t. 0 < t \<and> t < n \<and> mon_pcs s t \<noteq> A_Left")
    case True
    then show ?thesis using mon_free_arriver_moves [OF inv None] by blast
  next
    case False
    then show ?thesis using more by (intro mon_free_waiter_moves [OF inv None]) (auto simp: mon_finished_def)
  qed
qed (rule mon_holder_moves [OF inv])

lemma mon_completes:
  "mon_inv holder n s \<Longrightarrow> \<exists>s'. (mon_act debug api n)\<^sup>*\<^sup>* s s' \<and> mon_finished n s'"
proof (induction "total_weight n mon_left (mon_pcs s)" arbitrary: s rule: less_induct)
  case less
  show ?case
  proof (cases "mon_finished n s")
    case False
    then obtain s1 where s1: "mon_act debug api n s s1" "total_weight n mon_left (mon_pcs s1) < total_weight n mon_left (mon_pcs s)"
      using mon_progress [OF less.prems, of debug] by blast
    then have "mon_inv holder n s1" by (intro mon.inv_step [OF less.prems] mon_step.act)
    from less.hyps [OF s1(2) this] show ?thesis by (meson s1(1) converse_rtranclp_into_rtranclp)
  qed blast
qed

lemma mon_calls_verified:
  assumes inv: "mon_inv holder n s" and t: "t < n"
  shows "mon_pcs s t \<in> {A_Locking, V_Locking} \<Longrightarrow> posix_lock debug api t (mon_mutex s) \<noteq> Assertion"
    and "mon_pcs s t \<in> {A_Unlock, V_Sleep, V_Unlock} \<Longrightarrow> \<exists>m'. posix_unlock debug api t (mon_mutex s) = Continues m'"
proof -
  have own: "holder (mon_mutex s) = Some t \<longleftrightarrow> mon_holding (mon_pcs s t)"
    using mon_inv_owned [OF inv] t by (simp add: mon_owned_def)
  show "mon_pcs s t \<in> {A_Locking, V_Locking} \<Longrightarrow> posix_lock debug api t (mon_mutex s) \<noteq> Assertion"
    using own by (intro posix.lock_never_asserts) (auto simp: mon_holding_def)
  show "mon_pcs s t \<in> {A_Unlock, V_Sleep, V_Unlock} \<Longrightarrow> \<exists>m'. posix_unlock debug api t (mon_mutex s) = Continues m'"
    using own posix.unlock_mine [of "mon_mutex s" t debug] by (auto simp: mon_holding_def)
qed

end

text \<open>A run of two threads: the waiter takes the mutex, finds the count at one and goes to sleep.\<close>

definition mon_demo :: "tid option \<Rightarrow> mon_pc \<Rightarrow> (tid option, 8 word) mon_sys" where
  "mon_demo m waiter = \<lparr>mon_barrier = \<lparr>g_counter = 1, g_spin_wait = False\<rparr>, mon_mutex = m,
     mon_pcs = (\<lambda>_. A_Enter)(0 := waiter)\<rparr>"

lemma mon_demo_call:
  assumes "mon_next True errorcheck_mutex 0 \<lparr>g_counter = (1 :: 8 word), g_spin_wait = False\<rparr> m p =
      Some (\<lparr>g_counter = 1, g_spin_wait = False\<rparr>, m', p')"
  shows "mon_step True errorcheck_mutex 2 (mon_demo m p) (mon_demo m' p')"
proof -
  have "mon_demo m' p' = (mon_demo m p)\<lparr>mon_barrier := \<lparr>g_counter = 1, g_spin_wait = False\<rparr>, mon_mutex := m',
      mon_pcs := (mon_pcs (mon_demo m p))(0 := p')\<rparr>"
    by (simp add: mon_demo_def)
  moreover have "mon_act True errorcheck_mutex 2 (mon_demo m p) \<dots>"
    by (rule mon_act.call) (simp_all add: mon_demo_def assms)
  ultimately show ?thesis by (simp add: mon_step.act)
qed

lemma mon_demo_reach: "reach (mon_init errorcheck_mutex 2) (mon_step True errorcheck_mutex 2) (mon_demo None V_Asleep)"
proof -
  have "reach (mon_init errorcheck_mutex 2) (mon_step True errorcheck_mutex 2) (mon_demo None V_Locking)"
    by (rule reach.start) (simp add: mon_init_def mon_demo_def errorcheck_mutex_def)
  moreover have "mon_step True errorcheck_mutex 2 (mon_demo None V_Locking) (mon_demo (Some 0) V_Test)"
    "mon_step True errorcheck_mutex 2 (mon_demo (Some 0) V_Test) (mon_demo (Some 0) V_Sleep)"
    "mon_step True errorcheck_mutex 2 (mon_demo (Some 0) V_Sleep) (mon_demo None V_Asleep)"
    by (rule mon_demo_call; simp add: on_mutex_def posix_lock_def posix_unlock_def verify_def errorcheck_mutex_def)+
  ultimately show ?thesis by (blast intro: reach.move)
qed

section \<open>Theorems\<close>

text \<open>C21. The condition-variable barrier, call by call over any mutex that keeps its contract, refines the barrier with
  atomic critical sections: every call is a step of it or is not seen there. At most one thread is
  ever between a lock and the unlock, and once the waiter is about to return, nobody will touch the barrier again, the
  mutex is free and the count is zero, so that the waiter may destroy it. The notification is made with the mutex held,
  as the source says it must be.\<close>

theorem generic_barrier_monitor:
  assumes "mutex_contract api holder" and "reach (mon_init api n) (mon_step debug api n) s"
  shows "reach (gbar_init n) (gbar_step n) (mon_abs n s) \<and>
    (mon_step debug api n s s' \<longrightarrow> gbar_step n (mon_abs n s) (mon_abs n s') \<or> mon_abs n s' = mon_abs n s) \<and>
    (t < n \<and> u < n \<and> mon_holding (mon_pcs s t) \<and> mon_holding (mon_pcs s u) \<longrightarrow> t = u) \<and>
    (mon_pcs s 0 = V_Returned r \<or> mon_pcs s 0 = V_Destroyed r \<longrightarrow>
      (\<forall>v<n. \<not> mon_touches (mon_pcs s v)) \<and> holder (mon_mutex s) = None \<and> g_counter (mon_barrier s) = 0)"
proof -
  have os: "os_mutex api holder" using assms(1) by (simp add: os_mutex_def)
  note inv = os_mutex.mon_reach_inv [OF os assms(2)]
  have over: "\<not> mon_touches (mon_pcs s v) \<and> holder (mon_mutex s) \<noteq> Some v"
    if "mon_pcs s 0 = V_Returned r \<or> mon_pcs s 0 = V_Destroyed r" "v < n" for v
  proof -
    have "holder (mon_mutex s) = Some v \<longleftrightarrow> mon_holding (mon_pcs s v)"
      using mon_inv_owned [OF inv] that(2) by (simp add: mon_owned_def)
    moreover have "mon_pcs s v = mon_pcs s 0 \<or> mon_pcs s v = A_Left"
      using that mon_inv_over [OF inv, of v] by (cases "v = 0") (auto simp: mon_over_def)
    ultimately show ?thesis using that(1) by (auto simp: mon_touches_def mon_holding_def)
  qed
  have "holder (mon_mutex s) = None" if "mon_pcs s 0 = V_Returned r \<or> mon_pcs s 0 = V_Destroyed r"
  proof (cases "holder (mon_mutex s)")
    case (Some v)
    then have "v < n" using mon_inv_owned [OF inv] unfolding mon_owned_def by blast
    then show ?thesis using over [OF that] Some by blast
  qed
  moreover have "g_counter (mon_barrier s) = 0" if "mon_pcs s 0 = V_Returned r \<or> mon_pcs s 0 = V_Destroyed r"
    using that mon_inv_waiter [OF inv] by auto
  ultimately show ?thesis
  proof (intro conjI impI)
    show "reach (gbar_init n) (gbar_step n) (mon_abs n s)" by (rule os_mutex.mon_reach_abs [OF os assms(2)])
    show "gbar_step n (mon_abs n s) (mon_abs n s') \<or> mon_abs n s' = mon_abs n s" if "mon_step debug api n s s'"
      by (rule os_mutex.mon_step_abs [OF os assms(2) that])
    show "t = u" if "t < n \<and> u < n \<and> mon_holding (mon_pcs s t) \<and> mon_holding (mon_pcs s u)"
      using mon_owned_unique [OF mon_inv_owned [OF inv], of u t] that by simp
  qed (use over in simp_all)
qed

theorem generic_barrier_monitor_witness:
  "reach (gbar_init 2) (gbar_step 2) (mon_abs 2 (mon_demo None V_Asleep)) \<and>
   gpc (mon_abs 2 (mon_demo None V_Asleep)) 0 = G_Asleep"
proof -
  have "\<not> mon_notifying 2 (mon_pcs (mon_demo None V_Asleep))"
    by (auto simp: mon_notifying_def mon_demo_def split: if_splits)
  then have "gpc (mon_abs 2 (mon_demo None V_Asleep)) 0 = G_Asleep" by (simp add: mon_abs_def mon_demo_def)
  then show ?thesis using generic_barrier_monitor [OF errorcheck.contract mon_demo_reach] by blast
qed

text \<open>C22. The condition-variable barrier completes: from every state it can reach, calls alone, without any spurious
  wake-up, can bring every arriver out of \<open>arrive\<close> and the waiter out of its frame; nobody is stuck asleep or at the
  mutex. No lock and no unlock on the way fails its check.\<close>

theorem generic_barrier_completes:
  assumes "mutex_contract api holder" and "reach (mon_init api n) (mon_step debug api n) s"
  shows "(\<exists>s'. (mon_act debug api n)\<^sup>*\<^sup>* s s' \<and> mon_finished n s') \<and>
    (t < n \<and> mon_pcs s t \<in> {A_Locking, V_Locking} \<longrightarrow> posix_lock debug api t (mon_mutex s) \<noteq> Assertion) \<and>
    (t < n \<and> mon_pcs s t \<in> {A_Unlock, V_Sleep, V_Unlock} \<longrightarrow> (\<exists>m'. posix_unlock debug api t (mon_mutex s) = Continues m'))"
proof -
  have os: "os_mutex api holder" using assms(1) by (simp add: os_mutex_def)
  note inv = os_mutex.mon_reach_inv [OF os assms(2)]
  show ?thesis
    using os_mutex.mon_completes [OF os inv] os_mutex.mon_calls_verified [OF os inv] by blast
qed

theorem generic_barrier_completes_witness:
  "\<exists>s'. (mon_act True errorcheck_mutex 2)\<^sup>*\<^sup>* (mon_demo None V_Asleep) s' \<and> mon_finished 2 s'"
  using generic_barrier_completes [OF errorcheck.contract mon_demo_reach] by blast

end
