(* ===== verification/RwGuards.thy ===== *)
theory RwGuards
  imports RwBackends Mutex
begin

text \<open>
  Both sides of the POSIX reader-writer mutex (threading/posix/rw_mutex.hpp) over the operating system's lock,
  which is a parameter, and the guards of threading/rw_mutex.hpp at work on it: \<open>ro_lock\<close> and
  \<open>rw_lock\<close> objects of any number of threads, in any interleaving of their operations.
\<close>

section \<open>The operating system's reader-writer lock\<close>

record 'm rw_api =
  rw_init :: "rwlock_kind \<Rightarrow> 'm"
  rw_rdlock :: "tid \<Rightarrow> 'm \<Rightarrow> 'm reply"
  rw_wrlock :: "tid \<Rightarrow> 'm \<Rightarrow> 'm reply"
  rw_tryrdlock :: "tid \<Rightarrow> 'm \<Rightarrow> 'm reply"
  rw_trywrlock :: "tid \<Rightarrow> 'm \<Rightarrow> 'm reply"
  rw_unlock :: "tid \<Rightarrow> 'm \<Rightarrow> 'm reply"

text \<open>
  The documentation, with the read holds of each thread and the writer as abstraction. When a call
  succeeds the lock was free for it; one may block or, for a misuse that is detected, return an error. A try for
  writing succeeds when nobody holds the lock, and a thread can always give up a hold it has.
\<close>

definition took_read :: "('m \<Rightarrow> tid \<Rightarrow> nat) \<Rightarrow> ('m \<Rightarrow> tid option) \<Rightarrow> tid \<Rightarrow> 'm \<Rightarrow> 'm \<Rightarrow> bool" where
  "took_read readers writer t m m' \<longleftrightarrow> writer m = None \<and> writer m' = None \<and> readers m' = (readers m)(t := readers m t + 1)"

definition took_write :: "('m \<Rightarrow> tid \<Rightarrow> nat) \<Rightarrow> ('m \<Rightarrow> tid option) \<Rightarrow> tid \<Rightarrow> 'm \<Rightarrow> 'm \<Rightarrow> bool" where
  "took_write readers writer t m m' \<longleftrightarrow>
     writer m = None \<and> readers m = (\<lambda>_. 0) \<and> writer m' = Some t \<and> readers m' = (\<lambda>_. 0)"

definition rw_contract :: "'m rw_api \<Rightarrow> ('m \<Rightarrow> tid \<Rightarrow> nat) \<Rightarrow> ('m \<Rightarrow> tid option) \<Rightarrow> bool" where
  "rw_contract api readers writer \<longleftrightarrow>
     (\<forall>kind. writer (rw_init api kind) = None \<and> readers (rw_init api kind) = (\<lambda>_. 0)) \<and>
     (\<forall>t m m'. rw_rdlock api t m = Success m' \<or> rw_tryrdlock api t m = Success m' \<longrightarrow> took_read readers writer t m m') \<and>
     (\<forall>t m m'. rw_wrlock api t m = Success m' \<or> rw_trywrlock api t m = Success m' \<longrightarrow> took_write readers writer t m m') \<and>
     (\<forall>t m. writer m = None \<and> readers m = (\<lambda>_. 0) \<longrightarrow> (\<exists>m'. rw_trywrlock api t m = Success m')) \<and>
     (\<forall>t m. writer m = Some t \<longrightarrow> (\<exists>m'. rw_unlock api t m = Success m' \<and> writer m' = None \<and> readers m' = (\<lambda>_. 0))) \<and>
     (\<forall>t m. writer m = None \<and> 0 < readers m t \<longrightarrow>
        (\<exists>m'. rw_unlock api t m = Success m' \<and> writer m' = None \<and> readers m' = (readers m)(t := readers m t - 1)))"

section \<open>The mutex\<close>

definition posix_os_acquire_ro :: "bool \<Rightarrow> 'm rw_api \<Rightarrow> tid \<Rightarrow> 'm \<Rightarrow> 'm verified" where
  "posix_os_acquire_ro debug api t m = verify debug m (rw_rdlock api t m)"

definition posix_os_release_ro :: "bool \<Rightarrow> 'm rw_api \<Rightarrow> tid \<Rightarrow> 'm \<Rightarrow> 'm verified" where
  "posix_os_release_ro debug api t m = verify debug m (rw_unlock api t m)"

definition posix_os_try_acquire_ro :: "'m rw_api \<Rightarrow> tid \<Rightarrow> 'm \<Rightarrow> bool \<times> 'm" where
  "posix_os_try_acquire_ro api t m = (case rw_tryrdlock api t m of Success m' \<Rightarrow> (True, m') | _ \<Rightarrow> (False, m))"

definition posix_acquire_rw :: "bool \<Rightarrow> 'm rw_api \<Rightarrow> tid \<Rightarrow> 'm \<Rightarrow> 'm verified" where
  "posix_acquire_rw debug api t m = verify debug m (rw_wrlock api t m)"

definition posix_release_rw :: "bool \<Rightarrow> 'm rw_api \<Rightarrow> tid \<Rightarrow> 'm \<Rightarrow> 'm verified" where
  "posix_release_rw debug api t m = posix_os_release_ro debug api t m"

definition posix_try_acquire_rw :: "'m rw_api \<Rightarrow> tid \<Rightarrow> 'm \<Rightarrow> bool \<times> 'm" where
  "posix_try_acquire_rw api t m = (case rw_trywrlock api t m of Success m' \<Rightarrow> (True, m') | _ \<Rightarrow> (False, m))"

text \<open>\<open>is_locked\<close> tries the exclusive side, so that it sees holds of both.\<close>

definition rw_is_locked :: "bool \<Rightarrow> 'm rw_api \<Rightarrow> tid \<Rightarrow> 'm \<Rightarrow> bool \<times> 'm verified" where
  "rw_is_locked debug api t m =
     (case posix_try_acquire_rw api t m of
        (True, m') \<Rightarrow> (False, posix_release_rw debug api t m')
      | (False, m') \<Rightarrow> (True, Continues m'))"

text \<open>The copy and move constructors, which make a fresh writer-preferring mutex, and the assignment.\<close>

definition rw_copy :: "bool \<Rightarrow> 'm rw_api \<Rightarrow> tid \<Rightarrow> 'm \<Rightarrow> 'm verified" where
  "rw_copy debug api t other =
     (if debug \<and> fst (rw_is_locked debug api t other) then Assertion else Continues (rw_init api rw_mutex_kind))"

definition rw_assign :: "bool \<Rightarrow> 'm rw_api \<Rightarrow> tid \<Rightarrow> 'm \<Rightarrow> 'm \<Rightarrow> 'm verified" where
  "rw_assign debug api t this other =
     (if debug \<and> (fst (rw_is_locked debug api t this) \<or> fst (rw_is_locked debug api t other)) then Assertion
      else Continues this)"

locale os_rwlock =
  fixes api :: "'m rw_api" and readers :: "'m \<Rightarrow> tid \<Rightarrow> nat" and writer :: "'m \<Rightarrow> tid option"
  assumes contract: "rw_contract api readers writer"
begin

lemma rw_init_free: "writer (rw_init api kind) = None" "readers (rw_init api kind) = (\<lambda>_. 0)"
  and rw_rd: "rw_rdlock api t m = Success m' \<Longrightarrow> took_read readers writer t m m'"
  and rw_tryrd: "rw_tryrdlock api t m = Success m' \<Longrightarrow> took_read readers writer t m m'"
  and rw_wr: "rw_wrlock api t m = Success m' \<Longrightarrow> took_write readers writer t m m'"
  and rw_trywr: "rw_trywrlock api t m = Success m' \<Longrightarrow> took_write readers writer t m m'"
  and rw_trywr_free: "writer m = None \<Longrightarrow> readers m = (\<lambda>_. 0) \<Longrightarrow> \<exists>m'. rw_trywrlock api t m = Success m'"
  and rw_unlock_write: "writer m = Some t \<Longrightarrow>
    \<exists>m'. rw_unlock api t m = Success m' \<and> writer m' = None \<and> readers m' = (\<lambda>_. 0)"
  and rw_unlock_read: "writer m = None \<Longrightarrow> 0 < readers m t \<Longrightarrow>
    \<exists>m'. rw_unlock api t m = Success m' \<and> writer m' = None \<and> readers m' = (readers m)(t := readers m t - 1)"
  using contract unfolding rw_contract_def by blast+

lemma acquire_ro_took: "posix_os_acquire_ro True api t m = Continues m' \<Longrightarrow> took_read readers writer t m m'"
  using rw_rd [of t m m'] by (simp add: posix_os_acquire_ro_def verify_def split: reply.splits)

lemma acquire_rw_took: "posix_acquire_rw True api t m = Continues m' \<Longrightarrow> took_write readers writer t m m'"
  using rw_wr [of t m m'] by (simp add: posix_acquire_rw_def verify_def split: reply.splits)

lemma try_acquire_rw_iff: "fst (posix_try_acquire_rw api t m) \<longleftrightarrow> writer m = None \<and> readers m = (\<lambda>_. 0)"
  using rw_trywr [of t m] rw_trywr_free [of m t]
  by (auto simp: posix_try_acquire_rw_def took_write_def split: reply.splits)

lemma release_rw_frees:
  "writer m = Some t \<Longrightarrow> \<exists>m'. posix_release_rw debug api t m = Continues m' \<and> writer m' = None \<and> readers m' = (\<lambda>_. 0)"
  using rw_unlock_write [of m t] by (auto simp: posix_release_rw_def posix_os_release_ro_def verify_def)

lemma release_ro_one: "writer m = None \<Longrightarrow> 0 < readers m t \<Longrightarrow>
    \<exists>m'. posix_os_release_ro debug api t m = Continues m' \<and> writer m' = None \<and> readers m' = (readers m)(t := readers m t - 1)"
  using rw_unlock_read [of m t] by (auto simp: posix_os_release_ro_def verify_def)

lemma rw_is_locked_iff: "fst (rw_is_locked debug api t m) \<longleftrightarrow> writer m \<noteq> None \<or> readers m \<noteq> (\<lambda>_. 0)"
  using try_acquire_rw_iff [of t m] by (auto simp: rw_is_locked_def split: prod.splits bool.splits)

lemma rw_is_locked_keeps:
  "\<exists>m'. snd (rw_is_locked debug api t m) = Continues m' \<and> writer m' = writer m \<and> readers m' = readers m"
proof (cases "rw_trywrlock api t m")
  case (Success m')
  then have "took_write readers writer t m m'" by (rule rw_trywr)
  with Success release_rw_frees [of m' t debug] show ?thesis
    by (auto simp: rw_is_locked_def posix_try_acquire_rw_def took_write_def)
qed (simp_all add: rw_is_locked_def posix_try_acquire_rw_def)

end

text \<open>
  A documented lock: holds by thread, an error for a read lock by the writer and for an unlock by
  a thread without a hold.
\<close>

definition plain_rwlock :: "(tid list \<times> tid option) rw_api" where
  "plain_rwlock = \<lparr>rw_init = (\<lambda>_. ([], None)),
     rw_rdlock = (\<lambda>t (rs, w). case w of None \<Rightarrow> Success (t # rs, None) | Some u \<Rightarrow> if u = t then Error else Blocks),
     rw_wrlock = (\<lambda>t (rs, w). if w = Some t then Error else if rs = [] \<and> w = None then Success ([], Some t) else Blocks),
     rw_tryrdlock = (\<lambda>t (rs, w). if w = None then Success (t # rs, None) else Error),
     rw_trywrlock = (\<lambda>t (rs, w). if rs = [] \<and> w = None then Success ([], Some t) else Error),
     rw_unlock = (\<lambda>t (rs, w). if w = Some t then Success ([], None)
       else if w = None \<and> t \<in> set rs then Success (remove1 t rs, None) else Error)\<rparr>"

definition plain_readers :: "tid list \<times> tid option \<Rightarrow> tid \<Rightarrow> nat" where
  "plain_readers m t = count_list (fst m) t"

lemma count_list_remove1: "count_list (remove1 t rs) u = count_list rs u - of_bool (u = t)"
  by (induction rs) auto

lemma plain_readers_none: "plain_readers m = (\<lambda>_. 0) \<longleftrightarrow> fst m = []"
  by (cases "fst m") (auto simp: plain_readers_def fun_eq_iff)

interpretation plain: os_rwlock plain_rwlock plain_readers snd
proof unfold_locales
  have c: "0 < count_list rs t \<Longrightarrow> t \<in> set rs" for rs and t :: tid by (metis count_notin less_irrefl)
  show "rw_contract plain_rwlock plain_readers snd"
    unfolding rw_contract_def plain_readers_none took_read_def took_write_def
    by (auto simp: plain_rwlock_def plain_readers_def fun_eq_iff count_list_remove1 c
        split: option.splits if_splits)
qed

section \<open>Guards at work\<close>

text \<open>
  Every thread has its own guards of both kinds. A guard operation makes the calls that theory
  \<open>RwBackends\<close> gives it; an \<open>rw_lock\<close> has the same construction, move and destruction but no
  assignment.
\<close>

datatype side = Ro | Rw

record 'm guard_sys =
  locks :: "mutex_id \<Rightarrow> 'm"
  guards_of :: "side \<Rightarrow> tid \<Rightarrow> guards"

definition call_mutex :: "bool \<Rightarrow> 'm rw_api \<Rightarrow> side \<Rightarrow> tid \<Rightarrow> mutex_call \<Rightarrow> (mutex_id \<Rightarrow> 'm) \<Rightarrow> (mutex_id \<Rightarrow> 'm) verified"
where
  "call_mutex debug api sd t c L = (case c of
       Acquire m \<Rightarrow> (case (case sd of Ro \<Rightarrow> posix_os_acquire_ro debug api t (L m) | Rw \<Rightarrow> posix_acquire_rw debug api t (L m)) of
          Waiting \<Rightarrow> Waiting | Assertion \<Rightarrow> Assertion | Continues l \<Rightarrow> Continues (L(m := l)))
     | Release m \<Rightarrow> (case (case sd of Ro \<Rightarrow> posix_os_release_ro debug api t (L m) | Rw \<Rightarrow> posix_release_rw debug api t (L m)) of
          Waiting \<Rightarrow> Waiting | Assertion \<Rightarrow> Assertion | Continues l \<Rightarrow> Continues (L(m := l))))"

fun call_mutexes :: "bool \<Rightarrow> 'm rw_api \<Rightarrow> side \<Rightarrow> tid \<Rightarrow> mutex_call list \<Rightarrow> (mutex_id \<Rightarrow> 'm) \<Rightarrow> (mutex_id \<Rightarrow> 'm) verified"
where
  "call_mutexes debug api sd t [] L = Continues L"
| "call_mutexes debug api sd t (c # cs) L = (case call_mutex debug api sd t c L of
       Continues L' \<Rightarrow> call_mutexes debug api sd t cs L' | r \<Rightarrow> r)"

definition has_assign :: "guard_op \<Rightarrow> bool" where
  "has_assign op \<longleftrightarrow> (\<exists>g h. op = Guard_Assign g h)"

definition guard_act :: "bool \<Rightarrow> 'm rw_api \<Rightarrow> side \<Rightarrow> tid \<Rightarrow> guard_op \<Rightarrow> 'm guard_sys \<Rightarrow> 'm guard_sys verified" where
  "guard_act debug api sd t op s =
     (let (calls, gs) = guard_apply op (guards_of s sd t)
      in case call_mutexes debug api sd t calls (locks s) of Waiting \<Rightarrow> Waiting | Assertion \<Rightarrow> Assertion
         | Continues L \<Rightarrow> Continues
             (s\<lparr>locks := L, guards_of := (guards_of s)(sd := (guards_of s sd)(t := gs))\<rparr>))"

definition guard_allowed :: "nat \<Rightarrow> side \<Rightarrow> tid \<Rightarrow> guard_op \<Rightarrow> 'm guard_sys \<Rightarrow> bool" where
  "guard_allowed n sd t op s \<longleftrightarrow> guard_op_ok n op (guards_of s sd t) \<and> (sd = Rw \<longrightarrow> \<not> has_assign op)"

definition guards_init :: "'m rw_api \<Rightarrow> 'm guard_sys \<Rightarrow> bool" where
  "guards_init api s \<longleftrightarrow> (\<forall>m. \<exists>kind. locks s m = rw_init api kind) \<and> guards_of s = (\<lambda>_ _ _. None)"

inductive guards_step :: "bool \<Rightarrow> 'm rw_api \<Rightarrow> nat \<Rightarrow> 'm guard_sys \<Rightarrow> 'm guard_sys \<Rightarrow> bool" for debug api n where
  "guard_allowed n sd t op s \<Longrightarrow> guard_act debug api sd t op s = Continues s' \<Longrightarrow> guards_step debug api n s s'"

text \<open>
  Every lock has exactly the holds of the guards that refer to it, and never both sides at once.
\<close>

definition lock_books :: "('m \<Rightarrow> tid \<Rightarrow> nat) \<Rightarrow> ('m \<Rightarrow> tid option) \<Rightarrow> nat \<Rightarrow> mutex_id \<Rightarrow> 'm
    \<Rightarrow> (side \<Rightarrow> tid \<Rightarrow> guards) \<Rightarrow> bool" where
  "lock_books readers writer n m l g \<longleftrightarrow>
     (\<forall>t. int (readers l t) = weight n (guarding m) (g Ro t)) \<and>
     (\<forall>t. weight n (guarding m) (g Rw t) = of_bool (writer l = Some t)) \<and>
     (writer l \<noteq> None \<longrightarrow> readers l = (\<lambda>_. 0))"

definition guards_inv :: "('m \<Rightarrow> tid \<Rightarrow> nat) \<Rightarrow> ('m \<Rightarrow> tid option) \<Rightarrow> nat \<Rightarrow> 'm guard_sys \<Rightarrow> bool" where
  "guards_inv readers writer n s \<longleftrightarrow> (\<forall>m. lock_books readers writer n m (locks s m) (guards_of s))"

lemma guard_apply_calls:
  assumes "guard_apply op gs = (calls, gs')"
  obtains (none) "calls = []" | (acquire) m where "calls = [Acquire m]" | (release) m where "calls = [Release m]"
  using assms that by (cases op) (auto simp: guard_release_def Let_def split: option.splits)

lemma lock_books_same:
  assumes "lock_books readers writer n m l g" and "weight n (guarding m) gs = weight n (guarding m) (g sd t)"
  shows "lock_books readers writer n m l (g(sd := (g sd)(t := gs)))"
  using assms by (cases sd) (auto simp: lock_books_def)

lemma lock_booksD:
  assumes "lock_books readers writer n m l g"
  shows lock_books_readers: "int (readers l t) = weight n (guarding m) (g Ro t)"
    and lock_books_writer: "weight n (guarding m) (g Rw t) = of_bool (writer l = Some t)"
    and lock_books_sides: "writer l = Some u \<Longrightarrow> readers l = (\<lambda>_. 0)"
  using assms by (simp_all add: lock_books_def)

lemma lock_booksI:
  assumes "\<And>t. int (readers l t) = weight n (guarding m) (g Ro t)"
    and "\<And>t. weight n (guarding m) (g Rw t) = of_bool (writer l = Some t)"
    and "\<And>u. writer l = Some u \<Longrightarrow> readers l = (\<lambda>_. 0)"
  shows "lock_books readers writer n m l g"
  using assms by (auto simp: lock_books_def)

context os_rwlock begin

lemma lock_books_acquire_ro:
  assumes books: "lock_books readers writer n m l g" and w: "weight n (guarding m) gs = weight n (guarding m) (g Ro t) + 1"
    and a: "posix_os_acquire_ro True api t l = Continues l'"
  shows "lock_books readers writer n m l' (g(Ro := (g Ro)(t := gs)))"
proof (rule lock_booksI)
  have took: "writer l = None" "writer l' = None" "readers l' = (readers l)(t := readers l t + 1)"
    using acquire_ro_took [OF a] by (simp_all add: took_read_def)
  show "int (readers l' u) = weight n (guarding m) ((g(Ro := (g Ro)(t := gs))) Ro u)" for u
    using lock_books_readers [OF books, of u] w by (cases "u = t") (simp_all add: took)
  show "weight n (guarding m) ((g(Ro := (g Ro)(t := gs))) Rw u) = of_bool (writer l' = Some u)" for u
    using lock_books_writer [OF books, of u] by (simp add: took)
  show "readers l' = (\<lambda>_. 0)" if "writer l' = Some u" for u using that took by simp
qed

lemma lock_books_acquire_rw:
  assumes books: "lock_books readers writer n m l g" and w: "weight n (guarding m) gs = weight n (guarding m) (g Rw t) + 1"
    and a: "posix_acquire_rw True api t l = Continues l'"
  shows "lock_books readers writer n m l' (g(Rw := (g Rw)(t := gs)))"
proof (rule lock_booksI)
  have took: "writer l = None" "readers l = (\<lambda>_. 0)" "writer l' = Some t" "readers l' = (\<lambda>_. 0)"
    using acquire_rw_took [OF a] by (simp_all add: took_write_def)
  show "int (readers l' u) = weight n (guarding m) ((g(Rw := (g Rw)(t := gs))) Ro u)" for u
    using lock_books_readers [OF books, of u] by (simp add: took)
  show "weight n (guarding m) ((g(Rw := (g Rw)(t := gs))) Rw u) = of_bool (writer l' = Some u)" for u
    using lock_books_writer [OF books, of u] w by (cases "u = t") (simp_all add: took)
qed (use acquire_rw_took [OF a] in \<open>simp add: took_write_def\<close>)

lemma lock_books_release_ro:
  assumes books: "lock_books readers writer n m l g" and w: "weight n (guarding m) gs = weight n (guarding m) (g Ro t) - 1"
  shows "\<exists>l'. posix_os_release_ro debug api t l = Continues l' \<and> lock_books readers writer n m l' (g(Ro := (g Ro)(t := gs)))"
proof -
  have r: "0 < readers l t" using lock_books_readers [OF books, of t] w weight_nonneg [of n "guarding m" gs] by linarith
  have "writer l = None"
  proof (rule ccontr)
    assume "writer l \<noteq> None"
    then show False using lock_books_sides [OF books] r by auto
  qed
  from release_ro_one [OF this r, of debug] obtain l' where l': "posix_os_release_ro debug api t l = Continues l'"
    "writer l' = None" "readers l' = (readers l)(t := readers l t - 1)" by blast
  have "lock_books readers writer n m l' (g(Ro := (g Ro)(t := gs)))"
  proof (rule lock_booksI)
    show "int (readers l' u) = weight n (guarding m) ((g(Ro := (g Ro)(t := gs))) Ro u)" for u
      using lock_books_readers [OF books, of u] w r by (cases "u = t") (simp_all add: l' of_nat_diff)
    show "weight n (guarding m) ((g(Ro := (g Ro)(t := gs))) Rw u) = of_bool (writer l' = Some u)" for u
      using lock_books_writer [OF books, of u] \<open>writer l = None\<close> by (simp add: l')
  qed (simp add: l')
  with l' show ?thesis by blast
qed

lemma lock_books_release_rw:
  assumes books: "lock_books readers writer n m l g" and w: "weight n (guarding m) gs = weight n (guarding m) (g Rw t) - 1"
  shows "\<exists>l'. posix_release_rw debug api t l = Continues l' \<and> lock_books readers writer n m l' (g(Rw := (g Rw)(t := gs)))"
proof -
  have wr: "writer l = Some t"
    using lock_books_writer [OF books, of t] w weight_nonneg [of n "guarding m" gs] by (cases "writer l = Some t") simp_all
  from release_rw_frees [OF this, of debug] obtain l' where l': "posix_release_rw debug api t l = Continues l'"
    "writer l' = None" "readers l' = (\<lambda>_. 0)" by blast
  have "lock_books readers writer n m l' (g(Rw := (g Rw)(t := gs)))"
  proof (rule lock_booksI)
    show "int (readers l' u) = weight n (guarding m) ((g(Rw := (g Rw)(t := gs))) Ro u)" for u
      using lock_books_readers [OF books, of u] lock_books_sides [OF books wr] by (simp add: l')
    show "weight n (guarding m) ((g(Rw := (g Rw)(t := gs))) Rw u) = of_bool (writer l' = Some u)" for u
      using lock_books_writer [OF books, of u] w wr by (cases "u = t") (simp_all add: l')
  qed (simp add: l')
  with l' show ?thesis by blast
qed

lemma guards_inv_act:
  assumes inv: "guards_inv readers writer n s" and ok: "guard_allowed n sd t op s"
  shows "guard_act True api sd t op s = Continues s' \<Longrightarrow> guards_inv readers writer n s'"
    and "(\<And>g m. op \<noteq> Guard_Construct g m) \<Longrightarrow> \<exists>s'. guard_act True api sd t op s = Continues s'"
proof -
  obtain calls gs where a: "guard_apply op (guards_of s sd t) = (calls, gs)" by fastforce
  have ok': "guard_op_ok n op (guards_of s sd t)" using ok by (simp add: guard_allowed_def)
  note w = guard_apply_holds [OF ok' a]
  have books: "lock_books readers writer n m (locks s m) (guards_of s)" for m
    using inv by (simp add: guards_inv_def)
  have same: "lock_books readers writer n m (locks s m) ((guards_of s)(sd := (guards_of s sd)(t := gs)))"
    if "holds_after m calls (weight n (guarding m) (guards_of s sd t)) = weight n (guarding m) (guards_of s sd t)" for m
    using lock_books_same [OF books] w that by simp
  have "(\<forall>s'. guard_act True api sd t op s = Continues s' \<longrightarrow> guards_inv readers writer n s') \<and>
    ((\<forall>g m. op \<noteq> Guard_Construct g m) \<longrightarrow> (\<exists>s'. guard_act True api sd t op s = Continues s'))"
    using a
  proof (cases rule: guard_apply_calls)
    case none
    then show ?thesis using same by (simp add: guard_act_def a guards_inv_def)
  next
    case (acquire m)
    have "guards_inv readers writer n s'" if s': "guard_act True api sd t op s = Continues s'" for s'
    proof -
      obtain l where l: "(case sd of Ro \<Rightarrow> posix_os_acquire_ro True api t (locks s m) | Rw \<Rightarrow> posix_acquire_rw True api t (locks s m))
          = Continues l" and s'': "s' = s\<lparr>locks := (locks s)(m := l), guards_of := (guards_of s)(sd := (guards_of s sd)(t := gs))\<rparr>"
        using s' by (auto simp: guard_act_def a acquire call_mutex_def split: verified.splits)
      have "weight n (guarding m) gs = weight n (guarding m) (guards_of s sd t) + 1" using w [of m] acquire by simp
      then have "lock_books readers writer n m l ((guards_of s)(sd := (guards_of s sd)(t := gs)))"
        using l lock_books_acquire_ro [OF books] lock_books_acquire_rw [OF books] by (cases sd) auto
      then show ?thesis using same by (simp add: guards_inv_def s'' acquire)
    qed
    moreover have "\<exists>g m. op = Guard_Construct g m"
      using a acquire by (cases op) (auto simp: guard_release_def Let_def split: option.splits)
    ultimately show ?thesis by blast
  next
    case (release m)
    have "weight n (guarding m) gs = weight n (guarding m) (guards_of s sd t) - 1" using w [of m] release by simp
    then obtain l where l: "(case sd of Ro \<Rightarrow> posix_os_release_ro True api t (locks s m) | Rw \<Rightarrow> posix_release_rw True api t (locks s m))
        = Continues l" and "lock_books readers writer n m l ((guards_of s)(sd := (guards_of s sd)(t := gs)))"
      using lock_books_release_ro [OF books, where gs = gs and t = t and debug = True]
        lock_books_release_rw [OF books, where gs = gs and t = t and debug = True]
      by (cases sd) auto
    then show ?thesis using same by (auto simp: guard_act_def a release call_mutex_def guards_inv_def)
  qed
  then show "guard_act True api sd t op s = Continues s' \<Longrightarrow> guards_inv readers writer n s'"
    and "(\<And>g m. op \<noteq> Guard_Construct g m) \<Longrightarrow> \<exists>s'. guard_act True api sd t op s = Continues s'"
    by blast+
qed

end

lemma guards_init_inv:
  assumes "guards_init api s" and "rw_contract api readers writer"
  shows "guards_inv readers writer n s"
proof -
  have "writer (locks s m) = None \<and> readers (locks s m) = (\<lambda>_. 0)" for m
    using assms unfolding guards_init_def rw_contract_def by metis
  then show ?thesis
    using assms(1) by (simp add: guards_inv_def lock_books_def guards_init_def weight_zero guarding_def)
qed

sublocale os_rwlock \<subseteq> rw_guards: invariant_system "guards_init api" "guards_step True api n" "guards_inv readers writer n"
  for n
proof unfold_locales
  show "guards_inv readers writer n s'" if "guards_inv readers writer n s" "guards_step True api n s s'" for s s'
    using that(2) by cases (rule guards_inv_act(1) [OF that(1)])
qed (rule guards_init_inv [OF _ contract])

context os_rwlock begin

lemmas guards_reach_inv = rw_guards.inv_reach

end

lemma guards_two:
  assumes "g < n" "h < n" "g \<noteq> h" "gs g = Some m" "gs h = Some m"
  shows "2 \<le> weight n (guarding m) gs"
  using total_weight_ge2 [OF assms(1-3), of "guarding m" gs] assms(4,5) by (simp add: weight_def guarding_def)

lemma guards_one: "g < n \<Longrightarrow> gs g = Some m \<Longrightarrow> 1 \<le> weight n (guarding m) gs"
  using weight_ge [of g n "guarding m" gs] by (simp add: guarding_def)

lemma lock_books_exclusive:
  assumes books: "lock_books readers writer n m l gs" and g: "g < n" "gs Rw t g = Some m" and h: "h < n" "gs sd u h = Some m"
  shows "sd = Rw \<and> u = t \<and> h = g"
proof -
  have wr: "writer l = Some t"
    using lock_books_writer [OF books, of t] guards_one [where gs = "gs Rw t" and g = g and n = n and m = m] g by (cases "writer l = Some t") simp_all
  have "1 \<le> weight n (guarding m) (gs sd u)" using h by (intro guards_one)
  then have "sd = Rw" using lock_books_readers [OF books, of u] lock_books_sides [OF books wr] by (cases sd) simp_all
  moreover from this have "u = t"
    using lock_books_writer [OF books, of u] guards_one [where gs = "gs sd u" and g = h and n = n and m = m] h wr by (cases "t = u") simp_all
  moreover have "weight n (guarding m) (gs Rw t) \<le> 1" using lock_books_writer [OF books, of t] by simp
  ultimately show ?thesis using guards_two [OF g(1) h(1), where gs = "gs Rw t"] g(2) h(2) by fastforce
qed

lemma lock_books_free:
  assumes books: "lock_books readers writer n m l gs" and none: "\<And>sd u h. h < n \<Longrightarrow> gs sd u h \<noteq> Some m"
  shows "writer l = None \<and> readers l = (\<lambda>_. 0)"
proof -
  have z: "weight n (guarding m) (gs sd u) = 0" for sd u using none by (simp add: weight_zero guarding_def)
  have "writer l \<noteq> Some t" for t using lock_books_writer [OF books, of t] by (auto simp: z)
  moreover have "readers l t = 0" for t using lock_books_readers [OF books, of t] by (simp add: z)
  ultimately show ?thesis by (cases "writer l") auto
qed

section \<open>Theorems\<close>


text \<open>Thread 1 takes mutex 7 with an \<open>rw_lock\<close>.\<close>

definition guard_demo :: "(tid list \<times> tid option) guard_sys" where
  "guard_demo = \<lparr>locks = (\<lambda>_. ([], None))(7 := ([], Some 1)),
     guards_of = (\<lambda>_ _ _. None)(Rw := (\<lambda>_ _. None)(1 := (\<lambda>_. None)(0 := Some 7)))\<rparr>"

lemma guard_demo_reach: "reach (guards_init plain_rwlock) (guards_step True plain_rwlock 2) guard_demo"
proof -
  let ?s = "\<lparr>locks = (\<lambda>_. ([], None)), guards_of = (\<lambda>_ _ _. None)\<rparr>"
  have "reach (guards_init plain_rwlock) (guards_step True plain_rwlock 2) ?s"
    by (rule reach.start) (simp add: guards_init_def plain_rwlock_def)
  moreover have "guards_step True plain_rwlock 2 ?s guard_demo"
    by (rule guards_step.intros [of 2 Rw 1 "Guard_Construct 0 7"])
      (simp_all add: guard_allowed_def has_assign_def guard_act_def call_mutex_def posix_acquire_rw_def verify_def
        plain_rwlock_def guard_demo_def)
  ultimately show ?thesis by (rule reach.move)
qed


text \<open>Without the checks an error is taken for a success: a thread that holds the mutex for writing and constructs
  an \<open>ro_lock\<close> goes on with a guard and no hold, and the guard's destruction unlocks the writer.\<close>

theorem unchecked_error_goes_on:
  "\<exists>s. guard_act False plain_rwlock Ro 1 (Guard_Construct 0 7) guard_demo = Continues s \<and>
     guards_of s Ro 1 0 = Some 7 \<and> locks s 7 = ([], Some 1) \<and>
     (\<exists>s'. guard_act False plain_rwlock Ro 1 (Guard_Destroy 0) s = Continues s' \<and>
        locks s' 7 = ([], None) \<and> guards_of s' Rw 1 0 = Some 7) \<and>
     guard_act True plain_rwlock Ro 1 (Guard_Construct 0 7) guard_demo = Assertion"
  by (simp add: guard_act_def call_mutex_def posix_os_acquire_ro_def posix_os_release_ro_def verify_def plain_rwlock_def
      guard_demo_def guard_release_def)

end
