(* ===== verification/Platform.thy ===== *)
theory Platform
  imports Shop HwConcurrency
begin

text \<open>
  What a target fixes at compile time (threading/hardware_concurrency.hpp): the width of
  \<open>hardware_concurrency_t\<close>, the largest number of processors it can have, and with it the capacity of the worker
  pool (the end of impls/generic.hpp); and the other ways of counting processors (the rest of
  threading/hardware_concurrency.cpp). The theorem puts them together with the pool of theory \<open>Shop\<close>.
\<close>

section \<open>Targets\<close>

datatype arch = Aarch64 | Arm | Other_Arch

record target =
  emscripten :: bool
  emscripten_pthreads :: bool
  android :: bool
  apple :: bool
  iphone_min :: bool               \<comment> \<open>a native iOS app, not a simulator\<close>
  windows_phone :: bool
  linux :: bool
  docker_limits :: bool
  target_arch :: arch

text \<open>Zero stands for no limit.\<close>

definition max_hardware_concurrency :: "target \<Rightarrow> nat" where
  "max_hardware_concurrency t =
     (if emscripten t \<and> \<not> emscripten_pthreads t then 1
      else if android t then (case target_arch t of Aarch64 \<Rightarrow> 12 | Arm \<Rightarrow> 8 | Other_Arch \<Rightarrow> 4)
      else if apple t then
        (if target_arch t = Aarch64 \<and> iphone_min t then 24 else if target_arch t = Arm then 2 else 0)
      else if windows_phone t then 2 else 0)"

definition hardware_concurrency_bits :: "target \<Rightarrow> nat" where
  "hardware_concurrency_bits t =
     (if target_arch t = Arm \<or> target_arch t = Aarch64 \<or> android t \<or> apple t then 8 else 16)"

definition destructive_interference_size :: "target \<Rightarrow> nat" where
  "destructive_interference_size t = (if target_arch t = Aarch64 then 128 else 64)"

text \<open>\<open>fc_vector\<close>, the pool of fixed capacity. Android leaves no place out for the caller.\<close>

definition pool_capacity :: "target \<Rightarrow> build \<Rightarrow> nat" where
  "pool_capacity t b = max_hardware_concurrency t - (if android t then 0 else of_bool (use_caller_thread b))"

section \<open>Counting processors\<close>

text \<open>What the system functions answer.\<close>

record system_counts =
  docker_quota :: int
  has_threading_support :: bool
  num_logical_cores :: int
  nprocs_conf :: int
  nprocs :: int
  std_hardware_concurrency :: int

definition target_concurrency_max :: "target \<Rightarrow> system_counts \<Rightarrow> 'h::len word" where
  "target_concurrency_max t c =
     (if max_hardware_concurrency t = 1 then 1
      else if docker_limits t then get_hardware_concurrency_max (docker_quota c) (nprocs_conf c)
      else of_int (if emscripten_pthreads t then if has_threading_support c then num_logical_cores c else 1
                   else if linux t then nprocs_conf c else std_hardware_concurrency c))"

definition target_concurrency_current :: "target \<Rightarrow> system_counts \<Rightarrow> 'h::len word" where
  "target_concurrency_current t c =
     (if max_hardware_concurrency t = 1 then 1
      else if docker_limits t then hardware_concurrency_current (docker_quota c) (nprocs c)
      else if emscripten_pthreads t then target_concurrency_max t c
      else of_int (if linux t then nprocs c else std_hardware_concurrency c))"

text \<open>Android before 7: condition variables are too slow for one event per worker.\<close>

definition slow_signals :: "target \<Rightarrow> int \<Rightarrow> bool" where
  "slow_signals t api_level \<longleftrightarrow> android t \<and> api_level < 24"

text \<open>What \<open>create_pool\<close> asserts of the requested size.\<close>

definition create_pool_asserts :: "'h::len word \<Rightarrow> 'h word \<Rightarrow> bool" where
  "create_pool_asserts pool_size detected \<longleftrightarrow> pool_size \<le> detected"

lemma max_hardware_concurrency_small: "max_hardware_concurrency t \<le> 24"
  by (auto simp: max_hardware_concurrency_def split: arch.splits)

lemma hardware_concurrency_bits_cases: "hardware_concurrency_bits t = 8 \<or> hardware_concurrency_bits t = 16"
  by (simp add: hardware_concurrency_bits_def)

lemma max_hardware_concurrency_fits:
  assumes "LENGTH('h::len) = hardware_concurrency_bits t"
  shows "unat (of_nat (max_hardware_concurrency t) :: 'h word) = max_hardware_concurrency t"
proof (rule unat_of_nat_small)
  have "(2 :: nat) ^ 8 \<le> 2 ^ LENGTH('h)"
    using assms hardware_concurrency_bits_cases [of t] by (intro power_increasing) auto
  then show "max_hardware_concurrency t < 2 ^ LENGTH('h)" using max_hardware_concurrency_small [of t] by simp
qed

lemma shop_new_size: "snd (shop_new b max_hc detected) =
    (if max_hc = 0 then detected else min detected max_hc) - of_bool (use_caller_thread b)"
  by (simp add: shop_new_def create_pool_def Let_def)

lemma shop_new_starts: "case shop_new b max_hc detected of (as, new_size) \<Rightarrow> Start -` set as = {..<unat new_size}"
  by (auto simp: shop_new_def create_pool_def stop_and_destroy_pool_def Let_def split: if_splits)

section \<open>Theorems\<close>


definition android_phone :: target where
  "android_phone = \<lparr>emscripten = False, emscripten_pthreads = False, android = True, apple = False, iphone_min = False,
     windows_phone = False, linux = True, docker_limits = False, target_arch = Aarch64\<rparr>"


text \<open>A later change of the parallelism is not held to the limit: where more processors are detected than the
  target allows for, the assertion of \<open>create_pool\<close> passes for a pool that does not fit.\<close>

theorem set_max_allowed_threads_overflows:
  "case set_max_allowed_threads default_build 16 (11 :: 8 word) of (as, new_size) \<Rightarrow>
     create_pool_asserts new_size 16 \<and> unat new_size = 15 \<and> pool_capacity android_phone default_build = 12"
  by (simp add: set_max_allowed_threads_def create_pool_def create_pool_asserts_def pool_capacity_def android_phone_def
      max_hardware_concurrency_def default_build_def Let_def)

end
