(* ===== verification/ShopRun.thy ===== *)
theory ShopRun
  imports Shop "HOL-Library.Multiset"
begin

text \<open>
  The pool of the generic shop at work (impls/generic.cpp): workers, producers on the fire path, the
  caller that steals, and the shutdown, in any interleaving. The queue
  (queues/mpmc_moodycamel.hpp over moodycamel) is a family of sub-queues, one per worker's
  producer token; a stealing dequeue may fail although there are items, as moodycamel's may, while
  a dequeue from one's own producer fails only when that sub-queue is empty. An event is the token
  count that theory \<open>Semaphore\<close> establishes for it.
\<close>

section \<open>The worker loop, the fire path and the shutdown\<close>

text \<open>
  \<open>n\<close> workers, any number of items. A worker runs its own sub-queue empty, then steals, then reads
  the exit flag, sleeps on its event, and on waking propagates if \<open>work_items_\<close> is not zero. A
  producer enqueues to a worker's sub-queue, notifies that worker and only then adds to
  \<open>work_items_\<close>, as \<open>create_fire_and_destroy\<close> does; it is in \<open>notifying\<close>, then in \<open>adding\<close>. An item
  that has run is in \<open>completing\<close> until \<open>work_completed\<close>. The counter is an integer here, because the
  source lets it pass below zero. (A failed enqueue queues nothing and is left out; that the source
  notifies all the same is a spurious token, which \<open>extra_token\<close> allows at any time.)
  \<open>stop_and_destroy_pool\<close> sets the exit flag and notifies the workers one by one.
\<close>

datatype worker_pc = W_Own | W_Steal | W_Exit | W_Sleep | W_Propagate | W_Returned

record shop_sys =
  queues :: "nat \<Rightarrow> nat list"        \<comment> \<open>item numbers, by owner\<close>
  event_tokens :: "nat \<Rightarrow> nat"
  wpc :: "nat \<Rightarrow> worker_pc"
  notifying :: "nat \<Rightarrow> nat"          \<comment> \<open>producers between enqueue and notify, by target\<close>
  adding :: nat                     \<comment> \<open>producers between notify and \<open>work_added\<close>\<close>
  completing :: nat                 \<comment> \<open>items run and not yet \<open>work_completed\<close>\<close>
  work_items :: int
  brexit :: bool
  stop_at :: "nat option"           \<comment> \<open>the shutdown: the worker to be notified next\<close>
  submitted :: nat                  \<comment> \<open>items 0 .. submitted - 1 have been enqueued\<close>
  executed :: "nat list"

definition shop_init :: "shop_sys \<Rightarrow> bool" where
  "shop_init s \<longleftrightarrow> queues s = (\<lambda>_. []) \<and> event_tokens s = (\<lambda>_. 0) \<and> wpc s = (\<lambda>_. W_Own)
     \<and> notifying s = (\<lambda>_. 0) \<and> adding s = 0 \<and> completing s = 0 \<and> work_items s = 0
     \<and> \<not> brexit s \<and> stop_at s = None \<and> submitted s = 0 \<and> executed s = []"

text \<open>The steps that carry on what has been begun, and then those that begin something.\<close>

inductive shop_work :: "nat \<Rightarrow> shop_sys \<Rightarrow> shop_sys \<Rightarrow> bool" for n where
  notify: "0 < notifying s w \<Longrightarrow> shop_work n s (s\<lparr>notifying := (notifying s)(w := notifying s w - 1),
    event_tokens := (event_tokens s)(w := event_tokens s w + 1), adding := adding s + 1\<rparr>)"
| added: "0 < adding s \<Longrightarrow> shop_work n s (s\<lparr>adding := adding s - 1, work_items := work_items s + 1\<rparr>)"
| completed: "0 < completing s \<Longrightarrow>
    shop_work n s (s\<lparr>completing := completing s - 1, work_items := work_items s - 1\<rparr>)"
| own: "w < n \<Longrightarrow> wpc s w = W_Own \<Longrightarrow> queues s w = x # xs \<Longrightarrow>
    shop_work n s (s\<lparr>queues := (queues s)(w := xs), executed := executed s @ [x], completing := completing s + 1\<rparr>)"
| own_empty: "w < n \<Longrightarrow> wpc s w = W_Own \<Longrightarrow> queues s w = [] \<Longrightarrow>
    shop_work n s (s\<lparr>wpc := (wpc s)(w := W_Steal)\<rparr>)"
| steal: "w < n \<Longrightarrow> wpc s w = W_Steal \<Longrightarrow> v < n \<Longrightarrow> queues s v = x # xs \<Longrightarrow>
    shop_work n s (s\<lparr>queues := (queues s)(v := xs), executed := executed s @ [x], completing := completing s + 1\<rparr>)"
| steal_fails: "w < n \<Longrightarrow> wpc s w = W_Steal \<Longrightarrow> shop_work n s (s\<lparr>wpc := (wpc s)(w := W_Exit)\<rparr>)"
| exit_check: "w < n \<Longrightarrow> wpc s w = W_Exit \<Longrightarrow>
    shop_work n s (s\<lparr>wpc := (wpc s)(w := if brexit s then W_Returned else W_Sleep)\<rparr>)"
| wake: "w < n \<Longrightarrow> wpc s w = W_Sleep \<Longrightarrow> 0 < event_tokens s w \<Longrightarrow>
    shop_work n s (s\<lparr>wpc := (wpc s)(w := W_Propagate),
      event_tokens := (event_tokens s)(w := event_tokens s w - 1)\<rparr>)"
| propagate: "w < n \<Longrightarrow> wpc s w = W_Propagate \<Longrightarrow>
    shop_work n s (s\<lparr>wpc := (wpc s)(w := W_Own),
      event_tokens := (\<lambda>v. event_tokens s v + of_bool (work_items s \<noteq> 0 \<and> (v = 2 * w + 1 \<or> v = 2 * w + 2) \<and> v < n))\<rparr>)"
| stop_notify: "stop_at s = Some w \<Longrightarrow> w < n \<Longrightarrow>
    shop_work n s (s\<lparr>event_tokens := (event_tokens s)(w := event_tokens s w + 1), stop_at := Some (w + 1)\<rparr>)"

inductive shop_step :: "nat \<Rightarrow> shop_sys \<Rightarrow> shop_sys \<Rightarrow> bool" for n where
  work: "shop_work n s s' \<Longrightarrow> shop_step n s s'"
| fire: "w < n \<Longrightarrow> shop_step n s (s\<lparr>queues := (queues s)(w := queues s w @ [submitted s]),
    submitted := submitted s + 1, notifying := (notifying s)(w := notifying s w + 1)\<rparr>)"
| extra_token: "w < n \<Longrightarrow> shop_step n s (s\<lparr>event_tokens := (event_tokens s)(w := event_tokens s w + 1)\<rparr>)"
| caller_steals: "v < n \<Longrightarrow> queues s v = x # xs \<Longrightarrow>
    shop_step n s (s\<lparr>queues := (queues s)(v := xs), executed := executed s @ [x], completing := completing s + 1\<rparr>)"
| stop: "stop_at s = None \<Longrightarrow> shop_step n s (s\<lparr>brexit := True, stop_at := Some 0\<rparr>)"

inductive_cases shop_workE: "shop_work n s s'"

section \<open>The invariant\<close>

definition queued_items :: "nat \<Rightarrow> shop_sys \<Rightarrow> nat list" where
  "queued_items n s = concat (map (queues s) [0..<n])"

text \<open>
  Every submitted item is queued or executed, once; an item in the queue of a worker that is
  past its own queue has a token of that worker's event, or a producer that is about to add one; and a worker
  that the shutdown has notified does not sleep on.
\<close>

definition awake :: "worker_pc \<Rightarrow> bool" where
  "awake p \<longleftrightarrow> p = W_Own \<or> p = W_Propagate \<or> p = W_Returned"

definition shop_ledger :: "nat \<Rightarrow> shop_sys \<Rightarrow> bool" where
  "shop_ledger n s \<longleftrightarrow> work_items s + int (adding s) + (\<Sum>w<n. int (notifying s w))
     = int (submitted s) - int (length (executed s)) + int (completing s)"

definition shop_stopping :: "nat \<Rightarrow> shop_sys \<Rightarrow> bool" where
  "shop_stopping n s \<longleftrightarrow> (brexit s \<longleftrightarrow> stop_at s \<noteq> None) \<and>
     (\<forall>w<n. wpc s w = W_Returned \<longrightarrow> stop_at s \<noteq> None) \<and>
     (\<forall>w<n. \<forall>k. wpc s w = W_Sleep \<and> stop_at s = Some k \<and> w < k \<longrightarrow> 0 < event_tokens s w)"

definition shop_inv :: "nat \<Rightarrow> shop_sys \<Rightarrow> bool" where
  "shop_inv n s \<longleftrightarrow>
     mset (executed s) + mset (queued_items n s) = mset [0..<submitted s] \<and>
     (\<forall>w<n. queues s w \<noteq> [] \<longrightarrow> awake (wpc s w) \<or> 0 < event_tokens s w \<or> 0 < notifying s w) \<and>
     (\<forall>w\<ge>n. notifying s w = 0) \<and> shop_ledger n s \<and> shop_stopping n s"

lemma shop_invD:
  assumes "shop_inv n s"
  shows shop_inv_mset: "mset (executed s) + mset (queued_items n s) = mset [0..<submitted s]"
    and shop_inv_awake: "\<And>v. v < n \<Longrightarrow> queues s v \<noteq> [] \<longrightarrow>
      awake (wpc s v) \<or> 0 < event_tokens s v \<or> 0 < notifying s v"
    and shop_inv_targets: "\<And>v. n \<le> v \<Longrightarrow> notifying s v = 0"
    and shop_inv_ledger: "shop_ledger n s"
    and shop_inv_stopping: "shop_stopping n s"
  using assms unfolding shop_inv_def by simp_all

lemma shop_invI:
  assumes "mset (executed s) + mset (queued_items n s) = mset [0..<submitted s]"
    and "\<And>v. v < n \<Longrightarrow> queues s v \<noteq> [] \<longrightarrow> awake (wpc s v) \<or> 0 < event_tokens s v \<or> 0 < notifying s v"
    and "\<And>v. n \<le> v \<Longrightarrow> notifying s v = 0" and "shop_ledger n s" and "shop_stopping n s"
  shows "shop_inv n s"
  unfolding shop_inv_def using assms by simp

lemma mset_queued: "mset (queued_items n s) = (\<Sum>v<n. mset (queues s v))"
  by (induction n) (simp_all add: queued_items_def)

lemma mset_queued_upd:
  assumes "w < n" and "queues s' = (queues s)(w := xs)"
  shows "mset (queued_items n s') + mset (queues s w) = mset (queued_items n s) + mset xs"
  unfolding mset_queued assms(2) by (rule sum_fun_upd [OF assms(1)])

lemma sum_notifying_upd:
  fixes f :: "nat \<Rightarrow> nat"
  assumes "w < n"
  shows "(\<Sum>v<n. int ((f(w := k)) v)) = (\<Sum>v<n. int (f v)) - int (f w) + int k"
  using sum_fun_upd [OF assms, of "\<lambda>_. int" f k] by simp

lemma queued_items_irrelevant: "queues s' = queues s \<Longrightarrow> queued_items n s' = queued_items n s"
  by (simp add: queued_items_def)

lemma shop_inv_take:
  assumes inv: "shop_inv n s" and v: "v < n" "queues s v = x # xs"
  shows "shop_inv n (s\<lparr>queues := (queues s)(v := xs), executed := executed s @ [x], completing := completing s + 1\<rparr>)"
proof -
  let ?s = "s\<lparr>queues := (queues s)(v := xs), executed := executed s @ [x], completing := completing s + 1\<rparr>"
  from mset_queued_upd [of v n ?s s xs] v
  have "mset (queued_items n ?s) + {#x#} = mset (queued_items n s)" by simp
  then have "mset (executed s) + (mset (queued_items n ?s) + {#x#}) = mset [0..<submitted s]"
    using shop_inv_mset [OF inv] by simp
  then have "mset (executed ?s) + mset (queued_items n ?s) = mset [0..<submitted ?s]"
    by (simp add: union_assoc union_commute)
  moreover have "shop_ledger n ?s" using shop_inv_ledger [OF inv] by (simp add: shop_ledger_def)
  moreover have "shop_stopping n ?s" using shop_inv_stopping [OF inv] by (simp add: shop_stopping_def)
  ultimately show ?thesis using inv v by (auto simp: shop_inv_def)
qed

lemma shop_inv_notify:
  assumes inv: "shop_inv n s" and "0 < notifying s w"
  shows "shop_inv n (s\<lparr>notifying := (notifying s)(w := notifying s w - 1),
    event_tokens := (event_tokens s)(w := event_tokens s w + 1), adding := adding s + 1\<rparr>)" (is "shop_inv n ?s")
proof -
  have w: "w < n" using shop_inv_targets [OF inv, of w] assms(2) by (cases "w < n") simp_all
  show ?thesis
  proof (rule shop_invI)
    have "queued_items n ?s = queued_items n s" by (rule queued_items_irrelevant) simp
    then show "mset (executed ?s) + mset (queued_items n ?s) = mset [0..<submitted ?s]"
      using shop_inv_mset [OF inv] by simp
    show "shop_ledger n ?s"
      using shop_inv_ledger [OF inv] assms(2) sum_notifying_upd [OF w, of "notifying s" "notifying s w - 1"]
      by (simp add: shop_ledger_def of_nat_diff del: fun_upd_apply of_nat_sum)
    show "shop_stopping n ?s" using shop_inv_stopping [OF inv] by (auto simp: shop_stopping_def)
  next
    fix v
    show "queues ?s v \<noteq> [] \<longrightarrow> awake (wpc ?s v) \<or> 0 < event_tokens ?s v \<or> 0 < notifying ?s v" if "v < n"
      using shop_inv_awake [OF inv that] by (cases "v = w") simp_all
    show "notifying ?s v = 0" if "n \<le> v" using shop_inv_targets [OF inv that] w that by simp
  qed
qed

lemma shop_inv_work:
  assumes inv: "shop_inv n s" and step: "shop_work n s s'"
  shows "shop_inv n s'"
  using step
proof cases
  case (notify w)
  then show ?thesis using shop_inv_notify [OF inv] by simp
next
  case (own w x xs)
  then show ?thesis using shop_inv_take [OF inv] by simp
next
  case (steal w v x xs)
  then show ?thesis using shop_inv_take [OF inv] by simp
next
  case (stop_notify w)
  then show ?thesis using inv by (auto simp: shop_inv_def shop_ledger_def shop_stopping_def queued_items_def less_Suc_eq)
qed (use inv in \<open>auto simp: shop_inv_def shop_ledger_def shop_stopping_def awake_def queued_items_def\<close>)

lemma shop_inv_step:
  assumes inv: "shop_inv n s" and step: "shop_step n s s'"
  shows "shop_inv n s'"
  using step
proof cases
  case (fire w)
  from mset_queued_upd [OF fire(2), of s' s "queues s w @ [submitted s]"]
  have "mset (queued_items n s') = mset (queued_items n s) + {#submitted s#}" by (simp add: fire(1))
  then have "mset (executed s') + mset (queued_items n s') = mset [0..<submitted s']"
    using shop_inv_mset [OF inv] by (simp add: fire(1))
  moreover have "shop_ledger n s'" using shop_inv_ledger [OF inv] sum_notifying_upd [OF fire(2)]
    by (simp add: shop_ledger_def fire(1) del: fun_upd_apply of_nat_sum)
  moreover have "shop_stopping n s'" using shop_inv_stopping [OF inv] by (simp add: shop_stopping_def fire(1))
  ultimately show ?thesis using inv fire(2) by (auto simp: shop_inv_def fire(1))
next
  case work
  then show ?thesis by (rule shop_inv_work [OF inv])
next
  case (caller_steals v x xs)
  then show ?thesis using shop_inv_take [OF inv] by simp
qed (use inv in \<open>auto simp: shop_inv_def shop_ledger_def shop_stopping_def awake_def queued_items_def\<close>)

lemma shop_inv_init: "shop_init s \<Longrightarrow> shop_inv n s"
  by (simp add: shop_init_def shop_inv_def shop_ledger_def shop_stopping_def queued_items_def)

section \<open>The work comes to an end\<close>

text \<open>
  A token pays for the worker that it wakes and for the tokens of the two children in the wake tree, whose
  indices are larger.
\<close>

definition token_cost :: "nat \<Rightarrow> nat \<Rightarrow> nat" where
  "token_cost n w = 10 * 3 ^ (n - w)"

fun worker_cost :: "nat \<Rightarrow> nat \<Rightarrow> worker_pc \<Rightarrow> nat" where
  "worker_cost n w W_Own = 3" | "worker_cost n w W_Steal = 2" | "worker_cost n w W_Exit = 1"
| "worker_cost n w W_Propagate = 4 + 2 * token_cost n (Suc w)" | "worker_cost n w _ = 0"

definition stop_cost :: "nat \<Rightarrow> nat option \<Rightarrow> nat" where
  "stop_cost n k = (case k of None \<Rightarrow> 0 | Some k \<Rightarrow> (\<Sum>w\<in>{k..<n}. token_cost n w + 1))"

definition shop_amount :: "nat \<Rightarrow> shop_sys \<Rightarrow> nat" where
  "shop_amount n s = (\<Sum>w<n. 2 * length (queues s w)) + (\<Sum>w<n. notifying s w * (token_cost n w + 2))
     + (\<Sum>w<n. event_tokens s w * token_cost n w) + (\<Sum>w<n. worker_cost n w (wpc s w))
     + adding s + completing s + stop_cost n (stop_at s)"

lemma token_cost_le: "w \<le> v \<Longrightarrow> token_cost n v \<le> token_cost n w"
  unfolding token_cost_def by (intro mult_le_mono2 power_increasing) simp_all

lemma token_cost_ge: "10 \<le> token_cost n w"
  by (simp add: token_cost_def)

lemma token_cost_next: "w < n \<Longrightarrow> token_cost n w = 3 * token_cost n (Suc w)"
  by (simp add: token_cost_def flip: Suc_diff_Suc)

lemma token_cost_wake: "w < n \<Longrightarrow> worker_cost n w W_Propagate < token_cost n w"
  using token_cost_next [of w n] token_cost_ge [of n "Suc w"] by simp

lemma children_cost:
  "(\<Sum>v<n. of_bool (c \<and> (v = 2 * w + 1 \<or> v = 2 * w + 2) \<and> v < n) * token_cost n v) \<le> 2 * token_cost n (Suc w)"
proof -
  have "(\<Sum>v<n. of_bool (c \<and> (v = 2 * w + 1 \<or> v = 2 * w + 2) \<and> v < n) * token_cost n v)
      \<le> (\<Sum>v<n. (if v = 2 * w + 1 then token_cost n v else 0) + (if v = 2 * w + 2 then token_cost n v else 0))"
    by (rule sum_mono) auto
  also have "\<dots> \<le> token_cost n (2 * w + 1) + token_cost n (2 * w + 2)" by (simp add: sum.distrib)
  also have "\<dots> \<le> 2 * token_cost n (Suc w)"
    using token_cost_le [of "Suc w" "2 * w + 1" n] token_cost_le [of "Suc w" "2 * w + 2" n] by simp
  finally show ?thesis .
qed

lemma stop_cost_next: "w < n \<Longrightarrow> stop_cost n (Some w) = token_cost n w + 1 + stop_cost n (Some (w + 1))"
  by (simp add: stop_cost_def sum.atLeast_Suc_lessThan)

text \<open>What a step of one worker does to the sums.\<close>

lemma shop_amount_take:
  assumes "v < n" and "queues s v = x # xs"
  shows "shop_amount n (s\<lparr>queues := (queues s)(v := xs), executed := executed s @ [x], completing := completing s + 1\<rparr>)
    < shop_amount n s"
  using sum_fun_upd [OF assms(1), of "\<lambda>_ q. 2 * length q" "queues s" xs] assms(2) by (simp add: shop_amount_def)

lemma shop_amount_pc:
  assumes "w < n" and "worker_cost n w p < worker_cost n w (wpc s w)"
  shows "shop_amount n (s\<lparr>wpc := (wpc s)(w := p)\<rparr>) < shop_amount n s"
  using sum_fun_upd [OF assms(1), of "worker_cost n" "wpc s" p] assms(2) by (simp add: shop_amount_def)

lemma shop_amount_less:
  assumes inv: "shop_inv n s" and step: "shop_work n s s'"
  shows "shop_amount n s' < shop_amount n s"
  using step
proof cases
  case (notify w)
  have w: "w < n" using shop_inv_targets [OF inv, of w] notify(2) by (cases "w < n") simp_all
  then obtain k where k: "notifying s w = Suc k" using notify(2) by (cases "notifying s w") simp_all
  show ?thesis
    using sum_fun_upd [OF w, of "\<lambda>v k. k * (token_cost n v + 2)" "notifying s" k]
      sum_fun_upd [OF w, of "\<lambda>v k. k * token_cost n v" "event_tokens s" "event_tokens s w + 1"]
    by (simp add: shop_amount_def notify(1) k del: fun_upd_apply)
next
  case (own w x xs)
  then show ?thesis using shop_amount_take by simp
next
  case (steal w v x xs)
  then show ?thesis using shop_amount_take by simp
next
  case (wake w)
  then obtain k where k: "event_tokens s w = Suc k" by (cases "event_tokens s w") simp_all
  show ?thesis
    using sum_fun_upd [OF wake(2), of "\<lambda>v k. k * token_cost n v" "event_tokens s" k]
      sum_fun_upd [OF wake(2), of "worker_cost n" "wpc s" W_Propagate] token_cost_wake [OF wake(2)]
    by (simp add: shop_amount_def wake(1,3) k del: fun_upd_apply)
next
  case (propagate w)
  show ?thesis
    using sum_fun_upd [OF propagate(2), of "worker_cost n" "wpc s" W_Own] children_cost [where n = n and w = w and c = "work_items s \<noteq> 0"]
    by (simp add: shop_amount_def propagate(1,3) distrib_right sum.distrib del: fun_upd_apply)
next
  case (stop_notify w)
  show ?thesis
    using sum_fun_upd [OF stop_notify(3), of "\<lambda>v k. k * token_cost n v" "event_tokens s" "event_tokens s w + 1"]
      stop_cost_next [OF stop_notify(3)]
    by (simp add: shop_amount_def stop_notify(1,2) del: fun_upd_apply)
qed (simp_all add: shop_amount_pc, simp_all add: shop_amount_def)

interpretation shop_machine: draining_system shop_init "shop_step n" "shop_inv n" "shop_work n" "shop_amount n" for n
  by unfold_locales (auto intro: shop_inv_init shop_inv_step shop_step.work shop_amount_less)

section \<open>Theorems\<close>

definition shop_quiescent :: "nat \<Rightarrow> shop_sys \<Rightarrow> bool" where
  "shop_quiescent n s \<longleftrightarrow> (\<forall>w<n. wpc s w = W_Sleep \<and> event_tokens s w = 0 \<and> notifying s w = 0) \<and>
     adding s = 0 \<and> completing s = 0"

lemma shop_stuck:
  assumes inv: "shop_inv n s" and stuck: "\<forall>s'. \<not> shop_work n s s'"
  shows "notifying s w = 0" "adding s = 0" "completing s = 0" "stop_at s = Some k \<Longrightarrow> n \<le> k"
    and "w < n \<Longrightarrow> wpc s w = W_Sleep \<and> event_tokens s w = 0 \<or> wpc s w = W_Returned"
proof -
  show "notifying s w = 0" using stuck shop_work.notify [of s w n] by blast
  show "adding s = 0" using stuck shop_work.added [of s n] by blast
  show "completing s = 0" using stuck shop_work.completed [of s n] by blast
  show "n \<le> k" if "stop_at s = Some k" using stuck shop_work.stop_notify [OF that, of n] by (meson not_le)
  assume w: "w < n"
  show "wpc s w = W_Sleep \<and> event_tokens s w = 0 \<or> wpc s w = W_Returned"
  proof (cases "wpc s w")
    case W_Own
    then show ?thesis using stuck shop_work.own [OF w] shop_work.own_empty [OF w] by (cases "queues s w") blast+
  qed (use stuck shop_work.steal_fails [OF w] shop_work.exit_check [OF w] shop_work.wake [OF w] shop_work.propagate [OF w]
      in \<open>blast+\<close>)
qed

lemma shop_ran:
  assumes inv: "shop_inv n s"
  shows "distinct (executed s)" "set (executed s) \<subseteq> {..<submitted s}"
    and "shop_quiescent n s \<Longrightarrow> mset (executed s) = mset [0..<submitted s] \<and> work_items s = 0"
proof -
  from shop_inv_mset [OF inv] have p: "mset (executed s @ queued_items n s) = mset [0..<submitted s]" by simp
  have "distinct (executed s @ queued_items n s)" using mset_eq_imp_distinct_iff [OF p] by simp
  then show "distinct (executed s)" by simp
  have "set (executed s @ queued_items n s) = {..<submitted s}" using mset_eq_setD [OF p] by auto
  then show "set (executed s) \<subseteq> {..<submitted s}" by auto
  assume q: "shop_quiescent n s"
  have "queues s w = []" if "w < n" for w
    using shop_inv_awake [OF inv that] q that by (auto simp: shop_quiescent_def awake_def)
  then have "queued_items n s = []" by (simp add: queued_items_def)
  with p have e: "mset (executed s) = mset [0..<submitted s]" by simp
  then have "length (executed s) = submitted s" by (metis length_upt diff_zero mset_eq_length)
  with e shop_inv_ledger [OF inv] q show "mset (executed s) = mset [0..<submitted s] \<and> work_items s = 0"
    by (simp add: shop_ledger_def shop_quiescent_def)
qed

lemma shop_drained:
  assumes inv: "shop_inv n s" and stuck: "\<forall>s'. \<not> shop_work n s s'" "\<not> brexit s"
  shows "shop_quiescent n s" "mset (executed s) = mset [0..<submitted s]" "work_items s = 0"
proof -
  show "shop_quiescent n s"
    using shop_stuck [OF inv stuck(1)] stuck(2) shop_inv_stopping [OF inv] by (auto simp: shop_quiescent_def shop_stopping_def)
  with shop_ran(3) [OF inv] show "mset (executed s) = mset [0..<submitted s]" "work_items s = 0" by blast+
qed


definition shop_demo :: shop_sys where
  "shop_demo = \<lparr>queues = (\<lambda>_. []), event_tokens = (\<lambda>_. 0), wpc = (\<lambda>_. W_Own), notifying = (\<lambda>_. 0),
     adding = 0, completing = 0, work_items = 0, brexit = False, stop_at = None, submitted = 0, executed = []\<rparr>"

text \<open>One worker that has found nothing: it is about to read the exit flag, or asleep.\<close>

lemma shop_demo_reach:
  "reach shop_init (shop_step 1) shop_demo"
  "reach shop_init (shop_step 1) (shop_demo\<lparr>wpc := (\<lambda>_. W_Own)(0 := W_Exit)\<rparr>)"
  "reach shop_init (shop_step 1) (shop_demo\<lparr>wpc := (\<lambda>_. W_Own)(0 := W_Sleep)\<rparr>)"
proof -
  let ?at = "\<lambda>p. shop_demo\<lparr>wpc := (\<lambda>_. W_Own)(0 := p)\<rparr>"
  show 0: "reach shop_init (shop_step 1) shop_demo" by (rule reach.start) (simp add: shop_init_def shop_demo_def)
  moreover have "shop_work 1 shop_demo (?at W_Steal)"
    using shop_work.own_empty [of 0 1 shop_demo] by (simp add: shop_demo_def)
  ultimately have "reach shop_init (shop_step 1) (?at W_Steal)" by (blast intro: reach.move shop_step.work)
  moreover have "shop_work 1 (?at W_Steal) (?at W_Exit)" using shop_work.steal_fails [of 0 1 "?at W_Steal"] by simp
  ultimately show 1: "reach shop_init (shop_step 1) (?at W_Exit)" by (blast intro: reach.move shop_step.work)
  moreover have "shop_work 1 (?at W_Exit) (?at W_Sleep)"
    using shop_work.exit_check [of 0 1 "?at W_Exit"] by (simp add: shop_demo_def)
  ultimately show "reach shop_init (shop_step 1) (?at W_Sleep)" by (blast intro: reach.move shop_step.work)
qed




text \<open>A worker with nothing to do reads the exit flag after its last look at the queue. An item that is fired
  in between, in full, before the pool is stopped, is never executed: the worker returns without
  looking again.\<close>

theorem shutdown_drops_item:
  "\<exists>s s'. reach shop_init (shop_step 1) s \<and> \<not> brexit s \<and> submitted s = 1 \<and> notifying s 0 = 0 \<and> adding s = 0 \<and>
     shop_step 1 s (s\<lparr>brexit := True, stop_at := Some 0\<rparr>) \<and> (shop_work 1)\<^sup>*\<^sup>* (s\<lparr>brexit := True, stop_at := Some 0\<rparr>) s' \<and>
     (\<forall>s''. \<not> shop_work 1 s' s'') \<and> executed s' = []"
proof -
  let ?waiting = "shop_demo\<lparr>wpc := (\<lambda>_. W_Own)(0 := W_Exit)\<rparr>"
  let ?queued = "?waiting\<lparr>queues := (\<lambda>_. [])(0 := [0]), submitted := 1, notifying := (\<lambda>_. 0)(0 := 1)\<rparr>"
  let ?notified = "?waiting\<lparr>queues := (\<lambda>_. [])(0 := [0]), submitted := 1, event_tokens := (\<lambda>_. 0)(0 := 1), adding := 1\<rparr>"
  let ?fired = "?waiting\<lparr>queues := (\<lambda>_. [])(0 := [0]), submitted := 1, event_tokens := (\<lambda>_. 0)(0 := 1), work_items := 1\<rparr>"
  let ?stopping = "?fired\<lparr>brexit := True, stop_at := Some 0\<rparr>"
  let ?gone = "?stopping\<lparr>wpc := (\<lambda>_. W_Own)(0 := W_Returned)\<rparr>"
  let ?ended = "?gone\<lparr>event_tokens := (\<lambda>_. 0)(0 := 2), stop_at := Some 1\<rparr>"
  have "shop_step 1 ?waiting ?queued" using shop_step.fire [of 0 1 ?waiting] by (simp add: shop_demo_def)
  moreover have "shop_work 1 ?queued ?notified" using shop_work.notify [of ?queued 0 1] by (simp add: shop_demo_def fun_upd_idem)
  moreover have "shop_work 1 ?notified ?fired" using shop_work.added [of ?notified 1] by (simp add: shop_demo_def)
  ultimately have "reach shop_init (shop_step 1) ?fired"
    using shop_demo_reach(2) by (blast intro: reach.move shop_step.work)
  moreover have "shop_step 1 ?fired ?stopping" by (rule shop_step.stop) (simp add: shop_demo_def)
  moreover have "shop_work 1 ?stopping ?gone" using shop_work.exit_check [of 0 1 ?stopping] by simp
  moreover have "shop_work 1 ?gone ?ended" using shop_work.stop_notify [of ?gone 0 1] by (simp add: numeral_2_eq_2)
  ultimately have run: "reach shop_init (shop_step 1) ?fired" "shop_step 1 ?fired ?stopping"
      "(shop_work 1)\<^sup>*\<^sup>* ?stopping ?ended"
    by (auto intro: converse_rtranclp_into_rtranclp)
  have "\<forall>s''. \<not> shop_work 1 ?ended s''" by (auto simp: shop_demo_def elim!: shop_workE)
  with run show ?thesis by (intro exI [of _ ?fired] exI [of _ ?ended] conjI) (simp_all add: shop_demo_def)
qed

end
