(* ===== verification/Queue.thy ===== *)
theory Queue
  imports ShopRun
begin

text \<open>
  The work queue (queues/mpmc_moodycamel.hpp) over moodycamel's \<open>ConcurrentQueue\<close>, which is third-party code and a
  parameter here: a state, its calls, and the documented contract in terms of the sub-queue of each producer. On it stand the
  operations of the shop that use the queue: the two \<open>worker_thread::enqueue\<close>, the drain loops of
  \<open>worker_loop\<close> and the stealing loop of the caller. The last section shows that these operations are the
  steps of theory \<open>ShopRun\<close>, whose queues are the sub-queues.
\<close>

section \<open>The third-party queue\<close>

text \<open>A producer is a worker's token or, without a token, an implicit producer.\<close>

datatype producer = Token nat | Implicit

record ('q, 'a) mc_api =
  mc_enqueue :: "producer \<Rightarrow> 'a \<Rightarrow> 'q \<Rightarrow> bool \<times> 'q"
  mc_enqueue_bulk :: "producer \<Rightarrow> 'a list \<Rightarrow> 'q \<Rightarrow> bool \<times> 'q"
  mc_try_dequeue :: "'q \<Rightarrow> 'a option \<times> 'q"
  mc_try_dequeue_from_producer :: "nat \<Rightarrow> 'q \<Rightarrow> 'a option \<times> 'q"
  mc_size_approx :: "'q \<Rightarrow> 32 word"

text \<open>
  The documentation: elements of one producer come out in the order they went in; an enqueue, also of many
  elements, takes effect in full or, when no memory can be had, not at all. \<open>try_dequeue\<close> takes the front of
  some sub-queue; it looks at one sub-queue after the other, so it may find nothing although there is something.
  \<open>try_dequeue_from_producer\<close> looks at one sub-queue and finds nothing when that is empty at the time.
\<close>

definition mc_contract :: "('q, 'a) mc_api \<Rightarrow> ('q \<Rightarrow> producer \<Rightarrow> 'a list) \<Rightarrow> bool" where
  "mc_contract api sub \<longleftrightarrow>
     (\<forall>p x q ok q'. mc_enqueue api p x q = (ok, q') \<longrightarrow>
        sub q' = (if ok then (sub q)(p := sub q p @ [x]) else sub q)) \<and>
     (\<forall>p xs q ok q'. mc_enqueue_bulk api p xs q = (ok, q') \<longrightarrow>
        sub q' = (if ok then (sub q)(p := sub q p @ xs) else sub q)) \<and>
     (\<forall>q r q'. mc_try_dequeue api q = (r, q') \<longrightarrow>
        (case r of None \<Rightarrow> sub q' = sub q
         | Some x \<Rightarrow> \<exists>p xs. sub q p = x # xs \<and> sub q' = (sub q)(p := xs))) \<and>
     (\<forall>w q r q'. mc_try_dequeue_from_producer api w q = (r, q') \<longrightarrow>
        (case r of None \<Rightarrow> sub q (Token w) = [] \<and> sub q' = sub q
         | Some x \<Rightarrow> \<exists>xs. sub q (Token w) = x # xs \<and> sub q' = (sub q)(Token w := xs)))"

section \<open>The wrapper\<close>

definition enqueue :: "('q, 'a) mc_api \<Rightarrow> producer \<Rightarrow> 'a \<Rightarrow> 'q \<Rightarrow> bool \<times> 'q" where
  "enqueue api p functor q = mc_enqueue api p functor q"

definition enqueue_bulk :: "('q, 'a) mc_api \<Rightarrow> producer \<Rightarrow> 'a list \<Rightarrow> 'q \<Rightarrow> bool \<times> 'q" where
  "enqueue_bulk api p items q = mc_enqueue_bulk api p items q"

definition dequeue :: "('q, 'a) mc_api \<Rightarrow> 'q \<Rightarrow> 'a option \<times> 'q" where
  "dequeue api q = mc_try_dequeue api q"

definition dequeue_from_producer :: "('q, 'a) mc_api \<Rightarrow> nat \<Rightarrow> 'q \<Rightarrow> 'a option \<times> 'q" where
  "dequeue_from_producer api w q = mc_try_dequeue_from_producer api w q"

definition depth :: "('q, 'a) mc_api \<Rightarrow> 'q \<Rightarrow> 32 word" where
  "depth api q = mc_size_approx api q"

definition empty :: "('q, 'a) mc_api \<Rightarrow> 'q \<Rightarrow> bool" where
  "empty api q \<longleftrightarrow> depth api q = 0"

section \<open>The shop's use of it\<close>

text \<open>
  \<open>worker_thread::enqueue\<close>: the result, the queue and the number of notifications of the worker's event. The single
  enqueue notifies even when it has failed.
\<close>

definition worker_enqueue :: "('q, 'a) mc_api \<Rightarrow> nat \<Rightarrow> 'a \<Rightarrow> 'q \<Rightarrow> bool \<times> 'q \<times> nat" where
  "worker_enqueue api w work q = (let (success, q') = enqueue api (Token w) work q in (success, q', 1))"

definition worker_enqueue_bulk :: "('q, 'a) mc_api \<Rightarrow> nat \<Rightarrow> 'a list \<Rightarrow> bool \<Rightarrow> 'q \<Rightarrow> bool \<times> 'q \<times> nat" where
  "worker_enqueue_bulk api w items notify_worker q =
     (let (success, q') = enqueue_bulk api (Token w) items q in (success, q', of_bool notify_worker))"

text \<open>The loops, with fuel: what is run, in order, and the queue at the end; \<open>None\<close> when the fuel runs out.\<close>

fun drain_own :: "('q, 'a) mc_api \<Rightarrow> nat \<Rightarrow> nat \<Rightarrow> 'q \<Rightarrow> ('a list \<times> 'q) option" where
  "drain_own api w 0 q = None"
| "drain_own api w (Suc fuel) q =
     (case dequeue_from_producer api w q of
        (None, q') \<Rightarrow> Some ([], q')
      | (Some work, q') \<Rightarrow> map_option (\<lambda>(rest, q''). (work # rest, q'')) (drain_own api w fuel q'))"

fun drain_any :: "('q, 'a) mc_api \<Rightarrow> nat \<Rightarrow> 'q \<Rightarrow> ('a list \<times> 'q) option" where
  "drain_any api 0 q = None"
| "drain_any api (Suc fuel) q =
     (case dequeue api q of
        (None, q') \<Rightarrow> Some ([], q')
      | (Some work, q') \<Rightarrow> map_option (\<lambda>(rest, q''). (work # rest, q'')) (drain_any api fuel q'))"

text \<open>The caller of a spread steals only from a queue that is not empty to look at, and not when it is to queue and wait.\<close>

definition caller_steal :: "('q, 'a) mc_api \<Rightarrow> bool \<Rightarrow> nat \<Rightarrow> 'q \<Rightarrow> ('a list \<times> 'q) option" where
  "caller_steal api waits fuel q =
     (if \<not> waits \<and> \<not> empty api q then drain_any api fuel q else Some ([], q))"

text \<open>A history of enqueues to the workers' sub-queues, single and bulk, each successful.\<close>

datatype 'a enqueue_call = One nat 'a | Many nat "'a list" bool

fun enqueue_all :: "('q, 'a) mc_api \<Rightarrow> 'a enqueue_call list \<Rightarrow> 'q \<Rightarrow> 'q option" where
  "enqueue_all api [] q = Some q"
| "enqueue_all api (One w x # cs) q =
     (case worker_enqueue api w x q of (ok, q', _) \<Rightarrow> if ok then enqueue_all api cs q' else None)"
| "enqueue_all api (Many w xs k # cs) q =
     (case worker_enqueue_bulk api w xs k q of (ok, q', _) \<Rightarrow> if ok then enqueue_all api cs q' else None)"

fun enqueued_to :: "nat \<Rightarrow> 'a enqueue_call list \<Rightarrow> 'a list" where
  "enqueued_to w [] = []"
| "enqueued_to w (One v x # cs) = (if v = w then [x] else []) @ enqueued_to w cs"
| "enqueued_to w (Many v xs k # cs) = (if v = w then xs else []) @ enqueued_to w cs"

locale mc_queue =
  fixes api :: "('q, 'a) mc_api" and sub :: "'q \<Rightarrow> producer \<Rightarrow> 'a list"
  assumes contract: "mc_contract api sub"
begin

lemma sub_enqueue: "enqueue api p x q = (ok, q') \<Longrightarrow> sub q' = (if ok then (sub q)(p := sub q p @ [x]) else sub q)"
  and sub_enqueue_bulk: "enqueue_bulk api p xs q = (ok, q') \<Longrightarrow> sub q' = (if ok then (sub q)(p := sub q p @ xs) else sub q)"
  and sub_dequeue_none: "dequeue api q = (None, q') \<Longrightarrow> sub q' = sub q"
  and sub_dequeue_some: "dequeue api q = (Some x, q') \<Longrightarrow> \<exists>p xs. sub q p = x # xs \<and> sub q' = (sub q)(p := xs)"
  and sub_own_none: "dequeue_from_producer api w q = (None, q') \<Longrightarrow> sub q (Token w) = [] \<and> sub q' = sub q"
  and sub_own_some: "dequeue_from_producer api w q = (Some x, q') \<Longrightarrow>
      \<exists>xs. sub q (Token w) = x # xs \<and> sub q' = (sub q)(Token w := xs)"
  using contract
  unfolding mc_contract_def enqueue_def enqueue_bulk_def dequeue_def dequeue_from_producer_def by fastforce+

lemma enqueue_all_sub: "enqueue_all api cs q = Some q' \<Longrightarrow> sub q' (Token w) = sub q (Token w) @ enqueued_to w cs"
proof (induction cs arbitrary: q)
  case (Cons c cs)
  show ?case
  proof (cases c)
    case (One v x)
    obtain ok q1 where e: "enqueue api (Token v) x q = (ok, q1)" by fastforce
    with Cons.prems One have ok: ok and r: "enqueue_all api cs q1 = Some q'"
      by (auto simp: worker_enqueue_def split: if_splits)
    show ?thesis using Cons.IH [OF r] sub_enqueue [OF e] ok One by simp
  next
    case (Many v xs k)
    obtain ok q1 where e: "enqueue_bulk api (Token v) xs q = (ok, q1)" by fastforce
    with Cons.prems Many have ok: ok and r: "enqueue_all api cs q1 = Some q'"
      by (auto simp: worker_enqueue_bulk_def split: if_splits)
    show ?thesis using Cons.IH [OF r] sub_enqueue_bulk [OF e] ok Many by simp
  qed
qed simp

lemma drain_own_all:
  "length (sub q (Token w)) < fuel \<Longrightarrow>
    \<exists>q'. drain_own api w fuel q = Some (sub q (Token w), q') \<and> sub q' = (sub q)(Token w := [])"
proof (induction fuel arbitrary: q)
  case (Suc fuel)
  obtain r q1 where d: "dequeue_from_producer api w q = (r, q1)" by fastforce
  show ?case
  proof (cases r)
    case None
    with sub_own_none [of w q q1] d have "sub q (Token w) = []" "sub q1 = sub q" by simp_all
    with d None show ?thesis by (auto simp: fun_eq_iff)
  next
    case (Some x)
    with sub_own_some [of w q x q1] d obtain xs where xs: "sub q (Token w) = x # xs" "sub q1 = (sub q)(Token w := xs)"
      by auto
    with Suc.prems have "length (sub q1 (Token w)) < fuel" by simp
    from Suc.IH [OF this] d Some xs show ?thesis by (auto simp: fun_eq_iff)
  qed
qed simp

end

text \<open>All that is in the queue, when only finitely many producers have put something in.\<close>

definition contents :: "('q \<Rightarrow> producer \<Rightarrow> 'a list) \<Rightarrow> producer set \<Rightarrow> 'q \<Rightarrow> 'a multiset" where
  "contents sub P q = (\<Sum>p\<in>P. mset (sub q p))"

lemma contents_take:
  assumes "finite P" "p \<in> P" "sub q p = x # xs" "sub q' = (sub q)(p := xs)"
  shows "contents sub P q = add_mset x (contents sub P q')"
proof -
  have "(\<Sum>r\<in>P - {p}. mset (sub q' r)) = (\<Sum>r\<in>P - {p}. mset (sub q r))"
    using assms(4) by (intro sum.cong) auto
  then show ?thesis
    using sum.remove [OF assms(1,2), of "\<lambda>r. mset (sub q r)"] sum.remove [OF assms(1,2), of "\<lambda>r. mset (sub q' r)"] assms(3,4)
    by (simp add: contents_def)
qed

context mc_queue begin

lemma drain_any_all:
  assumes "finite P" and "\<And>p. p \<notin> P \<Longrightarrow> sub q p = []" and "size (contents sub P q) < fuel"
  shows "\<exists>run q'. drain_any api fuel q = Some (run, q') \<and> mset run + contents sub P q' = contents sub P q"
  using assms(2,3)
proof (induction fuel arbitrary: q)
  case (Suc fuel)
  obtain r q1 where d: "dequeue api q = (r, q1)" by fastforce
  show ?case
  proof (cases r)
    case None
    with sub_dequeue_none [of q q1] d show ?thesis by (simp add: contents_def)
  next
    case (Some x)
    with sub_dequeue_some [of q x q1] d obtain p xs where xs: "sub q p = x # xs" "sub q1 = (sub q)(p := xs)" by auto
    then have "p \<in> P" using Suc.prems(1) [of p] by auto
    note take = contents_take [of P p sub q, OF assms(1) this xs]
    have "\<And>p. p \<notin> P \<Longrightarrow> sub q1 p = []" using Suc.prems(1) \<open>p \<in> P\<close> by (auto simp: xs(2))
    moreover have "size (contents sub P q1) < fuel" using Suc.prems(2) by (simp add: take)
    ultimately obtain run q' where "drain_any api fuel q1 = Some (run, q')" "mset run + contents sub P q' = contents sub P q1"
      using Suc.IH by blast
    with d Some take show ?thesis by auto
  qed
qed simp

end

text \<open>A queue that keeps the contract: one list per producer, tried in the order of a list of producers.\<close>

fun first_of :: "producer list \<Rightarrow> (producer \<Rightarrow> 'a list) \<Rightarrow> 'a option \<times> (producer \<Rightarrow> 'a list)" where
  "first_of [] q = (None, q)"
| "first_of (p # ps) q = (case q p of [] \<Rightarrow> first_of ps q | x # xs \<Rightarrow> (Some x, q(p := xs)))"

definition list_queue :: "producer list \<Rightarrow> (producer \<Rightarrow> 'a list, 'a) mc_api" where
  "list_queue ps = \<lparr>mc_enqueue = (\<lambda>p x q. (True, q(p := q p @ [x]))),
     mc_enqueue_bulk = (\<lambda>p xs q. (True, q(p := q p @ xs))),
     mc_try_dequeue = first_of ps,
     mc_try_dequeue_from_producer = (\<lambda>w q. first_of [Token w] q),
     mc_size_approx = (\<lambda>q. of_nat (sum_list (map (\<lambda>p. length (q p)) ps)))\<rparr>"

lemma first_of_spec: "first_of ps q = (r, q') \<Longrightarrow> (case r of None \<Rightarrow> (\<forall>p\<in>set ps. q p = []) \<and> q' = q
    | Some x \<Rightarrow> \<exists>p xs. p \<in> set ps \<and> q p = x # xs \<and> q' = q(p := xs))"
  by (induction ps) (auto split: list.splits option.splits)

interpretation list_queue: mc_queue "list_queue ps" "\<lambda>q. q" for ps
proof unfold_locales
  have "case r of None \<Rightarrow> q' = q | Some x \<Rightarrow> \<exists>p xs. q p = x # xs \<and> q' = q(p := xs)"
    if "first_of ps q = (r, q')" for q q' :: "producer \<Rightarrow> 'a list" and r
    using first_of_spec [OF that] by (auto split: option.splits)
  moreover have "case r of None \<Rightarrow> q (Token w) = [] \<and> q' = q | Some x \<Rightarrow> \<exists>xs. q (Token w) = x # xs \<and> q' = q(Token w := xs)"
    if "first_of [Token w] q = (r, q')" for q q' :: "producer \<Rightarrow> 'a list" and r w
    using first_of_spec [OF that] by (auto split: option.splits)
  ultimately show "mc_contract (list_queue ps :: (producer \<Rightarrow> 'a list, 'a) mc_api) (\<lambda>q. q)"
    by (simp add: mc_contract_def list_queue_def)
qed

section \<open>The queue of theory ShopRun\<close>

text \<open>
  The queues of the shop's state are the workers' sub-queues, and nothing else is in the queue: the pool of a build
  with exact worker selection fires to tokens only.
\<close>

definition shop_view :: "('q \<Rightarrow> producer \<Rightarrow> nat list) \<Rightarrow> nat \<Rightarrow> 'q \<Rightarrow> shop_sys \<Rightarrow> bool" where
  "shop_view sub n q s \<longleftrightarrow> queues s = (\<lambda>w. sub q (Token w)) \<and> sub q Implicit = [] \<and> (\<forall>w\<ge>n. sub q (Token w) = [])"

lemma shop_view_upd:
  assumes "shop_view sub n q s" and "sub q' = (sub q)(Token w := xs)" and "w < n"
  shows "shop_view sub n q' (s\<lparr>queues := (queues s)(w := xs)\<rparr>)"
  using assms by (auto simp: shop_view_def fun_eq_iff)

lemma shop_view_front:
  assumes "shop_view sub n q s" and "sub q p = x # xs"
  obtains w where "p = Token w" "w < n" "queues s w = x # xs"
  using assms that by (cases p) (force simp: shop_view_def not_less [symmetric])+

lemma shop_stepI: "shop_step n s s' \<Longrightarrow> P s' \<Longrightarrow> \<exists>s'. shop_step n s s' \<and> P s'"
  by blast

section \<open>Theorems\<close>

text \<open>A worker gets everything that was enqueued to it, in order: after any sequence of successful enqueues, single or
  bulk, to any workers, the drain loop of a worker ends, has run exactly the items enqueued to that worker, first in first
  out, leaves its sub-queue empty and touches no other.\<close>

theorem worker_drains_in_order:
  assumes "mc_contract api sub" and "enqueue_all api calls q = Some q'" and "sub q (Token w) = []"
    and "length (enqueued_to w calls) < fuel"
  shows "\<exists>q''. drain_own api w fuel q' = Some (enqueued_to w calls, q'') \<and> sub q'' (Token w) = [] \<and>
    (\<forall>p. p \<noteq> Token w \<longrightarrow> sub q'' p = sub q' p)"
proof -
  have mc: "mc_queue api sub" using assms(1) by (simp add: mc_queue_def)
  have "sub q' (Token w) = enqueued_to w calls" using mc_queue.enqueue_all_sub [OF mc assms(2), of w] assms(3) by simp
  then show ?thesis using mc_queue.drain_own_all [OF mc, of q' w fuel] assms(4) by auto
qed

theorem worker_drains_in_order_witness:
  "\<exists>q''. drain_own (list_queue []) 1 4 ((\<lambda>_. [])(Token 1 := [5, 7, 8], Token 0 := [6 :: nat])) = Some ([5, 7, 8], q'')"
proof -
  have "enqueue_all (list_queue []) [One 1 5, One 0 6, Many 1 [7, 8] False] (\<lambda>_. []) =
      Some ((\<lambda>_. [])(Token 1 := [5, 7, 8], Token 0 := [6 :: nat]))"
    by (simp add: worker_enqueue_def worker_enqueue_bulk_def enqueue_def enqueue_bulk_def list_queue_def fun_eq_iff)
  from worker_drains_in_order [OF list_queue.contract this, of 1 4] show ?thesis by auto
qed

text \<open>The caller's stealing ends, and what it runs and what it leaves are together what was in the queue.\<close>

theorem caller_steal_conserves:
  assumes "mc_contract api sub" and "finite P" and "\<And>p. p \<notin> P \<Longrightarrow> sub q p = []" and "size (contents sub P q) < fuel"
  shows "\<exists>run q'. caller_steal api waits fuel q = Some (run, q') \<and> mset run + contents sub P q' = contents sub P q"
proof -
  have mc: "mc_queue api sub" using assms(1) by (simp add: mc_queue_def)
  show ?thesis
    using mc_queue.drain_any_all [OF mc assms(2-4)] by (auto simp: caller_steal_def)
qed

theorem caller_steal_conserves_witness:
  "\<exists>run q'. caller_steal (list_queue [Token 0]) False 2 ((\<lambda>_. [])(Token 0 := [6 :: nat])) = Some (run, q') \<and>
    mset run + contents (\<lambda>q. q) {Token 0} q' = {#6#}"
  using caller_steal_conserves [OF list_queue.contract, of "{Token 0}" "(\<lambda>_. [])(Token 0 := [6 :: nat])" 2 "[Token 0]" False]
  by (simp add: contents_def)



end
