(* ===== verification/ThreadHandles.thy ===== *)
theory ThreadHandles
  imports Thread "HOL-Library.Multiset"
begin

text \<open>
  The life of the threads behind the thread objects of threading/thread.hpp: the platform's
  create, join, detach and affinity calls (threading/posix/thread.cpp, threading/windows/thread.hpp) with their checks, and
  every sequence of operations on a store of thread objects, with what becomes of the threads they start.
\<close>

section \<open>The platform's calls\<close>

text \<open>
  The results of the system's calls are arguments. \<open>None\<close> is a failed check of a debug build; otherwise a failure is
  ignored and the handle is cleared all the same.
\<close>

definition posix_join :: "bool \<Rightarrow> bool \<Rightarrow> nat \<Rightarrow> threads \<Rightarrow> threads option" where
  "posix_join debug pthread_join_ok this h = (if debug \<and> \<not> pthread_join_ok then None else Some (h(this := None)))"

definition posix_detach :: "bool \<Rightarrow> bool \<Rightarrow> nat \<Rightarrow> threads \<Rightarrow> threads option" where
  "posix_detach debug pthread_detach_ok this h = (if debug \<and> \<not> pthread_detach_ok then None else Some (h(this := None)))"

definition win32_detach :: "bool \<Rightarrow> bool \<Rightarrow> nat \<Rightarrow> threads \<Rightarrow> threads option" where
  "win32_detach debug close_ok this h = (if debug \<and> \<not> close_ok then None else Some (h(this := None)))"

definition win32_join :: "bool \<Rightarrow> bool \<Rightarrow> bool \<Rightarrow> nat \<Rightarrow> bool \<Rightarrow> nat \<Rightarrow> threads \<Rightarrow> threads option" where
  "win32_join debug wait_ok exit_code_ok exit_code close_ok this h =
     (if debug \<and> (\<not> wait_ok \<or> \<not> exit_code_ok \<or> exit_code \<noteq> 0) then None else win32_detach debug close_ok this h)"

text \<open>\<open>thread_impl::create\<close>: the error code, zero for none, and the handles. \<open>EAGAIN\<close> is 11 on Linux.\<close>

definition posix_create :: "nat + nat \<Rightarrow> nat \<Rightarrow> threads \<Rightarrow> nat \<times> threads" where
  "posix_create pthread_create_result this h =
     (case pthread_create_result of Inl error \<Rightarrow> (error, h(this := None)) | Inr handle \<Rightarrow> (0, h(this := Some handle)))"

definition win32_create :: "nat option \<Rightarrow> nat \<Rightarrow> threads \<Rightarrow> nat \<times> threads" where
  "win32_create create_thread_result this h =
     (let h' = h(this := create_thread_result) in if create_thread_result = None then (8, h') else (0, h'))"

text \<open>\<open>thread::create\<close> over either: the exception or the handles.\<close>

definition create_checked :: "nat \<times> threads \<Rightarrow> string + threads" where
  "create_checked r = (case r of (error, h) \<Rightarrow>
     if error \<noteq> 0 then Inl ''Not enough resources to create a new thread'' else Inr h)"

text \<open>\<open>thread::join\<close> adds the checks that there is a thread and that it is not the calling one.\<close>

definition thread_join :: "bool \<Rightarrow> nat \<Rightarrow> bool \<Rightarrow> nat \<Rightarrow> threads \<Rightarrow> threads option" where
  "thread_join debug active_thread join_ok this h =
     (if debug \<and> (\<not> joinable (h this) \<or> h this = Some active_thread) then None else posix_join debug join_ok this h)"

text \<open>Affinity: by handle only on Apple and Windows, by kernel thread id only on Linux.\<close>

datatype os = Linux | Apple | Windows | Other_Os

definition bind_by_handle :: "os \<Rightarrow> bool \<Rightarrow> bool" where
  "bind_by_handle os policy_set \<longleftrightarrow> (os = Apple \<or> os = Windows) \<and> policy_set"

definition bind_by_id :: "os \<Rightarrow> bool \<Rightarrow> bool" where
  "bind_by_id os affinity_set \<longleftrightarrow> os = Linux \<and> affinity_set"

section \<open>Sequences of operations\<close>

datatype thread_op =
    Start_Thread nat "nat option"           \<comment> \<open>the handle of the new thread, if it could be created\<close>
  | Move_Thread nat nat
  | Assign_Thread nat nat
  | Swap_Threads nat nat
  | Join_Thread nat
  | Detach_Thread nat
  | Destroy_Thread nat

record thread_sys =
  objects :: threads
  running :: "nat multiset"          \<comment> \<open>started threads, all of them\<close>
  finished :: "nat multiset"         \<comment> \<open>joined or detached\<close>
  lost :: "nat multiset"             \<comment> \<open>handles that were overwritten\<close>

definition held :: "nat option \<Rightarrow> nat multiset" where
  "held handle = (case handle of None \<Rightarrow> {#} | Some h \<Rightarrow> {#h#})"

fun thread_apply :: "thread_op \<Rightarrow> thread_sys \<Rightarrow> thread_sys" where
  "thread_apply (Start_Thread this started) s =
     (case create_thread this started (objects s) of
        Inl _ \<Rightarrow> s
      | Inr h \<Rightarrow> s\<lparr>objects := h, running := running s + held (h this)\<rparr>)"
| "thread_apply (Move_Thread this other) s = s\<lparr>objects := move_construct this other (objects s)\<rparr>"
| "thread_apply (Assign_Thread this other) s =
     s\<lparr>objects := move_assign this other (objects s), lost := lost s + held (objects s this)\<rparr>"
| "thread_apply (Swap_Threads this other) s = s\<lparr>objects := swap_threads this other (objects s)\<rparr>"
| "thread_apply (Join_Thread this) s =
     s\<lparr>objects := join_thread this (objects s), finished := finished s + held (objects s this)\<rparr>"
| "thread_apply (Detach_Thread this) s =
     s\<lparr>objects := (objects s)(this := None), finished := finished s + held (objects s this)\<rparr>"
| "thread_apply (Destroy_Thread this) s = s"

text \<open>
  What is asserted, or needed of the caller: objects are among the \<open>n\<close> of the store, a construction takes a
  fresh one, a start an empty one, a join or a detach a joinable one; a thread is destroyed only when it is not.
  Nothing is asserted of the target of an assignment.
\<close>

fun thread_op_ok :: "nat \<Rightarrow> thread_op \<Rightarrow> thread_sys \<Rightarrow> bool" where
  "thread_op_ok n (Start_Thread this started) s \<longleftrightarrow> this < n \<and> \<not> joinable (objects s this)"
| "thread_op_ok n (Move_Thread this other) s \<longleftrightarrow>
     this < n \<and> other < n \<and> this \<noteq> other \<and> \<not> joinable (objects s this)"
| "thread_op_ok n (Assign_Thread this other) s \<longleftrightarrow> this < n \<and> other < n"
| "thread_op_ok n (Swap_Threads this other) s \<longleftrightarrow> this < n \<and> other < n"
| "thread_op_ok n (Join_Thread this) s \<longleftrightarrow> this < n \<and> joinable (objects s this)"
| "thread_op_ok n (Detach_Thread this) s \<longleftrightarrow> this < n \<and> joinable (objects s this)"
| "thread_op_ok n (Destroy_Thread this) s \<longleftrightarrow> this < n \<and> \<not> joinable (objects s this)"

fun thread_run :: "nat \<Rightarrow> thread_op list \<Rightarrow> thread_sys \<Rightarrow> thread_sys option" where
  "thread_run n [] s = Some s"
| "thread_run n (op # ops) s = (if thread_op_ok n op s then thread_run n ops (thread_apply op s) else None)"

definition no_threads :: thread_sys where
  "no_threads = \<lparr>objects = (\<lambda>_. None), running = {#}, finished = {#}, lost = {#}\<rparr>"

definition in_objects :: "nat \<Rightarrow> threads \<Rightarrow> nat multiset" where
  "in_objects n h = (\<Sum>i<n. held (h i))"

definition accounted :: "nat \<Rightarrow> thread_sys \<Rightarrow> bool" where
  "accounted n s \<longleftrightarrow> running s = in_objects n (objects s) + finished s + lost s"

lemma in_objects_upd:
  assumes "i < n"
  shows "in_objects n (h(i := x)) + held (h i) = in_objects n h + held x"
proof -
  have i: "finite {..<n}" "i \<in> {..<n}" using assms by simp_all
  have "(\<Sum>j\<in>{..<n} - {i}. held ((h(i := x)) j)) = (\<Sum>j\<in>{..<n} - {i}. held (h j))" by (intro sum.cong) auto
  then show ?thesis
    using sum.remove [OF i, of "\<lambda>j. held (h j)"] sum.remove [OF i, of "\<lambda>j. held ((h(i := x)) j)"]
    by (simp add: in_objects_def ac_simps)
qed

lemma in_objects_clear: "i < n \<Longrightarrow> in_objects n (h(i := None)) + held (h i) = in_objects n h"
  using in_objects_upd [of i n h None] by (simp add: held_def)

lemma in_objects_two:
  assumes "i < n" "j < n" "i \<noteq> j"
  shows "in_objects n (h(i := x, j := y)) + held (h i) + held (h j) = in_objects n h + held x + held y"
  using in_objects_upd [OF assms(1), of h x] in_objects_upd [OF assms(2), of "h(i := x)" y] assms(3)
  by (simp add: ac_simps)

lemma not_joinable: "\<not> joinable h \<Longrightarrow> held h = {#}"
  by (simp add: joinable_def held_def)

lemma in_objects_move:
  assumes "this < n" "other < n" "this \<noteq> other"
  shows "in_objects n (h(this := h other, other := None)) + held (h this) = in_objects n h"
  using in_objects_two [OF assms, of h "h other" None] by (simp add: held_def ac_simps)

lemma in_objects_swap:
  assumes "this < n" "other < n"
  shows "in_objects n (swap_threads this other h) = in_objects n h"
proof (cases "this = other")
  case False
  have "in_objects n (h(this := h other, other := h this)) + (held (h this) + held (h other)) =
      in_objects n h + (held (h this) + held (h other))"
    using in_objects_two [OF assms False, of h "h other" "h this"] by (simp add: ac_simps)
  then show ?thesis by (simp add: swap_threads_def)
qed (simp add: swap_threads_def)

lemma accounted_apply:
  assumes acc: "accounted n s" and ok: "thread_op_ok n op s"
  shows "accounted n (thread_apply op s)"
proof (cases op)
  case (Start_Thread this started)
  then show ?thesis
    using acc ok in_objects_upd [of this n "objects s" started] not_joinable [of "objects s this"]
    by (cases started) (auto simp: accounted_def create_thread_def ac_simps)
next
  case (Move_Thread this other)
  then have "move_construct this other (objects s) = (objects s)(this := objects s other, other := None)"
    using ok by (auto simp: move_construct_def swap_threads_def)
  then show ?thesis
    using Move_Thread acc ok in_objects_move [of this n other "objects s"] not_joinable [of "objects s this"]
    by (simp add: accounted_def)
next
  case (Assign_Thread this other)
  show ?thesis
  proof (cases "this = other")
    case True
    then have "move_assign this other (objects s) = (objects s)(this := None)" by (simp add: move_assign_def)
    then show ?thesis
      using Assign_Thread acc ok in_objects_clear [of this n "objects s"] by (simp add: accounted_def ac_simps)
  next
    case False
    then show ?thesis
      using Assign_Thread acc ok in_objects_move [of this n other "objects s"]
      by (simp add: accounted_def move_assign_def Let_def ac_simps)
  qed
next
  case (Swap_Threads this other)
  then show ?thesis using acc ok by (simp add: accounted_def in_objects_swap)
next
  case (Join_Thread this)
  then show ?thesis
    using acc ok in_objects_clear [of this n "objects s"] by (simp add: accounted_def join_thread_def ac_simps)
next
  case (Detach_Thread this)
  then show ?thesis
    using acc ok in_objects_clear [of this n "objects s"] by (simp add: accounted_def ac_simps)
qed (use acc in simp)

lemma accounted_run: "thread_run n ops s = Some s' \<Longrightarrow> accounted n s \<Longrightarrow> accounted n s'"
  by (induction ops arbitrary: s) (auto simp: accounted_apply split: if_splits)

text \<open>No assignment hits an object that still has a thread.\<close>

fun careful :: "thread_op list \<Rightarrow> thread_sys \<Rightarrow> bool" where
  "careful [] s \<longleftrightarrow> True"
| "careful (op # ops) s \<longleftrightarrow>
     (\<forall>this other. op = Assign_Thread this other \<longrightarrow> \<not> joinable (objects s this)) \<and> careful ops (thread_apply op s)"

lemma careful_run: "thread_run n ops s = Some s' \<Longrightarrow> careful ops s \<Longrightarrow> lost s' = lost s"
proof (induction ops arbitrary: s)
  case (Cons op ops)
  have "lost (thread_apply op s) = lost s"
    using Cons.prems(2) by (cases op) (auto simp: not_joinable split: sum.splits)
  with Cons show ?case by (auto split: if_splits)
qed simp

lemma started_free: "accounted n no_threads"
  by (simp add: accounted_def no_threads_def in_objects_def held_def)

section \<open>Theorems\<close>

text \<open>C26. No thread is forgotten: whatever is done with thread objects, every started thread is held by
  exactly one object, has been joined or detached, once, or was lost when its object was assigned to. As long as
  nothing is assigned to an object that has a thread, none is lost, and once the objects can be destroyed every thread
  that was started has been joined or detached. The assignment does not check its target: there is a run without any
  failed check, up to the destruction of all objects, in which a thread is neither joined nor detached.\<close>

theorem threads_accounted:
  assumes "thread_run n ops no_threads = Some s"
  shows "running s = in_objects n (objects s) + finished s + lost s \<and>
    (careful ops no_threads \<longrightarrow> lost s = {#}) \<and>
    (careful ops no_threads \<and> (\<forall>i<n. thread_op_ok n (Destroy_Thread i) s) \<longrightarrow> finished s = running s) \<and>
    (\<exists>s'. thread_run 2 [Start_Thread 0 (Some 7), Start_Thread 1 (Some 8), Assign_Thread 0 1, Join_Thread 0,
        Destroy_Thread 0, Destroy_Thread 1] no_threads = Some s' \<and> lost s' = {#7#} \<and> finished s' = {#8#})"
proof -
  have acc: "running s = in_objects n (objects s) + finished s + lost s"
    using accounted_run [OF assms started_free] by (simp add: accounted_def)
  have lost: "lost s = {#}" if "careful ops no_threads"
    using careful_run [OF assms that] by (simp add: no_threads_def)
  have "in_objects n (objects s) = {#}" if "\<forall>i<n. thread_op_ok n (Destroy_Thread i) s"
    using that not_joinable by (simp add: in_objects_def)
  moreover have "\<exists>s'. thread_run 2 [Start_Thread 0 (Some 7), Start_Thread 1 (Some 8), Assign_Thread 0 1, Join_Thread 0,
        Destroy_Thread 0, Destroy_Thread 1] no_threads = Some s' \<and> lost s' = {#7#} \<and> finished s' = {#8#}"
    by (simp add: no_threads_def create_thread_def join_thread_def move_assign_def joinable_def held_def)
  ultimately show ?thesis using acc lost by auto
qed

theorem threads_accounted_witness:
  "thread_run 2 [Start_Thread 0 (Some 7), Move_Thread 1 0, Join_Thread 1] no_threads =
     Some \<lparr>objects = (\<lambda>_. None), running = {#7#}, finished = {#7#}, lost = {#}\<rparr> \<and>
   in_objects 2 (\<lambda>_. None) = {#}"
proof -
  have r: "thread_run 2 [Start_Thread 0 (Some 7), Move_Thread 1 0, Join_Thread 1] no_threads =
     Some \<lparr>objects = (\<lambda>_. None), running = {#7#}, finished = {#7#}, lost = {#}\<rparr>"
    by (simp add: no_threads_def create_thread_def join_thread_def move_construct_def swap_threads_def joinable_def
        held_def fun_eq_iff)
  from threads_accounted [OF this] r show ?thesis by simp
qed

text \<open>A failed creation throws and leaves the object without a thread, on both platforms; a join in a debug build goes
  through only for another thread that can be joined, and clears the handle.\<close>

theorem create_and_join_checked:
  "(error \<noteq> 0 \<longrightarrow> create_checked (posix_create (Inl error) this h) = Inl ''Not enough resources to create a new thread'' \<and>
      \<not> joinable (snd (posix_create (Inl error) this h) this)) \<and>
   create_checked (win32_create None this h) = Inl ''Not enough resources to create a new thread'' \<and>
   create_checked (posix_create (Inr handle) this h) = Inr (h(this := Some handle)) \<and>
   create_checked (win32_create (Some handle) this h) = Inr (h(this := Some handle)) \<and>
   (thread_join True active ok this h = Some h' \<longrightarrow> (\<exists>x. h this = Some x \<and> x \<noteq> active) \<and> ok \<and> h' = join_thread this h) \<and>
   (win32_join True wait_ok exit_ok code close_ok this h = Some h' \<longrightarrow>
      wait_ok \<and> exit_ok \<and> code = 0 \<and> close_ok \<and> h' = join_thread this h)"
  by (auto simp: create_checked_def posix_create_def win32_create_def joinable_def thread_join_def posix_join_def
      win32_join_def win32_detach_def join_thread_def split: if_splits)

end
