(* ===== verification/SharedPool.thy ===== *)
theory SharedPool
  imports ShopRun
begin

text \<open>
  The generic shop without exact worker selection, and on Android versions whose thread signals are slow
  (impls/generic.cpp): one queue and one semaphore, \<open>work_semaphore_\<close>, for all workers. Fired items and the
  items of spreads go through it; the pool is stopped by as many signals as there are workers. A semaphore is
  the token count that theories \<open>Semaphore\<close> and \<open>CondvarSemaphore\<close> establish for it. The counter
  \<open>work_items_\<close> has the width of the source.
\<close>

section \<open>The machine\<close>

text \<open>
  A dequeue looks at one sub-queue after the other. By its documentation it fails only when each appeared
  empty when it was looked at: so every item that was there when the dequeue began is gone, while
  items that came since may have been missed.
\<close>

datatype drain_pc = D_Drain | D_Scan "nat set" | D_Exit | D_Sleep | D_Returned

record 'hc shared_pool =
  pool_queue :: "nat multiset"              \<comment> \<open>item numbers\<close>
  pool_tokens :: nat                        \<comment> \<open>\<open>work_semaphore_\<close>\<close>
  pool_pc :: "nat \<Rightarrow> drain_pc"
  pool_signals :: "(nat \<times> nat) multiset"   \<comment> \<open>producers about to signal: tokens, and items to count afterwards\<close>
  pool_adding :: nat                        \<comment> \<open>producers about to call \<open>work_added\<close>\<close>
  pool_bulks :: "nat multiset"              \<comment> \<open>spreads that have counted their items and not yet enqueued them\<close>
  pool_completing :: nat                    \<comment> \<open>items run and not yet \<open>work_completed\<close>\<close>
  pool_items :: 'hc                         \<comment> \<open>\<open>work_items_\<close>\<close>
  pool_brexit :: bool
  pool_submitted :: nat
  pool_executed :: "nat list"
  pool_leaked :: nat                        \<comment> \<open>items counted by spreads whose enqueue failed\<close>

definition pool_init :: "'h::len word shared_pool \<Rightarrow> bool" where
  "pool_init s \<longleftrightarrow> pool_queue s = {#} \<and> pool_tokens s = 0 \<and> pool_pc s = (\<lambda>_. D_Drain) \<and> pool_signals s = {#} \<and>
     pool_adding s = 0 \<and> pool_bulks s = {#} \<and> pool_completing s = 0 \<and> pool_items s = 0 \<and> \<not> pool_brexit s \<and>
     pool_submitted s = 0 \<and> pool_executed s = [] \<and> pool_leaked s = 0"

text \<open>
  The signal of a spread of \<open>k\<close> items: one for each item where thread signals are slow, otherwise
  \<open>wake_all_workers\<close>.
\<close>

definition bulk_signal :: "bool \<Rightarrow> nat \<Rightarrow> nat \<Rightarrow> nat" where
  "bulk_signal slow n k = (if slow then k else n)"

definition take_item :: "nat \<Rightarrow> 'hc shared_pool \<Rightarrow> 'hc shared_pool" where
  "take_item x s = s\<lparr>pool_queue := pool_queue s - {#x#}, pool_executed := pool_executed s @ [x],
     pool_completing := pool_completing s + 1\<rparr>"

inductive pool_work :: "bool \<Rightarrow> nat \<Rightarrow> 'h::len word shared_pool \<Rightarrow> 'h word shared_pool \<Rightarrow> bool" for slow n where
  scan: "w < n \<Longrightarrow> pool_pc s w = D_Drain \<Longrightarrow>
    pool_work slow n s (s\<lparr>pool_pc := (pool_pc s)(w := D_Scan (set_mset (pool_queue s)))\<rparr>)"
| found: "w < n \<Longrightarrow> pool_pc s w = D_Scan S \<Longrightarrow> x \<in># pool_queue s \<Longrightarrow>
    pool_work slow n s (take_item x (s\<lparr>pool_pc := (pool_pc s)(w := D_Drain)\<rparr>))"
| not_found: "w < n \<Longrightarrow> pool_pc s w = D_Scan S \<Longrightarrow> S \<inter> set_mset (pool_queue s) = {} \<Longrightarrow>
    pool_work slow n s (s\<lparr>pool_pc := (pool_pc s)(w := D_Exit)\<rparr>)"
| exit_check: "w < n \<Longrightarrow> pool_pc s w = D_Exit \<Longrightarrow>
    pool_work slow n s (s\<lparr>pool_pc := (pool_pc s)(w := if pool_brexit s then D_Returned else D_Sleep)\<rparr>)"
| wait: "w < n \<Longrightarrow> pool_pc s w = D_Sleep \<Longrightarrow> 0 < pool_tokens s \<Longrightarrow>
    pool_work slow n s (s\<lparr>pool_pc := (pool_pc s)(w := D_Drain), pool_tokens := pool_tokens s - 1\<rparr>)"
| completed: "0 < pool_completing s \<Longrightarrow>
    pool_work slow n s (s\<lparr>pool_completing := pool_completing s - 1, pool_items := pool_items s - 1\<rparr>)"
| signal: "(a, b) \<in># pool_signals s \<Longrightarrow>
    pool_work slow n s (s\<lparr>pool_signals := pool_signals s - {#(a, b)#}, pool_tokens := pool_tokens s + a,
      pool_adding := pool_adding s + b\<rparr>)"
| added: "0 < pool_adding s \<Longrightarrow>
    pool_work slow n s (s\<lparr>pool_adding := pool_adding s - 1, pool_items := pool_items s + 1\<rparr>)"
| bulk_enqueue: "k \<in># pool_bulks s \<Longrightarrow>
    pool_work slow n s (s\<lparr>pool_bulks := pool_bulks s - {#k#},
      pool_queue := pool_queue s + mset [pool_submitted s..<pool_submitted s + k],
      pool_submitted := pool_submitted s + k, pool_signals := add_mset (bulk_signal slow n k, 0) (pool_signals s)\<rparr>)"
| bulk_fails: "k \<in># pool_bulks s \<Longrightarrow>
    pool_work slow n s (s\<lparr>pool_bulks := pool_bulks s - {#k#}, pool_leaked := pool_leaked s + k\<rparr>)"

inductive pool_step :: "bool \<Rightarrow> nat \<Rightarrow> 'h::len word shared_pool \<Rightarrow> 'h word shared_pool \<Rightarrow> bool" for slow n where
  work: "pool_work slow n s s' \<Longrightarrow> pool_step slow n s s'"
| fire: "pool_step slow n s (s\<lparr>pool_queue := add_mset (pool_submitted s) (pool_queue s),
    pool_submitted := pool_submitted s + 1, pool_signals := add_mset (1, 1) (pool_signals s)\<rparr>)"
| fire_fails: "pool_step slow n s (s\<lparr>pool_signals := add_mset (1, 0) (pool_signals s)\<rparr>)"
| spread: "0 < k \<Longrightarrow> pool_step slow n s (s\<lparr>pool_items := pool_items s + of_nat k, pool_bulks := add_mset k (pool_bulks s)\<rparr>)"
| caller_steals: "x \<in># pool_queue s \<Longrightarrow> pool_step slow n s (take_item x s)"
| stop: "\<not> pool_brexit s \<Longrightarrow>
    pool_step slow n s (s\<lparr>pool_brexit := True, pool_signals := add_mset (n, 0) (pool_signals s)\<rparr>)"

inductive_cases pool_workE: "pool_work slow n s s'"

section \<open>The invariant\<close>

text \<open>Tokens that are there or on their way, and who will look for an item.\<close>

definition token_supply :: "'hc shared_pool \<Rightarrow> nat" where
  "token_supply s = pool_tokens s + sum_mset (image_mset fst (pool_signals s))"

definition looks_for :: "nat \<Rightarrow> drain_pc \<Rightarrow> bool" where
  "looks_for x p \<longleftrightarrow> p = D_Drain \<or> (\<exists>S. p = D_Scan S \<and> x \<in> S)"

definition pool_served :: "nat \<Rightarrow> 'hc shared_pool \<Rightarrow> bool" where
  "pool_served n s \<longleftrightarrow> (\<forall>x\<in>#pool_queue s. 0 < token_supply s \<or> (\<exists>w<n. looks_for x (pool_pc s w)))"

definition pool_ledger :: "'h::len word shared_pool \<Rightarrow> bool" where
  "pool_ledger s \<longleftrightarrow> pool_items s + of_nat (pool_adding s) + of_nat (sum_mset (image_mset snd (pool_signals s))) + of_nat (length (pool_executed s))
     = of_nat (pool_submitted s) + of_nat (pool_completing s) + of_nat (sum_mset (pool_bulks s)) + of_nat (pool_leaked s)"

definition pool_stopping :: "nat \<Rightarrow> 'hc shared_pool \<Rightarrow> bool" where
  "pool_stopping n s \<longleftrightarrow> (\<forall>w<n. pool_pc s w = D_Returned \<longrightarrow> pool_brexit s) \<and>
     (pool_brexit s \<longrightarrow> total_weight n (\<lambda>p. of_bool (p = D_Sleep)) (pool_pc s) \<le> token_supply s)"

definition pool_inv :: "nat \<Rightarrow> 'h::len word shared_pool \<Rightarrow> bool" where
  "pool_inv n s \<longleftrightarrow> mset (pool_executed s) + pool_queue s = mset [0..<pool_submitted s] \<and> (\<forall>k\<in>#pool_bulks s. 0 < k) \<and>
     pool_served n s \<and> pool_ledger s \<and> pool_stopping n s"

lemma token_supply_same [simp]:
  "token_supply (s\<lparr>pool_pc := f\<rparr>) = token_supply s" "token_supply (take_item x s) = token_supply s"
  by (simp_all add: token_supply_def take_item_def)

lemma pool_invI:
  assumes "mset (pool_executed s) + pool_queue s = mset [0..<pool_submitted s]" and "\<forall>k\<in>#pool_bulks s. 0 < k"
    and "pool_served n s" and "pool_ledger s" and "pool_stopping n s"
  shows "pool_inv n s"
  using assms by (simp add: pool_inv_def)

lemma pool_invD:
  assumes "pool_inv n s"
  shows pool_inv_mset: "mset (pool_executed s) + pool_queue s = mset [0..<pool_submitted s]"
    and pool_inv_bulks: "\<forall>k\<in>#pool_bulks s. 0 < k"
    and pool_inv_served: "pool_served n s" and pool_inv_ledger: "pool_ledger s" and pool_inv_stopping: "pool_stopping n s"
  using assms by (simp_all add: pool_inv_def)

text \<open>A step of worker \<open>w\<close> to \<open>p\<close> leaves the items served when \<open>p\<close> looks for what its old point looked for.\<close>

lemma served_pc:
  assumes "pool_served n s" and "w < n"
    and "\<And>x. x \<in># pool_queue s \<Longrightarrow> looks_for x (pool_pc s w) \<Longrightarrow> looks_for x p"
  shows "pool_served n (s\<lparr>pool_pc := (pool_pc s)(w := p)\<rparr>)"
  unfolding pool_served_def
proof (intro ballI)
  fix x assume "x \<in># pool_queue (s\<lparr>pool_pc := (pool_pc s)(w := p)\<rparr>)"
  then have x: "x \<in># pool_queue s" by simp
  with assms(1) have "0 < token_supply s \<or> (\<exists>v<n. looks_for x (pool_pc s v))" unfolding pool_served_def by blast
  then show "0 < token_supply (s\<lparr>pool_pc := (pool_pc s)(w := p)\<rparr>) \<or>
      (\<exists>v<n. looks_for x (pool_pc (s\<lparr>pool_pc := (pool_pc s)(w := p)\<rparr>) v))"
  proof (elim disjE exE conjE)
    fix v assume v: "v < n" "looks_for x (pool_pc s v)"
    then have "looks_for x (((pool_pc s)(w := p)) v)" using assms(3) [OF x] by (cases "v = w") simp_all
    with v(1) show ?thesis by auto
  qed simp
qed

lemma stopping_pc:
  assumes stopping: "pool_stopping n s" and w: "w < n"
    and "p = D_Returned \<Longrightarrow> pool_brexit s" and p: "p = D_Sleep \<Longrightarrow> \<not> pool_brexit s"
  shows "pool_stopping n (s\<lparr>pool_pc := (pool_pc s)(w := p)\<rparr>)"
proof -
  have "total_weight n (\<lambda>p. of_bool (p = D_Sleep)) ((pool_pc s)(w := p)) \<le>
      total_weight n (\<lambda>p. of_bool (p = D_Sleep)) (pool_pc s)" if "pool_brexit s"
    using total_weight_upd [OF w, of "\<lambda>p. of_bool (p = D_Sleep)" "pool_pc s" p] p that by (cases "p = D_Sleep") simp_all
  then show ?thesis using stopping assms(3) by (fastforce simp: pool_stopping_def token_supply_def)
qed

lemma pool_inv_pc:
  assumes inv: "pool_inv n s" and w: "w < n"
    and "\<And>x. x \<in># pool_queue s \<Longrightarrow> looks_for x (pool_pc s w) \<Longrightarrow> looks_for x p"
    and "p = D_Returned \<Longrightarrow> pool_brexit s" and "p = D_Sleep \<Longrightarrow> \<not> pool_brexit s"
  shows "pool_inv n (s\<lparr>pool_pc := (pool_pc s)(w := p)\<rparr>)"
proof (rule pool_invI)
  show "pool_served n (s\<lparr>pool_pc := (pool_pc s)(w := p)\<rparr>)" by (rule served_pc [OF pool_inv_served [OF inv] w assms(3)])
  show "pool_stopping n (s\<lparr>pool_pc := (pool_pc s)(w := p)\<rparr>)"
    by (rule stopping_pc [OF pool_inv_stopping [OF inv] w assms(4,5)])
qed (use inv in \<open>simp_all add: pool_inv_def pool_ledger_def\<close>)

lemma pool_inv_take:
  assumes inv: "pool_inv n s" and x: "x \<in># pool_queue s"
  shows "pool_inv n (take_item x s)"
proof (rule pool_invI)
  obtain Q where Q: "pool_queue s = add_mset x Q" using x by (rule mset_add)
  from pool_inv_mset [OF inv]
  show "mset (pool_executed (take_item x s)) + pool_queue (take_item x s) = mset [0..<pool_submitted (take_item x s)]"
    by (simp add: take_item_def Q)
  show "pool_served n (take_item x s)"
    using pool_inv_served [OF inv] unfolding pool_served_def token_supply_same
    by (auto simp: take_item_def dest: in_diffD)
  show "pool_ledger (take_item x s)"
    using pool_inv_ledger [OF inv] by (simp add: pool_ledger_def take_item_def algebra_simps)
  show "pool_stopping n (take_item x s)"
    using pool_inv_stopping [OF inv] unfolding pool_stopping_def token_supply_same by (simp add: take_item_def)
qed (use inv in \<open>simp add: pool_inv_def take_item_def\<close>)

lemma pool_inv_wait:
  assumes inv: "pool_inv n s" and w: "w < n" "pool_pc s w = D_Sleep" "0 < pool_tokens s"
  shows "pool_inv n (s\<lparr>pool_pc := (pool_pc s)(w := D_Drain), pool_tokens := pool_tokens s - 1\<rparr>)" (is "pool_inv n ?s")
proof (rule pool_invI)
  show "pool_served n ?s" using w(1) by (auto simp: pool_served_def looks_for_def)
  show "pool_stopping n ?s"
    using pool_inv_stopping [OF inv] w total_weight_upd [OF w(1), of "\<lambda>p. of_bool (p = D_Sleep)" "pool_pc s" D_Drain]
    by (auto simp: pool_stopping_def token_supply_def)
qed (use inv in \<open>simp_all add: pool_inv_def pool_ledger_def\<close>)

lemma pool_inv_signal:
  assumes inv: "pool_inv n s" and ab: "(a, b) \<in># pool_signals s"
  shows "pool_inv n (s\<lparr>pool_signals := pool_signals s - {#(a, b)#}, pool_tokens := pool_tokens s + a,
      pool_adding := pool_adding s + b\<rparr>)" (is "pool_inv n ?s")
proof (rule pool_invI)
  obtain M where M: "pool_signals s = add_mset (a, b) M" using ab by (rule mset_add)
  have same: "token_supply ?s = token_supply s" by (simp add: token_supply_def M)
  show "pool_served n ?s" using pool_inv_served [OF inv] same by (simp add: pool_served_def)
  show "pool_stopping n ?s" using pool_inv_stopping [OF inv] same by (simp add: pool_stopping_def)
  show "pool_ledger ?s" using pool_inv_ledger [OF inv] by (simp add: pool_ledger_def M algebra_simps)
qed (use inv in \<open>simp_all add: pool_inv_def\<close>)

lemma pool_inv_bulk_enqueue:
  assumes inv: "pool_inv n s" and "0 < n" and k: "k \<in># pool_bulks s"
  shows "pool_inv n (s\<lparr>pool_bulks := pool_bulks s - {#k#},
      pool_queue := pool_queue s + mset [pool_submitted s..<pool_submitted s + k],
      pool_submitted := pool_submitted s + k, pool_signals := add_mset (bulk_signal slow n k, 0) (pool_signals s)\<rparr>)"
    (is "pool_inv n ?s")
proof (rule pool_invI)
  obtain B where B: "pool_bulks s = add_mset k B" using k by (rule mset_add)
  have "0 < bulk_signal slow n k" using pool_inv_bulks [OF inv] k assms(2) by (auto simp: bulk_signal_def)
  then show "pool_served n ?s" by (simp add: pool_served_def token_supply_def)
  have "token_supply s \<le> token_supply ?s" by (simp add: token_supply_def)
  with pool_inv_stopping [OF inv] show "pool_stopping n ?s" by (auto simp: pool_stopping_def)
  show "pool_ledger ?s" using pool_inv_ledger [OF inv] by (simp add: pool_ledger_def B algebra_simps)
  have "[0..<pool_submitted s + k] = [0..<pool_submitted s] @ [pool_submitted s..<pool_submitted s + k]"
    by (rule upt_add_eq_append) simp
  with pool_inv_mset [OF inv] show "mset (pool_executed ?s) + pool_queue ?s = mset [0..<pool_submitted ?s]"
    by (simp del: mset_upt flip: add.assoc)
qed (use inv in \<open>auto simp: pool_inv_def dest: in_diffD\<close>)

lemma pool_inv_work:
  assumes inv: "pool_inv n s" and n: "0 < n" and step: "pool_work slow n s s'"
  shows "pool_inv n s'"
  using step
proof cases
  case (scan w)
  then show ?thesis using pool_inv_pc [OF inv scan(2)] by (auto simp: looks_for_def)
next
  case (found w S x)
  have "pool_inv n (s\<lparr>pool_pc := (pool_pc s)(w := D_Drain)\<rparr>)"
    using pool_inv_pc [OF inv found(2), of D_Drain] by (simp add: looks_for_def)
  from pool_inv_take [OF this, of x] found(4) show ?thesis by (simp add: found(1))
next
  case (not_found w S)
  then show ?thesis using pool_inv_pc [OF inv not_found(2)] by (auto simp: looks_for_def)
next
  case (exit_check w)
  then show ?thesis
    using pool_inv_pc [OF inv exit_check(2), of "if pool_brexit s then D_Returned else D_Sleep"]
    by (simp add: looks_for_def split: if_splits)
next
  case (wait w)
  then show ?thesis using pool_inv_wait [OF inv] by simp
next
  case (signal a b)
  then show ?thesis using pool_inv_signal [OF inv] by simp
next
  case (bulk_enqueue k)
  then show ?thesis using pool_inv_bulk_enqueue [OF inv n] by simp
next
  case (bulk_fails k)
  obtain B where "pool_bulks s = add_mset k B" using bulk_fails(2) by (rule mset_add)
  with inv show ?thesis
    by (auto simp: bulk_fails(1) pool_inv_def pool_ledger_def pool_served_def pool_stopping_def token_supply_def algebra_simps)
next
  case completed
  then obtain c where "pool_completing s = Suc c" by (cases "pool_completing s") simp_all
  with inv show ?thesis
    by (auto simp: completed(1) pool_inv_def pool_ledger_def pool_served_def pool_stopping_def token_supply_def algebra_simps)
next
  case added
  then obtain c where "pool_adding s = Suc c" by (cases "pool_adding s") simp_all
  with inv show ?thesis
    by (auto simp: added(1) pool_inv_def pool_ledger_def pool_served_def pool_stopping_def token_supply_def algebra_simps)
qed

lemma pool_inv_enqueue:
  assumes inv: "pool_inv n s"
  shows "pool_inv n (s\<lparr>pool_queue := add_mset (pool_submitted s) (pool_queue s),
    pool_submitted := pool_submitted s + 1, pool_signals := add_mset (1, 1) (pool_signals s)\<rparr>)" (is "pool_inv n ?s")
proof (rule pool_invI)
  show "mset (pool_executed ?s) + pool_queue ?s = mset [0..<pool_submitted ?s]"
    using pool_inv_mset [OF inv] by simp
  show "pool_ledger ?s" using pool_inv_ledger [OF inv] by (simp add: pool_ledger_def algebra_simps)
  show "pool_served n ?s" by (simp add: pool_served_def token_supply_def)
  have "token_supply s \<le> token_supply ?s" by (simp add: token_supply_def)
  with pool_inv_stopping [OF inv] show "pool_stopping n ?s" by (auto simp: pool_stopping_def)
qed (use inv in \<open>simp add: pool_inv_def\<close>)

lemma pool_inv_step:
  assumes inv: "pool_inv n s" and n: "0 < n" and step: "pool_step slow n s s'"
  shows "pool_inv n s'"
  using step
proof cases
  case work
  then show ?thesis by (rule pool_inv_work [OF inv n])
next
  case fire
  then show ?thesis using pool_inv_enqueue [OF inv] by simp
next
  case (caller_steals x)
  then show ?thesis using pool_inv_take [OF inv] by simp
next
  case stop
  have "total_weight n (\<lambda>p. of_bool (p = D_Sleep)) (pool_pc s) \<le> n" by (rule total_weight_le) simp
  then have "pool_stopping n s'"
    using pool_inv_stopping [OF inv] by (auto simp: stop(1) pool_stopping_def token_supply_def)
  moreover have "pool_served n s'" using n by (simp add: stop(1) pool_served_def token_supply_def)
  ultimately show ?thesis using inv by (simp add: stop(1) pool_inv_def pool_ledger_def)
next
  case fire_fails
  have "token_supply s \<le> token_supply s'" by (simp add: fire_fails token_supply_def)
  then have "pool_stopping n s'" using pool_inv_stopping [OF inv] by (auto simp: fire_fails pool_stopping_def)
  moreover have "pool_served n s'" by (simp add: fire_fails pool_served_def token_supply_def)
  ultimately show ?thesis using inv by (simp add: fire_fails pool_inv_def pool_ledger_def)
next
  case (spread k)
  have same: "token_supply s' = token_supply s" by (simp add: spread(1) token_supply_def)
  have "pool_served n s'" using pool_inv_served [OF inv] same by (simp add: spread(1) pool_served_def)
  moreover have "pool_stopping n s'" using pool_inv_stopping [OF inv] same by (simp add: spread(1) pool_stopping_def)
  moreover have "pool_ledger s'" using pool_inv_ledger [OF inv] by (simp add: spread(1) pool_ledger_def algebra_simps)
  ultimately show ?thesis using inv spread(2) by (simp add: spread(1) pool_inv_def)
qed

lemma pool_inv_init: "pool_init s \<Longrightarrow> pool_inv n s"
  by (simp add: pool_init_def pool_inv_def pool_served_def pool_ledger_def pool_stopping_def)

section \<open>The work comes to an end\<close>

fun drain_cost :: "drain_pc \<Rightarrow> nat" where
  "drain_cost D_Drain = 3" | "drain_cost (D_Scan S) = 2" | "drain_cost D_Exit = 1" | "drain_cost _ = 0"

definition pool_amount :: "nat \<Rightarrow> 'hc shared_pool \<Rightarrow> nat" where
  "pool_amount n s = 3 * size (pool_queue s) + 4 * pool_tokens s + (\<Sum>p\<in>#pool_signals s. 4 * fst p + snd p + 1)
     + (\<Sum>k\<in>#pool_bulks s. 3 * k + 4 * (k + n) + 2) + total_weight n drain_cost (pool_pc s)
     + pool_adding s + pool_completing s"

lemma pool_amount_pc:
  assumes "w < n" and "drain_cost p < drain_cost (pool_pc s w)"
  shows "pool_amount n (s\<lparr>pool_pc := (pool_pc s)(w := p)\<rparr>) < pool_amount n s"
  using total_weight_upd [OF assms(1), of drain_cost "pool_pc s" p] assms(2) by (simp add: pool_amount_def)

lemma pool_amount_less:
  assumes "pool_work slow n s s'"
  shows "pool_amount n s' < pool_amount n s"
  using assms
proof cases
  case (scan w)
  then show ?thesis by (simp add: pool_amount_pc)
next
  case (found w S x)
  obtain Q where "pool_queue s = add_mset x Q" using found(4) by (rule mset_add)
  then show ?thesis using total_weight_upd [OF found(2), of drain_cost "pool_pc s" D_Drain]
    by (simp add: pool_amount_def found(1,3) take_item_def)
next
  case (not_found w S)
  then show ?thesis by (simp add: pool_amount_pc)
next
  case (exit_check w)
  then show ?thesis by (simp add: pool_amount_pc)
next
  case (wait w)
  then show ?thesis using total_weight_upd [OF wait(2), of drain_cost "pool_pc s" D_Drain] by (simp add: pool_amount_def)
next
  case (signal a b)
  obtain M where "pool_signals s = add_mset (a, b) M" using signal(2) by (rule mset_add)
  then show ?thesis by (simp add: pool_amount_def signal(1))
next
  case (bulk_enqueue k)
  obtain B where "pool_bulks s = add_mset k B" using bulk_enqueue(2) by (rule mset_add)
  then show ?thesis by (simp add: pool_amount_def bulk_enqueue(1) bulk_signal_def)
next
  case (bulk_fails k)
  obtain B where "pool_bulks s = add_mset k B" using bulk_fails(2) by (rule mset_add)
  then show ?thesis by (simp add: pool_amount_def bulk_fails(1))
qed (simp_all add: pool_amount_def)

interpretation pool_machine: draining_system pool_init "pool_step slow (Suc n)" "pool_inv (Suc n)" "pool_work slow (Suc n)"
  "pool_amount (Suc n)" for slow n
  by unfold_locales (auto intro: pool_inv_init pool_inv_step pool_step.work pool_amount_less)

lemma pool_stuck:
  assumes stuck: "\<forall>s'. \<not> pool_work slow n s s'"
  shows "pool_signals s = {#}" "pool_adding s = 0" "pool_completing s = 0" "pool_bulks s = {#}"
    and "w < n \<Longrightarrow> pool_pc s w = D_Sleep \<and> pool_tokens s = 0 \<or> pool_pc s w = D_Returned"
proof -
  show "pool_signals s = {#}"
    using stuck pool_work.signal by (metis multiset_nonemptyE prod.exhaust)
  show "pool_bulks s = {#}" using stuck pool_work.bulk_fails by (metis multiset_nonemptyE)
  show "pool_adding s = 0" using stuck pool_work.added [of s slow n] by blast
  show "pool_completing s = 0" using stuck pool_work.completed [of s slow n] by blast
  assume w: "w < n"
  show "pool_pc s w = D_Sleep \<and> pool_tokens s = 0 \<or> pool_pc s w = D_Returned"
  proof (cases "pool_pc s w")
    case (D_Scan S)
    then show ?thesis using stuck pool_work.found [OF w D_Scan] pool_work.not_found [OF w D_Scan] by blast
  next
    case D_Sleep
    then show ?thesis using stuck pool_work.wait [OF w D_Sleep] by blast
  qed (use stuck pool_work.scan [OF w] pool_work.exit_check [OF w] in \<open>blast+\<close>)
qed

lemma pool_once:
  assumes "pool_inv n s"
  shows "distinct (pool_executed s)"
proof -
  obtain Q where "mset Q = pool_queue s" using ex_mset by blast
  with pool_inv_mset [OF assms] have "mset (pool_executed s @ Q) = mset [0..<pool_submitted s]" by simp
  from mset_eq_imp_distinct_iff [OF this] show ?thesis by simp
qed

lemma pool_drained:
  assumes inv: "pool_inv n s" and stuck: "\<forall>s'. \<not> pool_work slow n s s'" and "0 < n" "\<not> pool_brexit s"
  shows "pool_queue s = {#}" "pool_items s = of_nat (pool_leaked s)" "\<forall>w<n. pool_pc s w = D_Sleep"
proof -
  have "pool_pc s w \<noteq> D_Returned" if "w < n" for w
    using pool_inv_stopping [OF inv] assms(4) that by (auto simp: pool_stopping_def)
  with pool_stuck(5) [OF stuck] have sleep: "pool_pc s w = D_Sleep" "pool_tokens s = 0" if "w < n" for w
    using that by blast+
  then show "\<forall>w<n. pool_pc s w = D_Sleep" by blast
  have "\<not> looks_for x (pool_pc s w)" if "w < n" for w x using sleep(1) [OF that] by (simp add: looks_for_def)
  moreover have "token_supply s = 0" using sleep(2) [OF assms(3)] pool_stuck(1) [OF stuck] by (simp add: token_supply_def)
  ultimately show empty: "pool_queue s = {#}" using pool_inv_served [OF inv] unfolding pool_served_def
    by (metis less_irrefl multiset_nonemptyE)
  have "mset (pool_executed s) = mset [0..<pool_submitted s]" using pool_inv_mset [OF inv] empty by simp
  then have "length (pool_executed s) = pool_submitted s" by (metis length_upt diff_zero mset_eq_length)
  then show "pool_items s = of_nat (pool_leaked s)"
    using pool_inv_ledger [OF inv] pool_stuck(1-4) [OF stuck] by (simp add: pool_ledger_def)
qed

section \<open>Theorems\<close>

text \<open>C17. The pool with one semaphore for all workers runs every item of fired work and of spreads exactly once, under every
  schedule and without any assumption of fairness: what has been begun is carried on by finitely many steps only, and when
  no such step is left, every item that was enqueued has been executed and all workers sleep, or, once the
  pool is being stopped, all workers have returned. The counter \<open>work_items_\<close>, with its wrap-around, is then what
  failed spreads have left in it.\<close>

theorem shared_pool_drains:
  fixes s :: "'h::len word shared_pool"
  assumes "reach pool_init (pool_step slow n) s" and "0 < n"
  shows "distinct (pool_executed s) \<and> set (pool_executed s) \<subseteq> {..<pool_submitted s} \<and>
    (f 0 = s \<longrightarrow> (\<exists>i. \<not> pool_work slow n (f i) (f (Suc i)))) \<and>
    ((\<forall>s'. \<not> pool_work slow n s s') \<and> \<not> pool_brexit s \<longrightarrow>
       mset (pool_executed s) = mset [0..<pool_submitted s] \<and> pool_items s = of_nat (pool_leaked s) \<and>
       (\<forall>w<n. pool_pc s w = D_Sleep)) \<and>
    ((\<forall>s'. \<not> pool_work slow n s s') \<and> pool_brexit s \<longrightarrow> (\<forall>w<n. pool_pc s w = D_Returned))"
proof -
  obtain m where m: "n = Suc m" using assms(2) by (cases n) simp_all
  note reach = assms(1) [unfolded m]
  have inv: "pool_inv n s" unfolding m by (rule pool_machine.inv_reach [OF reach])
  note items = pool_inv_mset [OF inv]
  have "pool_pc s w = D_Returned" if stuck: "\<forall>s'. \<not> pool_work slow n s s'" "pool_brexit s" and w: "w < n" for w
  proof (rule ccontr)
    assume "pool_pc s w \<noteq> D_Returned"
    then have "pool_pc s w = D_Sleep" "token_supply s = 0"
      using pool_stuck(5) [OF stuck(1) w] pool_stuck(1) [OF stuck(1)] by (auto simp: token_supply_def)
    with total_weight_ge [OF w, of "\<lambda>p. of_bool (p = D_Sleep)" "pool_pc s"] pool_inv_stopping [OF inv] stuck(2)
    show False by (simp add: pool_stopping_def)
  qed
  moreover have "\<exists>i. \<not> pool_work slow n (f i) (f (Suc i))" if "f 0 = s"
    unfolding m by (rule pool_machine.no_endless_work) (simp add: that reach)
  moreover note pool_once [OF inv]
  moreover have "set (pool_executed s) \<subseteq> {..<pool_submitted s}"
    using arg_cong [OF items, of set_mset] by auto
  moreover have "mset (pool_executed s) = mset [0..<pool_submitted s] \<and> pool_items s = of_nat (pool_leaked s) \<and>
      (\<forall>w<n. pool_pc s w = D_Sleep)" if "\<forall>s'. \<not> pool_work slow n s s'" "\<not> pool_brexit s"
    using pool_drained [OF inv that(1) assms(2) that(2)] items by simp
  ultimately show ?thesis by blast
qed

definition pool_demo :: "drain_pc \<Rightarrow> 8 word shared_pool" where
  "pool_demo p = \<lparr>pool_queue = {#}, pool_tokens = 0, pool_pc = (\<lambda>_. D_Drain)(0 := p), pool_signals = {#}, pool_adding = 0,
     pool_bulks = {#}, pool_completing = 0, pool_items = 0, pool_brexit = False, pool_submitted = 0, pool_executed = [],
     pool_leaked = 0\<rparr>"

lemma pool_demo_reach: "reach pool_init (pool_step slow 1) (pool_demo D_Sleep)"
proof -
  have "reach pool_init (pool_step slow 1) (pool_demo D_Drain)"
    by (rule reach.start) (simp add: pool_demo_def pool_init_def fun_upd_idem)
  moreover have "pool_work slow 1 (pool_demo D_Drain) (pool_demo (D_Scan {}))"
    using pool_work.scan [of 0 1 "pool_demo D_Drain" slow] by (simp add: pool_demo_def)
  moreover have "pool_work slow 1 (pool_demo (D_Scan {})) (pool_demo D_Exit)"
    using pool_work.not_found [of 0 1 "pool_demo (D_Scan {})" "{}" slow] by (simp add: pool_demo_def)
  moreover have "pool_work slow 1 (pool_demo D_Exit) (pool_demo D_Sleep)"
    using pool_work.exit_check [of 0 1 "pool_demo D_Exit" slow] by (simp add: pool_demo_def)
  ultimately show ?thesis by (blast intro: reach.move pool_step.work)
qed

theorem shared_pool_drains_witness:
  "(\<exists>i. \<not> pool_work True 1 ((\<lambda>_. pool_demo D_Sleep) i) ((\<lambda>_. pool_demo D_Sleep) (Suc i))) \<and>
   mset (pool_executed (pool_demo D_Sleep)) = {#} \<and> pool_items (pool_demo D_Sleep) = 0"
proof -
  have "\<forall>s'. \<not> pool_work True 1 (pool_demo D_Sleep) s'" by (auto simp: pool_demo_def elim!: pool_workE)
  moreover have "\<not> pool_brexit (pool_demo D_Sleep)" by (simp add: pool_demo_def)
  ultimately show ?thesis
    using shared_pool_drains [OF pool_demo_reach, of "\<lambda>_. pool_demo D_Sleep" True] by (simp add: pool_demo_def)
qed

end
