(* ===== verification/RwSpec.thy ===== *)
theory RwSpec
  imports RwMutex
begin

text \<open>
  What a reader-writer mutex promises, as a small machine of its own, and that the futex mutex of theory
  \<open>RwMutex\<close> (threading/futex_rw_mutex.cpp, both admission policies) implements it.
\<close>

section \<open>The specification\<close>

text \<open>Who reads and who writes. A call takes effect at one point, and only when the book allows it.\<close>

record rw_book =
  reading :: "tid set"
  writing :: "tid set"

definition book_init :: "rw_book \<Rightarrow> bool" where
  "book_init b \<longleftrightarrow> reading b = {} \<and> writing b = {}"

inductive book_step :: "rw_book \<Rightarrow> rw_book \<Rightarrow> bool" where
  enter_read: "writing b = {} \<Longrightarrow> t \<notin> reading b \<Longrightarrow> book_step b (b\<lparr>reading := insert t (reading b)\<rparr>)"
| leave_read: "t \<in> reading b \<Longrightarrow> book_step b (b\<lparr>reading := reading b - {t}\<rparr>)"
| enter_write: "writing b = {} \<Longrightarrow> reading b = {} \<Longrightarrow> book_step b (b\<lparr>writing := {t}\<rparr>)"
| leave_write: "writing b = {t} \<Longrightarrow> book_step b (b\<lparr>writing := {}\<rparr>)"

definition book_inv :: "rw_book \<Rightarrow> bool" where
  "book_inv b \<longleftrightarrow> writing b = {} \<or> reading b = {} \<and> (\<exists>t. writing b = {t})"

interpretation book_machine: invariant_system book_init book_step book_inv
proof unfold_locales
  show "book_inv b'" if "book_inv b" "book_step b b'" for b b'
    using that(2,1) by cases (auto simp: book_inv_def)
qed (simp add: book_init_def book_inv_def)

section \<open>The mutex as a book\<close>

definition rw_book_of :: "nat \<Rightarrow> rw_sys \<Rightarrow> rw_book" where
  "rw_book_of n s = \<lparr>reading = {t. t < n \<and> rw_pcs s t = Ro_Held}, writing = {t. t < n \<and> rw_pcs s t = Rw_Held}\<rparr>"

lemma book_sel:
  "reading (rw_book_of n s) = {t. t < n \<and> rw_pcs s t = Ro_Held}"
  "writing (rw_book_of n s) = {t. t < n \<and> rw_pcs s t = Rw_Held}"
  by (simp_all add: rw_book_of_def)

lemma book_unlocked:
  assumes "rw_inv blocking n s"
  shows "\<not> locked (rw_state s) \<Longrightarrow> writing (rw_book_of n s) = {}"
    and "readers (rw_state s) = 0 \<Longrightarrow> reading (rw_book_of n s) = {}"
proof -
  have h: "int (readers (rw_state s)) = weight n ro_hold (rw_pcs s)"
    "of_bool (locked (rw_state s)) = weight n rw_hold (rw_pcs s)"
    using assms by (auto simp: rw_inv_def holders_def)
  show "writing (rw_book_of n s) = {}" if "\<not> locked (rw_state s)"
    using h(2) that weight_zero [of n rw_hold "rw_pcs s"] by (force simp: book_sel)
  show "reading (rw_book_of n s) = {}" if "readers (rw_state s) = 0"
    using h(1) that weight_zero [of n ro_hold "rw_pcs s"] by (force simp: book_sel)
qed

lemma book_writes_one:
  assumes "rw_inv blocking n s" and "t < n" "rw_pcs s t = Rw_Held"
  shows "writing (rw_book_of n s) = {t}"
  using rw_inv_exclusive [OF assms] assms(2,3) by (auto simp: book_sel)

lemma book_quiet:
  assumes "\<And>t. t < n \<Longrightarrow> rw_pcs s' t = Ro_Held \<longleftrightarrow> rw_pcs s t = Ro_Held"
    and "\<And>t. t < n \<Longrightarrow> rw_pcs s' t = Rw_Held \<longleftrightarrow> rw_pcs s t = Rw_Held"
  shows "rw_book_of n s' = rw_book_of n s"
  using assms by (auto simp: rw_book_of_def)

text \<open>One access by thread \<open>t\<close>, which moves to \<open>p\<close>.\<close>

lemma book_upd:
  assumes t: "t < n" and s': "rw_pcs s' = (rw_pcs s)(t := p)"
  shows "rw_book_of n s' =
    \<lparr>reading = (if p = Ro_Held then insert t (reading (rw_book_of n s)) else reading (rw_book_of n s) - {t}),
     writing = (if p = Rw_Held then insert t (writing (rw_book_of n s)) else writing (rw_book_of n s) - {t})\<rparr>"
proof -
  have "{u. u < n \<and> ((rw_pcs s)(t := p)) u = q} = (if p = q then insert t {u. u < n \<and> rw_pcs s u = q}
      else {u. u < n \<and> rw_pcs s u = q} - {t})" for q
    using t by auto
  then show ?thesis by (simp add: rw_book_of_def s')
qed

lemma book_act:
  assumes inv: "rw_inv blocking n s" and t: "t < n" and pol: "policy blocking"
    and nxt: "(w, p) \<in> set (rw_next blocking (rw_state s) (rw_pcs s t))"
    and s': "rw_pcs s' = (rw_pcs s)(t := p)"
  shows "book_step (rw_book_of n s) (rw_book_of n s') \<or> rw_book_of n s' = rw_book_of n s"
proof -
  note upd = book_upd [OF t s'] and free = book_unlocked [OF inv]
  let ?b = "rw_book_of n s"
  obtain R W where b: "?b = \<lparr>reading = R, writing = W\<rparr>" by (cases ?b)
  consider (in_ro) "p = Ro_Held" "rw_pcs s t \<noteq> Ro_Held" "rw_pcs s t \<noteq> Rw_Held" "rw_state s AND blocking = 0"
    | (in_rw) "p = Rw_Held" "rw_pcs s t \<noteq> Ro_Held" "readers (rw_state s) = 0" "\<not> locked (rw_state s)"
    | (out_ro) "p \<noteq> Ro_Held" "p \<noteq> Rw_Held" "rw_pcs s t = Ro_Held"
    | (out_rw) "p \<noteq> Ro_Held" "p \<noteq> Rw_Held" "rw_pcs s t = Rw_Held"
    | (quiet) "p \<noteq> Ro_Held" "p \<noteq> Rw_Held" "rw_pcs s t \<noteq> Ro_Held" "rw_pcs s t \<noteq> Rw_Held"
    using nxt
    by (cases "rw_pcs s t")
      (auto simp: try_acquire_ro_core_def try_acquire_rw_def release_ro_def release_rw_def split: if_splits)
  then show ?thesis
  proof cases
    case in_ro
    then have w: "writing ?b = {}" using pol free(1) by (auto simp: policy_def)
    have "book_step ?b (?b\<lparr>reading := insert t (reading ?b)\<rparr>)"
      using in_ro w by (intro book_step.enter_read) (simp_all add: book_sel)
    with in_ro w show ?thesis by (simp add: upd b)
  next
    case in_rw
    have "book_step ?b (?b\<lparr>writing := {t}\<rparr>)" using in_rw free by (intro book_step.enter_write) simp_all
    with in_rw free show ?thesis by (simp add: upd b)
  next
    case out_ro
    then have "t \<in> reading ?b" "t \<notin> writing ?b" using t by (simp_all add: book_sel)
    moreover from this(1) have "book_step ?b (?b\<lparr>reading := reading ?b - {t}\<rparr>)" by (rule book_step.leave_read)
    ultimately show ?thesis using out_ro by (simp add: upd b)
  next
    case out_rw
    then have "writing ?b = {t}" "t \<notin> reading ?b" using book_writes_one [OF inv t] by (simp_all add: book_sel)
    then have "book_step ?b (?b\<lparr>writing := {}\<rparr>)" by (intro book_step.leave_write)
    with out_rw \<open>writing ?b = {t}\<close> \<open>t \<notin> reading ?b\<close> show ?thesis by (simp add: upd b)
  next
    case quiet
    then have "t \<notin> reading ?b" "t \<notin> writing ?b" by (simp_all add: book_sel)
    with quiet show ?thesis by (simp add: upd b)
  qed
qed

lemma book_same:
  assumes "\<And>t. t < n \<Longrightarrow> rw_pcs s' t = Ro_Held \<longleftrightarrow> rw_pcs s t = Ro_Held"
    and "\<And>t. t < n \<Longrightarrow> rw_pcs s' t = Rw_Held \<longleftrightarrow> rw_pcs s t = Rw_Held"
  shows "rw_book_of n s' = rw_book_of n s"
  using assms by (auto simp: rw_book_of_def)

lemma resume_held: "resume p = Ro_Held \<longleftrightarrow> p = Ro_Held" "resume p = Rw_Held \<longleftrightarrow> p = Rw_Held"
  by (cases p; simp)+

lemma book_rw_step:
  assumes inv: "rw_inv blocking n s" and pol: "policy blocking" and step: "rw_step wake_all blocking n s s'"
  shows "book_step (rw_book_of n s) (rw_book_of n s') \<or> rw_book_of n s' = rw_book_of n s"
  using step
proof cases
  case (act t w p)
  then show ?thesis using book_act [OF inv _ pol] by simp
next
  case (call t p)
  then have "rw_book_of n s' = rw_book_of n s" by (intro book_same) auto
  then show ?thesis ..
next
  case (spurious t)
  then have "rw_book_of n s' = rw_book_of n s" by (intro book_same) (auto simp: resume_held)
  then show ?thesis ..
next
  case (wake_writers t woken)
  then have "rw_book_of n s' = rw_book_of n s" by (intro book_same) (auto simp: resume_held resume_all_def)
  then show ?thesis ..
next
  case (wake_either t woken)
  then have "rw_book_of n s' = rw_book_of n s" by (intro book_same) (auto simp: resume_held resume_all_def)
  then show ?thesis ..
qed

text \<open>The setting of the theorems: fewer threads than the word can count, one of the two policies, and a futex.\<close>

definition rw_setting :: "(futex_value \<Rightarrow> parked \<Rightarrow> tid set \<Rightarrow> bool) \<Rightarrow> futex_value \<Rightarrow> nat \<Rightarrow> bool" where
  "rw_setting wake_all blocking n \<longleftrightarrow> n < 2 ^ 29 \<and> policy blocking \<and> wakes_targets wake_all"

definition rw_set_step ::
  "(futex_value \<Rightarrow> parked \<Rightarrow> tid set \<Rightarrow> bool) \<Rightarrow> futex_value \<Rightarrow> nat \<Rightarrow> rw_sys \<Rightarrow> rw_sys \<Rightarrow> bool" where
  "rw_set_step wake_all blocking n s s' \<longleftrightarrow> rw_setting wake_all blocking n \<and> rw_step wake_all blocking n s s'"

interpretation rw_book: refinement rw_init "rw_set_step wake_all blocking n" "rw_inv blocking n" book_init book_step
  "rw_book_of n" for wake_all blocking n
proof unfold_locales
  show "book_init (rw_book_of n s)" if "rw_init s" for s
    using that by (simp add: rw_init_def book_init_def rw_book_of_def)
  show "rw_inv blocking n s'" if "rw_inv blocking n s" "rw_set_step wake_all blocking n s s'" for s s'
    using that by (auto simp: rw_set_step_def rw_setting_def intro: rw_inv_step)
  show "book_step (rw_book_of n s) (rw_book_of n s') \<or> rw_book_of n s' = rw_book_of n s"
    if "rw_inv blocking n s" "rw_set_step wake_all blocking n s s'" for s s'
    using that by (intro book_rw_step) (auto simp: rw_set_step_def rw_setting_def)
qed (rule rw_init_inv)

lemma rw_set_reach:
  assumes "rw_setting wake_all blocking n"
  shows "reach rw_init (rw_step wake_all blocking n) s \<Longrightarrow> reach rw_init (rw_set_step wake_all blocking n) s"
  by (induction rule: reach.induct) (auto intro: reach.intros simp: rw_set_step_def assms)

text \<open>Who may come in: with writer preference no reader while a writer is announced.\<close>

lemma rw_admits:
  assumes "rw_step wake_all writer_preferring n s s'" and "waiting (rw_state s)"
  shows "reading (rw_book_of n s') \<subseteq> reading (rw_book_of n s)"
  using assms(1)
proof cases
  case (act t w p)
  have "p \<noteq> Ro_Held"
    using act(3) assms(2)
    by (cases "rw_pcs s t")
      (auto simp: try_acquire_ro_core_def try_acquire_rw_def release_ro_def release_rw_def split: if_splits)
  then show ?thesis unfolding book_upd [of t n s' s p, OF act(2)] using act(1) by (auto simp: book_sel split: if_splits)
qed (auto simp: book_sel resume_held resume_all_def split: if_splits)

section \<open>Theorems\<close>

text \<open>C8. The futex reader-writer mutex implements its specification, for both admission policies: what its threads
  hold is a reachable state of the book, so that a writer excludes everybody else; each access to its word is a
  step of the book or changes nothing there, so that every hold begins and ends at one access; and under
  writer preference no reader comes in while a writer is announced.\<close>

theorem rw_mutex_refines_book:
  assumes "reach rw_init (rw_step wake_all blocking n) s" and "rw_setting wake_all blocking n"
  shows "reach book_init book_step (rw_book_of n s) \<and>
    (writing (rw_book_of n s) = {} \<or> reading (rw_book_of n s) = {} \<and> (\<exists>t. writing (rw_book_of n s) = {t})) \<and>
    (rw_step wake_all blocking n s s' \<longrightarrow>
      (book_step (rw_book_of n s) (rw_book_of n s') \<or> rw_book_of n s' = rw_book_of n s) \<and>
      (blocking = writer_preferring \<and> waiting (rw_state s) \<longrightarrow> reading (rw_book_of n s') \<subseteq> reading (rw_book_of n s)))"
proof -
  note reach = rw_set_reach [OF assms(2,1)]
  have book: "reach book_init book_step (rw_book_of n s)" by (rule rw_book.reach_abs [OF reach])
  moreover note book_machine.inv_reach [OF book]
  moreover have "book_step (rw_book_of n s) (rw_book_of n s') \<or> rw_book_of n s' = rw_book_of n s"
    if "rw_step wake_all blocking n s s'"
    using that assms(2) by (intro rw_book.step_abs [OF reach]) (simp add: rw_set_step_def)
  ultimately show ?thesis using rw_admits [of wake_all n s s'] by (auto simp: book_inv_def)
qed

theorem rw_mutex_refines_book_witness:
  "reach book_init book_step (rw_book_of 2 rw_demo) \<and> writing (rw_book_of 2 rw_demo) = {0}"
proof -
  have "rw_setting (\<lambda>b. linux_futex (linux_wake_all b)) writer_preferring 2"
    by (simp add: rw_setting_def policy_def linux.wake_all_contract [OF linux_futex_spec])
  from rw_mutex_refines_book [OF rw_demo_reach this]
  show ?thesis by (auto simp: book_sel rw_demo_def split: if_splits)
qed

end
