(* ===== verification/AsyncRun.thy ===== *)
theory AsyncRun
  imports Dispatch SharedPool
begin

text \<open>
  Dispatched work from the call to the result: the items that \<open>dispatch_lite\<close> and \<open>dispatch_outcome\<close> of
  impls/generic.hpp queue (theory \<open>Dispatch\<close>), run by the workers of a pool of either kind (theories
  \<open>ShopRun\<close> and \<open>SharedPool\<close>), completing the slots of their futures (theory \<open>Future\<close>).
\<close>

section \<open>The slots of a run\<close>

text \<open>Item \<open>i\<close> acts on slot \<open>i\<close>; the items are run in the order in which the workers took them.\<close>

definition slots_after :: "(nat \<Rightarrow> 's \<Rightarrow> 's) \<Rightarrow> nat list \<Rightarrow> (nat \<Rightarrow> 's) \<Rightarrow> nat \<Rightarrow> 's" where
  "slots_after item taken_items = fold (\<lambda>i slots. slots(i := item i (slots i))) taken_items"

lemma slots_after_other: "i \<notin> set taken_items \<Longrightarrow> slots_after item taken_items slots i = slots i"
  unfolding slots_after_def by (induction taken_items arbitrary: slots) auto

lemma slots_after_once:
  "distinct taken_items \<Longrightarrow> i \<in> set taken_items \<Longrightarrow> slots_after item taken_items slots i = item i (slots i)"
proof (induction taken_items arbitrary: slots)
  case (Cons j taken_items)
  have step: "slots_after item (j # taken_items) slots = slots_after item taken_items (slots(j := item j (slots j)))"
    by (simp add: slots_after_def)
  show ?case
  proof (cases "i = j")
    case True
    then show ?thesis using Cons.prems(1) by (simp add: step slots_after_other)
  next
    case False
    then show ?thesis using Cons by (simp add: step)
  qed
qed simp

text \<open>What the workers make of the slots that the calls left.\<close>

definition lite_slots :: "(nat \<Rightarrow> nat + 'v) \<Rightarrow> nat list \<Rightarrow> ('v, nat) future_state \<Rightarrow> nat \<Rightarrow> ('v, nat) future_state" where
  "lite_slots work taken_items lslot = slots_after (\<lambda>i. worker_runs fs_set_value fs_set_exception completed (work i)) taken_items (\<lambda>_. lslot)"

definition outcome_slots :: "(nat \<Rightarrow> nat + 'v) \<Rightarrow> nat list \<Rightarrow> ('v, nat) outcome_state \<Rightarrow> nat \<Rightarrow> ('v, nat) outcome_state" where
  "outcome_slots work taken_items oslot = slots_after (\<lambda>i. worker_runs os_set_value os_set_exception o_completed (work i)) taken_items (\<lambda>_. oslot)"

context one_shot_slot
begin

lemma slots_deliver:
  fixes work :: "nat \<Rightarrow> 'e + 'v"
  assumes "distinct taken_items" and "fresh lslot"
  defines "slots \<equiv> slots_after (\<lambda>i. promise_life set_value set_exception is_completed (Some (work i))) taken_items (\<lambda>_. lslot)"
  shows "i \<in> set taken_items \<Longrightarrow> \<exists>s'. get_op (slots i) = Some (expected (Some (work i)), s')"
    and "i \<notin> set taken_items \<Longrightarrow> get_op (slots i) = None"
  using life_delivers [OF assms(2), of "Some (work i)"] fresh_blocks [OF assms(2)]
  by (auto simp: slots_def slots_after_once [OF assms(1)] slots_after_other)

end

lemmas slots_defs = lite_slots_def outcome_slots_def worker_runs_def

lemma dispatch_lite_fresh: "dispatch_lite True = Some (Inl lslot) \<Longrightarrow> future_fresh lslot"
  by (auto simp: dispatch_lite_def dispatch_slot_def future_assign_def future_fresh_def)

lemma dispatch_outcome_fresh: "dispatch_outcome True = Some (Inl oslot) \<Longrightarrow> outcome_fresh oslot"
  by (auto simp: dispatch_outcome_def dispatch_slot_def future_assign_def outcome_fresh_def)

section \<open>Theorems\<close>



end
