(* ===== verification/RrwSystem.thy ===== *)
theory RrwSystem
  imports RwGuards
begin

text \<open>
  The reentrant reader-writer mutex (threading/rrw_mutex.hpp) at work: any number of threads, each with its own
  registry of read holds (theory \<open>ReadRecursion\<close>), on mutexes of the operating system (theory \<open>RwGuards\<close>), in any
  interleaving of the calls of both sides.
\<close>

section \<open>The system\<close>

text \<open>
  \<open>acquiring\<close>: the thread has entered its first hold in its registry and is inside \<open>os_acquire_ro\<close>.
  \<open>held_rw\<close>: who has returned from acquiring the exclusive side and has not released it.
\<close>

record 'm rrw_sys =
  rlocks :: "mutex_id \<Rightarrow> 'm"
  regs :: "tid \<Rightarrow> registry"
  acquiring :: "tid \<Rightarrow> mutex_id option"
  held_rw :: "mutex_id \<Rightarrow> tid option"

definition rrw_init :: "'m rw_api \<Rightarrow> 'm rrw_sys \<Rightarrow> bool" where
  "rrw_init api s \<longleftrightarrow> (\<forall>m. \<exists>kind. rlocks s m = rw_init api kind) \<and> regs s = (\<lambda>_. []) \<and> acquiring s = (\<lambda>_. None) \<and>
     held_rw s = (\<lambda>_. None)"

definition rrw_put :: "tid \<Rightarrow> mutex_id \<Rightarrow> registry \<Rightarrow> mutex_id option \<Rightarrow> 'm \<Rightarrow> tid option \<Rightarrow> 'm rrw_sys \<Rightarrow> 'm rrw_sys" where
  "rrw_put t m held a l w s = s\<lparr>rlocks := (rlocks s)(m := l), regs := (regs s)(t := held),
     acquiring := (acquiring s)(t := a), held_rw := (held_rw s)(m := w)\<rparr>"

text \<open>
  The calls of thread \<open>t\<close> on mutex \<open>m\<close>, in a build that checks the return codes. The caller's duties: what is
  released is held, and a depth stays below the 32 bits of its counter.
\<close>

inductive rrw_step :: "'m rw_api \<Rightarrow> 'm rrw_sys \<Rightarrow> 'm rrw_sys \<Rightarrow> bool" for api where
  acquire_ro: "acquiring s t = None \<Longrightarrow> depth_of (regs s t) m + 1 < 2 ^ 32 \<Longrightarrow>
    rrw_acquire_ro can_grow m (regs s t) = Some (calls, held) \<Longrightarrow>
    rrw_step api s (rrw_put t m held (if calls = [] then None else Some m) (rlocks s m) (held_rw s m) s)"
| os_acquired: "acquiring s t = Some m \<Longrightarrow> posix_os_acquire_ro True api t (rlocks s m) = Continues l \<Longrightarrow>
    rrw_step api s (rrw_put t m (regs s t) None l (held_rw s m) s)"
| release_ro: "acquiring s t = None \<Longrightarrow> 0 < depth_of (regs s t) m \<Longrightarrow>
    rrw_release_ro m (regs s t) = (calls, held) \<Longrightarrow>
    (if calls = [] then l = rlocks s m else posix_os_release_ro True api t (rlocks s m) = Continues l) \<Longrightarrow>
    rrw_step api s (rrw_put t m held None l (held_rw s m) s)"
| try_acquire_ro: "acquiring s t = None \<Longrightarrow> depth_of (regs s t) m + 1 < 2 ^ 32 \<Longrightarrow>
    posix_os_try_acquire_ro api t (rlocks s m) = (os_ok, l) \<Longrightarrow>
    rrw_try_acquire_ro can_grow os_ok m (regs s t) = Some (ok, calls, held) \<Longrightarrow>
    rrw_step api s (rrw_put t m held None (if calls = [] then rlocks s m else l) (held_rw s m) s)"
| acquire_rw: "acquiring s t = None \<Longrightarrow> posix_acquire_rw True api t (rlocks s m) = Continues l \<Longrightarrow>
    rrw_step api s (rrw_put t m (regs s t) None l (Some t) s)"
| try_acquire_rw: "acquiring s t = None \<Longrightarrow> posix_try_acquire_rw api t (rlocks s m) = (ok, l) \<Longrightarrow>
    rrw_step api s (rrw_put t m (regs s t) None l (if ok then Some t else held_rw s m) s)"
| release_rw: "acquiring s t = None \<Longrightarrow> held_rw s m = Some t \<Longrightarrow> posix_release_rw True api t (rlocks s m) = Continues l \<Longrightarrow>
    rrw_step api s (rrw_put t m (regs s t) None l None s)"

section \<open>The invariant\<close>

text \<open>The operating system sees one hold of every thread that reads, however deep, and the writer.\<close>

definition reads :: "'m rrw_sys \<Rightarrow> tid \<Rightarrow> mutex_id \<Rightarrow> bool" where
  "reads s t m \<longleftrightarrow> 0 < depth_of (regs s t) m \<and> acquiring s t \<noteq> Some m"

definition rrw_inv :: "('m \<Rightarrow> tid \<Rightarrow> nat) \<Rightarrow> ('m \<Rightarrow> tid option) \<Rightarrow> 'm rrw_sys \<Rightarrow> bool" where
  "rrw_inv readers writer s \<longleftrightarrow>
     (\<forall>t. registry_ok (regs s t) \<and> (\<forall>m. acquiring s t = Some m \<longrightarrow> depth_of (regs s t) m = 1)) \<and>
     (\<forall>m. readers (rlocks s m) = (\<lambda>t. of_bool (reads s t m)) \<and> writer (rlocks s m) = held_rw s m \<and>
        (held_rw s m \<noteq> None \<longrightarrow> readers (rlocks s m) = (\<lambda>_. 0)))"

lemma rrw_invD:
  assumes "rrw_inv readers writer s"
  shows rrw_inv_ok: "registry_ok (regs s t)"
    and rrw_inv_acquiring: "acquiring s t = Some m \<Longrightarrow> depth_of (regs s t) m = 1"
    and rrw_inv_readers: "readers (rlocks s m) = (\<lambda>t. of_bool (reads s t m))"
    and rrw_inv_writer: "writer (rlocks s m) = held_rw s m"
    and rrw_inv_excluded: "held_rw s m \<noteq> None \<Longrightarrow> readers (rlocks s m) = (\<lambda>_. 0)"
  using assms unfolding rrw_inv_def by blast+

lemma rrw_inv_put:
  assumes inv: "rrw_inv readers writer s" and ok: "registry_ok held"
    and d: "depth_of held = (depth_of (regs s t))(m := d)"
    and a: "acquiring s t = None \<or> acquiring s t = Some m" "a = None \<or> a = Some m \<and> d = 1"
    and r: "readers l = (readers (rlocks s m))(t := of_bool (0 < d \<and> a = None))"
    and w: "writer l = w" "w \<noteq> None \<Longrightarrow> readers l = (\<lambda>_. 0)"
  shows "rrw_inv readers writer (rrw_put t m held a l w s)"
  unfolding rrw_inv_def
proof (intro conjI allI impI)
  let ?s = "rrw_put t m held a l w s"
  fix u k
  show "registry_ok (regs ?s u)" using rrw_inv_ok [OF inv] ok by (simp add: rrw_put_def)
  show "depth_of (regs ?s u) k = 1" if "acquiring ?s u = Some k"
    using that rrw_inv_acquiring [OF inv, of u k] a d by (auto simp: rrw_put_def split: if_splits)
  have moved: "reads ?s v k \<longleftrightarrow> (if v = t \<and> k = m then 0 < d \<and> a = None else reads s v k)" for v
    using a d by (auto simp: reads_def rrw_put_def)
  show "readers (rlocks ?s k) = (\<lambda>v. of_bool (reads ?s v k))"
    unfolding moved using rrw_inv_readers [OF inv, of k] r by (auto simp: rrw_put_def fun_eq_iff)
  show "writer (rlocks ?s k) = held_rw ?s k" using rrw_inv_writer [OF inv, of k] w by (simp add: rrw_put_def)
  show "readers (rlocks ?s k) = (\<lambda>_. 0)" if "held_rw ?s k \<noteq> None"
    using that rrw_inv_excluded [OF inv, of k] w(2) by (auto simp: rrw_put_def split: if_splits)
qed

text \<open>A hold that is there is found without memory and without a call.\<close>

lemma reacquire_without_call:
  assumes "registry_ok held" and "depth_of held m + 1 < 2 ^ 32" and "0 < depth_of held m"
  shows "\<exists>held'. rrw_acquire_ro can_grow m held = Some ([], held') \<and> depth_of held' = (depth_of held)(m := depth_of held m + 1)"
proof -
  have "\<exists>first held'. registry_enter can_grow m held = Some (first, held')"
    using assms(3) by (induction held) auto
  then obtain first held' where e: "registry_enter can_grow m held = Some (first, held')" by blast
  with enter_spec [OF assms(1,2) e] assms(3) show ?thesis by (simp add: rrw_acquire_ro_def)
qed

context os_rwlock
begin

lemma try_acquire_ro_took:
  "posix_os_try_acquire_ro api t m = (ok, m') \<Longrightarrow> if ok then took_read readers writer t m m' else m' = m"
  using rw_tryrd [of t m] by (auto simp: posix_os_try_acquire_ro_def split: reply.splits)

lemma try_acquire_rw_took:
  "posix_try_acquire_rw api t m = (ok, m') \<Longrightarrow> if ok then took_write readers writer t m m' else m' = m"
  using rw_trywr [of t m] by (auto simp: posix_try_acquire_rw_def split: reply.splits)

lemma rrw_inv_init: "rrw_init api s \<Longrightarrow> rrw_inv readers writer s"
  unfolding rrw_inv_def rrw_init_def reads_def
  using rw_init_free by (auto simp: registry_ok_def fun_eq_iff) metis+

text \<open>Taking the read side in the system for a first hold, or not.\<close>

lemma rrw_inv_take_read:
  assumes inv: "rrw_inv readers writer s" and took: "took_read readers writer t (rlocks s m) l"
    and ok: "registry_ok held" and d: "depth_of held = (depth_of (regs s t))(m := 1)"
    and a: "acquiring s t = None \<or> acquiring s t = Some m" and none: "\<not> reads s t m"
  shows "rrw_inv readers writer (rrw_put t m held None l (held_rw s m) s)"
proof (rule rrw_inv_put [OF inv ok d a])
  have w: "held_rw s m = None" using took rrw_inv_writer [OF inv, of m] by (simp add: took_read_def)
  show "readers l = (readers (rlocks s m))(t := of_bool (0 < (1 :: nat) \<and> None = None))"
    using took rrw_inv_readers [OF inv, of m] none by (simp add: took_read_def fun_eq_iff)
  show "writer l = held_rw s m" "held_rw s m \<noteq> None \<Longrightarrow> readers l = (\<lambda>_. 0)"
    using took w by (simp_all add: took_read_def)
qed simp

lemma rrw_inv_same_lock:
  assumes inv: "rrw_inv readers writer s" and "acquiring s t = None"
    and ok: "registry_ok held" and d: "depth_of held = (depth_of (regs s t))(m := d)" and "0 < d \<longleftrightarrow> reads s t m"
  shows "rrw_inv readers writer (rrw_put t m held None (rlocks s m) (held_rw s m) s)"
  by (rule rrw_inv_put [OF inv ok d])
    (use assms rrw_inv_readers [OF inv, of m] rrw_inv_writer [OF inv, of m] rrw_inv_excluded [OF inv, of m]
      in \<open>auto simp: fun_eq_iff\<close>)

lemma rrw_inv_take_write:
  assumes inv: "rrw_inv readers writer s" and took: "took_write readers writer t (rlocks s m) l"
    and "acquiring s t = None"
  shows "rrw_inv readers writer (rrw_put t m (regs s t) None l (Some t) s)"
proof (rule rrw_inv_put [OF inv rrw_inv_ok [OF inv], where d = "depth_of (regs s t) m"])
  have "readers (rlocks s m) = (\<lambda>_. 0)" using took by (simp add: took_write_def)
  then have "\<not> reads s t m" using rrw_inv_readers [OF inv, of m] by (auto simp: fun_eq_iff)
  then show "readers l = (readers (rlocks s m))(t := of_bool (0 < depth_of (regs s t) m \<and> None = None))"
    using took assms(3) by (auto simp: took_write_def reads_def fun_eq_iff)
qed (use took assms(3) in \<open>auto simp: took_write_def\<close>)

lemma rrw_inv_give_write:
  assumes inv: "rrw_inv readers writer s" and "acquiring s t = None" and held: "held_rw s m = Some t"
    and rel: "posix_release_rw True api t (rlocks s m) = Continues l"
  shows "rrw_inv readers writer (rrw_put t m (regs s t) None l None s)"
proof (rule rrw_inv_put [OF inv rrw_inv_ok [OF inv], where d = "depth_of (regs s t) m"])
  have l: "writer l = None" "readers l = (\<lambda>_. 0)"
    using release_rw_frees [of "rlocks s m" t True] rrw_inv_writer [OF inv, of m] held rel by auto
  have none: "readers (rlocks s m) = (\<lambda>_. 0)" using rrw_inv_excluded [OF inv, of m] held by simp
  then have "\<not> reads s t m" using rrw_inv_readers [OF inv, of m] by (auto simp: fun_eq_iff)
  then show "readers l = (readers (rlocks s m))(t := of_bool (0 < depth_of (regs s t) m \<and> None = None))"
    using l none assms(2) by (auto simp: reads_def fun_eq_iff)
  show "writer l = None" by (rule l)
qed (use assms(2) in auto)

lemma rrw_inv_enter:
  assumes inv: "rrw_inv readers writer s" and idle: "acquiring s t = None" and small: "depth_of (regs s t) m + 1 < 2 ^ 32"
    and acq: "rrw_acquire_ro can_grow m (regs s t) = Some (calls, held)"
  shows "rrw_inv readers writer (rrw_put t m held (if calls = [] then None else Some m) (rlocks s m) (held_rw s m) s)"
proof -
  obtain first where e: "registry_enter can_grow m (regs s t) = Some (first, held)"
      "calls = (if first then [Os_Acquire_Ro m] else [])"
    using acq by (auto simp: rrw_acquire_ro_def)
  note spec = enter_spec [OF rrw_inv_ok [OF inv] small e(1)]
  show ?thesis
  proof (cases first)
    case True
    then have zero: "depth_of (regs s t) m = 0" using spec by simp
    then have "\<not> reads s t m" by (simp add: reads_def)
    then have "readers (rlocks s m) t = 0" using rrw_inv_readers [OF inv, of m] by simp
    then show ?thesis
      using spec True e(2) zero idle rrw_inv_writer [OF inv, of m] rrw_inv_excluded [OF inv, of m]
      by (intro rrw_inv_put [OF inv, where d = 1]) (auto simp: fun_eq_iff)
  next
    case False
    then show ?thesis
      using spec e(2) idle rrw_inv_same_lock [OF inv idle, of held m "depth_of (regs s t) m + 1"] by (simp add: reads_def)
  qed
qed

lemma rrw_inv_leave:
  assumes inv: "rrw_inv readers writer s" and idle: "acquiring s t = None" and pos: "0 < depth_of (regs s t) m"
    and rel: "rrw_release_ro m (regs s t) = (calls, held)"
      "if calls = [] then l = rlocks s m else posix_os_release_ro True api t (rlocks s m) = Continues l"
  shows "rrw_inv readers writer (rrw_put t m held None l (held_rw s m) s)"
proof -
  obtain last where e: "registry_leave m (regs s t) = (last, held)" "calls = (if last then [Os_Release_Ro m] else [])"
    using rel(1) by (auto simp: rrw_release_ro_def split: prod.splits)
  note spec = leave_spec [OF rrw_inv_ok [OF inv] pos e(1)]
  have reading: "reads s t m" using idle pos by (simp add: reads_def)
  show ?thesis
  proof (cases last)
    case True
    have one: "0 < readers (rlocks s m) t" using reading rrw_inv_readers [OF inv, of m] by simp
    then have free: "held_rw s m = None" using rrw_inv_excluded [OF inv, of m] by (cases "held_rw s m") auto
    then have "writer (rlocks s m) = None" using rrw_inv_writer [OF inv, of m] by simp
    from release_ro_one [OF this one, of True] True rel(2) e(2)
    have "writer l = None" "readers l = (readers (rlocks s m))(t := readers (rlocks s m) t - 1)" by auto
    then show ?thesis
      using spec True idle free reading rrw_inv_readers [OF inv, of m]
      by (intro rrw_inv_put [OF inv, where d = 0]) auto
  next
    case False
    then show ?thesis
      using spec e(2) rel(2) pos reading rrw_inv_same_lock [OF inv idle, of held m "depth_of (regs s t) m - 1"] by simp
  qed
qed

lemma rrw_inv_try:
  assumes inv: "rrw_inv readers writer s" and idle: "acquiring s t = None" and small: "depth_of (regs s t) m + 1 < 2 ^ 32"
    and os: "posix_os_try_acquire_ro api t (rlocks s m) = (os_ok, l)"
    and tried: "rrw_try_acquire_ro can_grow os_ok m (regs s t) = Some (ok, calls, held)"
  shows "rrw_inv readers writer (rrw_put t m held None (if calls = [] then rlocks s m else l) (held_rw s m) s)"
proof -
  obtain b held' where e: "bump_if_held m (regs s t) = (b, held')" by fastforce
  note spec = bump_spec [OF rrw_inv_ok [OF inv] small e]
  show ?thesis
  proof (cases b)
    case True
    with tried e have "calls = []" "held = held'" by (simp_all add: rrw_try_acquire_ro_def)
    then show ?thesis
      using spec True idle rrw_inv_same_lock [OF inv idle, of held' m "depth_of (regs s t) m + 1"] by (simp add: reads_def)
  next
    case False
    with tried e have c: "calls \<noteq> []" "held = (if os_ok then note_first m (regs s t) else regs s t)"
      by (auto simp: rrw_try_acquire_ro_def reserve_one_def split: if_splits)
    have zero: "depth_of (regs s t) m = 0" using spec False by simp
    then have same: "depth_of (regs s t) = (depth_of (regs s t))(m := 0)" by (simp add: fun_eq_iff)
    show ?thesis
      using c try_acquire_ro_took [OF os] zero idle note_first_spec [OF rrw_inv_ok [OF inv] zero]
        rrw_inv_take_read [OF inv, of t m l "note_first m (regs s t)"]
        rrw_inv_same_lock [OF inv idle rrw_inv_ok [OF inv] same]
      by (auto simp: reads_def split: if_splits)
  qed
qed

lemma rrw_inv_step:
  assumes inv: "rrw_inv readers writer s" and step: "rrw_step api s s'"
  shows "rrw_inv readers writer s'"
  using step
proof cases
  case (acquire_ro t m can_grow calls held)
  then show ?thesis using rrw_inv_enter [OF inv] by blast
next
  case (os_acquired t m l)
  have "depth_of (regs s t) m = 1" by (rule rrw_inv_acquiring [OF inv os_acquired(2)])
  then have "depth_of (regs s t) = (depth_of (regs s t))(m := 1)" by (simp add: fun_eq_iff)
  then show ?thesis
    using os_acquired rrw_inv_take_read [OF inv acquire_ro_took [OF os_acquired(3)] rrw_inv_ok [OF inv]]
    by (simp add: reads_def)
next
  case (release_ro t m calls held l)
  then show ?thesis using rrw_inv_leave [OF inv] by blast
next
  case (try_acquire_ro t m os_ok l can_grow ok calls held)
  then show ?thesis using rrw_inv_try [OF inv] by blast
next
  case (acquire_rw t m l)
  then show ?thesis using rrw_inv_take_write [OF inv acquire_rw_took] by blast
next
  case (try_acquire_rw t m ok l)
  have trivial: "depth_of (regs s t) = (depth_of (regs s t))(m := depth_of (regs s t) m)" by simp
  show ?thesis
    using try_acquire_rw try_acquire_rw_took [OF try_acquire_rw(3)] rrw_inv_take_write [OF inv]
      rrw_inv_same_lock [OF inv try_acquire_rw(2) rrw_inv_ok [OF inv] trivial]
    by (auto simp: reads_def split: if_splits)
next
  case (release_rw t m l)
  then show ?thesis using rrw_inv_give_write [OF inv] by blast
qed

end

sublocale os_rwlock \<subseteq> rrw: invariant_system "rrw_init api" "rrw_step api" "rrw_inv readers writer"
  by unfold_locales (rule rrw_inv_init, assumption, rule rrw_inv_step)

context os_rwlock
begin

lemmas rrw_reach_inv = rrw.inv_reach

end

section \<open>Theorems\<close>

text \<open>C24. The reentrant mutex in use: in every reachable state the operating system's lock has one hold of each thread that
  reads, however deep, and the writer; so while somebody writes nobody reads, and once nobody does either
  the lock is free. A thread that reads can read again at once, without memory, without a call to the system and whoever
  waits for the exclusive side; and what it has acquired it can release, the last time with an unlock that
  succeeds.\<close>

theorem rrw_system_correct:
  assumes "rw_contract api readers writer" and "reach (rrw_init api) (rrw_step api) s"
  shows "readers (rlocks s m) = (\<lambda>t. of_bool (reads s t m)) \<and> writer (rlocks s m) = held_rw s m \<and>
    (held_rw s m \<noteq> None \<longrightarrow> \<not> reads s t m) \<and>
    (reads s t m \<and> depth_of (regs s t) m + 1 < 2 ^ 32 \<longrightarrow>
      (\<exists>held. rrw_acquire_ro can_grow m (regs s t) = Some ([], held) \<and>
        depth_of held = (depth_of (regs s t))(m := depth_of (regs s t) m + 1))) \<and>
    (reads s t m \<longrightarrow> (case rrw_release_ro m (regs s t) of (calls, held) \<Rightarrow>
      (if depth_of (regs s t) m = 1
       then calls = [Os_Release_Ro m] \<and> (\<exists>l. posix_os_release_ro True api t (rlocks s m) = Continues l \<and>
         readers l = (readers (rlocks s m))(t := 0))
       else calls = [])))"
proof -
  have os: "os_rwlock api readers writer" using assms(1) by (simp add: os_rwlock_def)
  note inv = os_rwlock.rrw_reach_inv [OF os assms(2)]
  note ok = rrw_inv_ok [OF inv]
  have excluded: "\<not> reads s t m" if "held_rw s m \<noteq> None"
    using rrw_inv_excluded [OF inv that] rrw_inv_readers [OF inv, of m] by (auto simp: fun_eq_iff)
  have nested: "\<exists>held. rrw_acquire_ro can_grow m (regs s t) = Some ([], held) \<and>
      depth_of held = (depth_of (regs s t))(m := depth_of (regs s t) m + 1)"
    if "reads s t m" "depth_of (regs s t) m + 1 < 2 ^ 32"
    using reacquire_without_call [OF ok that(2)] that(1) by (simp add: reads_def)
  have release: "case rrw_release_ro m (regs s t) of (calls, held) \<Rightarrow>
      (if depth_of (regs s t) m = 1
       then calls = [Os_Release_Ro m] \<and> (\<exists>l. posix_os_release_ro True api t (rlocks s m) = Continues l \<and>
         readers l = (readers (rlocks s m))(t := 0))
       else calls = [])" if reading: "reads s t m"
  proof -
    obtain last held where e: "registry_leave m (regs s t) = (last, held)" by fastforce
    have "last \<longleftrightarrow> depth_of (regs s t) m = 1" using leave_spec [OF ok _ e] reading by (simp add: reads_def)
    moreover have "held_rw s m = None" using excluded reading by blast
    then have "writer (rlocks s m) = None" using rrw_inv_writer [OF inv, of m] by simp
    from os_rwlock.release_ro_one [OF os this, of t True] rrw_inv_readers [OF inv, of m] reading
    have "\<exists>l. posix_os_release_ro True api t (rlocks s m) = Continues l \<and> readers l = (readers (rlocks s m))(t := 0)"
      by auto
    ultimately show ?thesis using e by (simp add: rrw_release_ro_def)
  qed
  from excluded nested release show ?thesis using rrw_inv_readers [OF inv, of m] rrw_inv_writer [OF inv, of m] by blast
qed

text \<open>Thread 1 reads mutex 7.\<close>

definition rrw_start :: "(tid list \<times> tid option) rrw_sys" where
  "rrw_start = \<lparr>rlocks = (\<lambda>_. ([], None)), regs = (\<lambda>_. []), acquiring = (\<lambda>_. None), held_rw = (\<lambda>_. None)\<rparr>"

definition rrw_demo :: "(tid list \<times> tid option) rrw_sys" where
  "rrw_demo = \<lparr>rlocks = (\<lambda>_. ([], None))(7 := ([1], None)), regs = (\<lambda>_. [])(1 := [\<lparr>held_mutex = 7, depth = 1\<rparr>]),
     acquiring = (\<lambda>_. None), held_rw = (\<lambda>_. None)\<rparr>"

lemma rrw_demo_reach: "reach (rrw_init plain_rwlock) (rrw_step plain_rwlock) rrw_demo"
proof -
  let ?mid = "rrw_put 1 7 [\<lparr>held_mutex = 7, depth = 1\<rparr>] (Some 7) ([], None) None rrw_start"
  have "reach (rrw_init plain_rwlock) (rrw_step plain_rwlock) rrw_start"
    by (rule reach.start) (simp add: rrw_init_def rrw_start_def plain_rwlock_def)
  moreover have "rrw_step plain_rwlock rrw_start ?mid"
    using rrw_step.acquire_ro [of rrw_start 1 7 True "[Os_Acquire_Ro 7]" "[\<lparr>held_mutex = 7, depth = 1\<rparr>]" plain_rwlock]
    by (simp add: rrw_start_def rrw_acquire_ro_def)
  moreover have "rrw_step plain_rwlock ?mid rrw_demo"
    using rrw_step.os_acquired [of ?mid 1 7 plain_rwlock "([1], None)"]
    by (simp add: rrw_demo_def rrw_start_def rrw_put_def posix_os_acquire_ro_def verify_def plain_rwlock_def fun_upd_idem)
  ultimately show ?thesis by (blast intro: reach.move)
qed

theorem rrw_system_correct_witness:
  "reads rrw_demo 1 7 \<and> (\<exists>held. rrw_acquire_ro False 7 (regs rrw_demo 1) = Some ([], held)) \<and>
   (\<exists>l. posix_os_release_ro True plain_rwlock 1 (rlocks rrw_demo 7) = Continues l \<and> plain_readers l 1 = 0)"
proof -
  have reading: "reads rrw_demo 1 7" "depth_of (regs rrw_demo 1) 7 = 1" by (simp_all add: reads_def rrw_demo_def)
  with rrw_system_correct [OF plain.contract rrw_demo_reach, of 7 1 False] show ?thesis
    by (auto split: prod.splits)
qed

end
