(* ===== verification/Condvar.thy ===== *)
theory Condvar
  imports Mutex
begin

text \<open>
  The condition variables of threading/condvar.hpp: the POSIX one (threading/posix/condvar.hpp) and the Windows
  one (threading/windows/condvar.hpp). Both forward to the operating system, whose condition variable is a
  parameter: a state and its calls, with the contract its documentation gives. The wrappers add the checks of
  return codes, the moves and, on Windows, the timed wait. Theory \<open>SemMonitor\<close> is their client.
\<close>

section \<open>The operating system's condition variable\<close>

text \<open>
  A wait has two parts: \<open>cv_block\<close> releases the mutex and suspends the thread, in one; once the thread is no
  longer suspended it takes the mutex again and the wait returns. Which threads a signal wakes, and which
  wake up by themselves, is not determined: \<open>cv_signal\<close> and \<open>cv_spurious\<close> list what may happen.
\<close>

record ('c, 'm) condvar_api =
  cv_init :: 'c
  cv_suspends :: "'c \<Rightarrow> tid \<Rightarrow> bool"
  cv_block :: "tid \<Rightarrow> 'c \<times> 'm \<Rightarrow> ('c \<times> 'm) reply"
  cv_signal :: "'c \<Rightarrow> 'c reply list"
  cv_broadcast :: "'c \<Rightarrow> 'c reply"
  cv_spurious :: "'c \<Rightarrow> 'c list"
  cv_destroy :: "'c \<Rightarrow> 'c reply"

text \<open>Nothing is said of a wait by a thread that does not hold the mutex.\<close>

definition condvar_contract :: "('c, 'm) condvar_api \<Rightarrow> ('m \<Rightarrow> tid option) \<Rightarrow> bool" where
  "condvar_contract capi holder \<longleftrightarrow>
     (\<forall>t. \<not> cv_suspends capi (cv_init capi) t) \<and>
     (\<forall>t c m. holder m = Some t \<longrightarrow> (\<exists>c' m'. cv_block capi t (c, m) = Success (c', m') \<and> holder m' = None \<and>
        cv_suspends capi c' = (cv_suspends capi c)(t := True))) \<and>
     (\<forall>c. cv_signal capi c \<noteq> [] \<and> (\<forall>r\<in>set (cv_signal capi c). \<exists>c'. r = Success c' \<and>
        cv_suspends capi c' \<le> cv_suspends capi c \<and>
        (Ex (cv_suspends capi c) \<longrightarrow> cv_suspends capi c' \<noteq> cv_suspends capi c))) \<and>
     (\<forall>c. \<exists>c'. cv_broadcast capi c = Success c' \<and> (\<forall>t. \<not> cv_suspends capi c' t)) \<and>
     (\<forall>c. \<forall>c'\<in>set (cv_spurious capi c). \<exists>t. cv_suspends capi c' = (cv_suspends capi c)(t := False)) \<and>
     (\<forall>c. (\<forall>t. \<not> cv_suspends capi c t) \<longrightarrow> (\<exists>c'. cv_destroy capi c = Success c'))"

section \<open>The wrappers\<close>

text \<open>\<open>pthread_condition_variable\<close>. Moving copies the state and leaves a fresh one behind.\<close>

definition posix_cv_move :: "('c, 'm) condvar_api \<Rightarrow> 'c \<Rightarrow> 'c \<times> 'c" where
  "posix_cv_move capi other = (other, cv_init capi)"

definition posix_cv_destroy :: "bool \<Rightarrow> ('c, 'm) condvar_api \<Rightarrow> 'c \<Rightarrow> 'c verified" where
  "posix_cv_destroy debug capi c = verify debug c (cv_destroy capi c)"

definition posix_notify_all :: "bool \<Rightarrow> ('c, 'm) condvar_api \<Rightarrow> 'c \<Rightarrow> 'c verified" where
  "posix_notify_all debug capi c = verify debug c (cv_broadcast capi c)"

definition posix_notify_one :: "bool \<Rightarrow> ('c, 'm) condvar_api \<Rightarrow> 'c \<Rightarrow> 'c verified list" where
  "posix_notify_one debug capi c = map (verify debug c) (cv_signal capi c)"

definition posix_cv_wait :: "bool \<Rightarrow> ('c, 'm) condvar_api \<Rightarrow> tid \<Rightarrow> 'c \<times> 'm \<Rightarrow> ('c \<times> 'm) verified" where
  "posix_cv_wait debug capi t cm = verify debug cm (cv_block capi t cm)"

text \<open>
  \<open>win32_condition_variable\<close>: the calls that wake return nothing. A wait ends woken, at its timeout or, by a
  misuse, with another error; without a timeout it is \<open>wait\<close> with \<open>INFINITE\<close>, whose result is asserted.
\<close>

datatype sleep_end = Woken | Timed_Out | Sleep_Failed

definition win32_cv_move :: "('c, 'm) condvar_api \<Rightarrow> 'c \<Rightarrow> 'c \<times> 'c" where
  "win32_cv_move capi other = (other, cv_init capi)"

definition win32_notify_all :: "('c, 'm) condvar_api \<Rightarrow> 'c \<Rightarrow> 'c verified" where
  "win32_notify_all capi c = verify False c (cv_broadcast capi c)"

definition win32_notify_one :: "('c, 'm) condvar_api \<Rightarrow> 'c \<Rightarrow> 'c verified list" where
  "win32_notify_one capi c = map (verify False c) (cv_signal capi c)"

definition win32_timed_wait :: "bool \<Rightarrow> sleep_end \<Rightarrow> bool verified" where
  "win32_timed_wait debug r =
     (if debug \<and> \<not> (r = Woken \<or> r = Timed_Out) then Assertion else Continues (r = Woken))"

definition win32_cv_wait :: "bool \<Rightarrow> sleep_end \<Rightarrow> unit verified" where
  "win32_cv_wait debug r = (case win32_timed_wait debug r of
      Continues ok \<Rightarrow> if debug \<and> \<not> ok then Assertion else Continues ()
    | Assertion \<Rightarrow> Assertion | Waiting \<Rightarrow> Waiting)"

section \<open>What the rest of the library relies on\<close>

locale os_condvar =
  fixes capi :: "('c, 'm) condvar_api" and holder :: "'m \<Rightarrow> tid option"
  assumes cv_contract: "condvar_contract capi holder"
begin

lemma cv_init_awake: "\<not> cv_suspends capi (cv_init capi) t"
  and cv_block_suspends: "holder m = Some t \<Longrightarrow> \<exists>c' m'. cv_block capi t (c, m) = Success (c', m') \<and>
    holder m' = None \<and> cv_suspends capi c' = (cv_suspends capi c)(t := True)"
  and cv_signal_some: "cv_signal capi c \<noteq> []"
  and cv_signal_wakes: "r \<in> set (cv_signal capi c) \<Longrightarrow> \<exists>c'. r = Success c' \<and>
    cv_suspends capi c' \<le> cv_suspends capi c \<and>
    (Ex (cv_suspends capi c) \<longrightarrow> cv_suspends capi c' \<noteq> cv_suspends capi c)"
  and cv_broadcast_wakes: "\<exists>c'. cv_broadcast capi c = Success c' \<and> (\<forall>t. \<not> cv_suspends capi c' t)"
  and cv_spurious_wakes: "c' \<in> set (cv_spurious capi c) \<Longrightarrow> \<exists>t. cv_suspends capi c' = (cv_suspends capi c)(t := False)"
  and cv_destroy_awake: "(\<And>t. \<not> cv_suspends capi c t) \<Longrightarrow> \<exists>c'. cv_destroy capi c = Success c'"
  using cv_contract unfolding condvar_contract_def by blast+

lemma wait_suspends:
  assumes "holder m = Some t"
  shows "\<exists>c' m'. posix_cv_wait debug capi t (c, m) = Continues (c', m') \<and> holder m' = None \<and>
    cv_suspends capi c' = (cv_suspends capi c)(t := True)"
  using cv_block_suspends [OF assms, of c] by (auto simp: posix_cv_wait_def verify_def)

lemma notify_one_wakes:
  assumes "v \<in> set (posix_notify_one debug capi c)"
  shows "\<exists>c'. v = Continues c' \<and> cv_suspends capi c' \<le> cv_suspends capi c \<and>
    (Ex (cv_suspends capi c) \<longrightarrow> (\<exists>t. cv_suspends capi c t \<and> \<not> cv_suspends capi c' t))"
proof -
  from assms obtain r where r: "r \<in> set (cv_signal capi c)" "v = verify debug c r"
    by (auto simp: posix_notify_one_def)
  from cv_signal_wakes [OF r(1)] obtain c' where "r = Success c'" "cv_suspends capi c' \<le> cv_suspends capi c"
    "Ex (cv_suspends capi c) \<longrightarrow> cv_suspends capi c' \<noteq> cv_suspends capi c" by blast
  with r(2) show ?thesis by (auto simp: verify_def le_fun_def fun_eq_iff)
qed

lemma notify_one_some: "posix_notify_one debug capi c \<noteq> []"
  using cv_signal_some by (simp add: posix_notify_one_def)

lemma notify_all_wakes: "\<exists>c'. posix_notify_all debug capi c = Continues c' \<and> (\<forall>t. \<not> cv_suspends capi c' t)"
  using cv_broadcast_wakes [of c] by (auto simp: posix_notify_all_def verify_def)

end

lemma win32_condvar_is_posix: "win32_notify_all = posix_notify_all False" "win32_notify_one = posix_notify_one False"
    "win32_cv_move = posix_cv_move"
  by (simp_all add: fun_eq_iff win32_notify_all_def posix_notify_all_def win32_notify_one_def posix_notify_one_def
      win32_cv_move_def posix_cv_move_def)

text \<open>
  Two condition variables that keep the contract: one that wakes in the order of arrival and only when
  notified, and one whose signal wakes any thread or all of them and that wakes threads for no reason.
\<close>

definition fifo_condvar :: "(tid list, tid option) condvar_api" where
  "fifo_condvar = \<lparr>cv_init = [], cv_suspends = (\<lambda>c t. t \<in> set c),
     cv_block = (\<lambda>t (c, m). if m = Some t then Success (removeAll t c @ [t], None) else Error),
     cv_signal = (\<lambda>c. [Success (case c of [] \<Rightarrow> [] | t # _ \<Rightarrow> removeAll t c)]), cv_broadcast = (\<lambda>c. Success []),
     cv_spurious = (\<lambda>c. []), cv_destroy = (\<lambda>c. if c = [] then Success [] else Error)\<rparr>"

definition loose_condvar :: "(tid list, tid option) condvar_api" where
  "loose_condvar = fifo_condvar\<lparr>cv_signal := (\<lambda>c. Success [] # map (\<lambda>t. Success (removeAll t c)) c),
     cv_spurious := (\<lambda>c. map (\<lambda>t. removeAll t c) c)\<rparr>"

interpretation fifo: os_condvar fifo_condvar "\<lambda>m. m"
proof unfold_locales
  have "(\<lambda>t. t \<in> set (case c of [] \<Rightarrow> [] | t # _ \<Rightarrow> removeAll t c)) \<noteq> (\<lambda>t. t \<in> set c)"
    if "\<exists>t. t \<in> set c" for c :: "tid list"
    using that by (cases c) (auto simp: fun_eq_iff)
  moreover have "(\<lambda>u. u = t \<or> u \<in> set c) = (\<lambda>u. u \<in> set c)(t := True)" for t and c :: "tid list"
    by (simp add: fun_eq_iff)
  ultimately show "condvar_contract fifo_condvar (\<lambda>m. m)"
    by (auto simp: condvar_contract_def fifo_condvar_def le_fun_def split: list.splits)
qed

interpretation loose: os_condvar loose_condvar "\<lambda>m. m"
proof unfold_locales
  have "(\<exists>t. t \<in> set c) \<longrightarrow> (\<lambda>t. t \<in> set c') \<noteq> (\<lambda>t. t \<in> set c)"
    if "c' = [] \<or> (\<exists>t\<in>set c. c' = removeAll t c)" for c c' :: "tid list"
    using that by (auto simp: fun_eq_iff)
  moreover have "\<exists>u. (\<lambda>t. t \<in> set c \<and> t \<noteq> x) = (\<lambda>t. t \<in> set c)(u := False)" for c :: "tid list" and x
    by (intro exI [of _ x]) (auto simp: fun_eq_iff)
  ultimately show "condvar_contract loose_condvar (\<lambda>m. m)"
    by (auto simp: condvar_contract_def loose_condvar_def fifo_condvar_def le_fun_def fun_eq_iff)
qed

section \<open>Theorems\<close>

text \<open>The wrappers of a condition variable that keeps its contract: destruction of one that nobody waits on does
  not assert, and a move of one leaves two that nobody waits on; a notification always returns, and
  \<open>notify_all\<close> wakes everybody; a wait by the holder of the mutex frees it. On Windows a wait without
  timeout asserts only in a debug build and only when it is not woken, and a timed one tells a timeout
  by its result.\<close>

theorem condvar_wrappers:
  assumes "condvar_contract capi holder"
  shows "((\<forall>t. \<not> cv_suspends capi c t) \<longrightarrow> posix_cv_destroy debug capi c \<noteq> Assertion \<and>
      (\<forall>t. \<not> cv_suspends capi (fst (posix_cv_move capi c)) t \<and> \<not> cv_suspends capi (snd (posix_cv_move capi c)) t)) \<and>
    Assertion \<notin> set (posix_notify_one debug capi c) \<and>
    (\<exists>c'. posix_notify_all debug capi c = Continues c' \<and> (\<forall>t. \<not> cv_suspends capi c' t)) \<and>
    (holder m = Some t \<longrightarrow> (\<exists>c' m'. posix_cv_wait debug capi t (c, m) = Continues (c', m') \<and> holder m' = None)) \<and>
    (win32_cv_wait debug r = Assertion \<longleftrightarrow> debug \<and> r \<noteq> Woken) \<and>
    (win32_timed_wait debug r = Continues False \<longleftrightarrow> r = Timed_Out \<or> \<not> debug \<and> r = Sleep_Failed)"
proof -
  have os: "os_condvar capi holder" using assms by (simp add: os_condvar_def)
  have "posix_cv_destroy debug capi c \<noteq> Assertion" if "\<And>t. \<not> cv_suspends capi c t"
    using os_condvar.cv_destroy_awake [OF os that] by (auto simp: posix_cv_destroy_def verify_def)
  moreover have "Assertion \<notin> set (posix_notify_one debug capi c)"
    using os_condvar.notify_one_wakes [OF os, of Assertion debug c] by auto
  moreover have "\<exists>c' m'. posix_cv_wait debug capi t (c, m) = Continues (c', m') \<and> holder m' = None"
    if "holder m = Some t"
    using os_condvar.wait_suspends [OF os that, of debug c] by blast
  moreover have "(win32_cv_wait debug r = Assertion \<longleftrightarrow> debug \<and> r \<noteq> Woken) \<and>
    (win32_timed_wait debug r = Continues False \<longleftrightarrow> r = Timed_Out \<or> \<not> debug \<and> r = Sleep_Failed)"
    by (cases r) (simp_all add: win32_cv_wait_def win32_timed_wait_def)
  ultimately show ?thesis
    using os_condvar.notify_all_wakes [OF os, of debug c] os_condvar.cv_init_awake [OF os]
    by (simp add: posix_cv_move_def)
qed

theorem condvar_wrappers_witness:
  "posix_notify_all True fifo_condvar [1, 2] = Continues [] \<and> Assertion \<notin> set (posix_notify_one True fifo_condvar [1, 2]) \<and>
   win32_cv_wait True Timed_Out = Assertion"
  using condvar_wrappers [OF fifo.cv_contract, of "[1, 2]" True "Some 1" 1 Timed_Out]
  by (simp add: posix_notify_all_def fifo_condvar_def verify_def)

end
