(* ===== verification/SemMonitor.thy ===== *)
theory SemMonitor
  imports CondvarSemaphore Condvar
begin

text \<open>
  The condition-variable semaphore (threading/generic_semaphore.cpp) call by call: every access to the atomic
  \<open>value_\<close>, every lock and unlock of \<open>mutex_\<close>, every access to \<open>waiters_\<close> and \<open>to_release_\<close> under it, the
  unsynchronised read of \<open>waiters_\<close>, and the waits on and notifications of \<open>condition_\<close>. The mutex and the
  condition variable are those of theories \<open>Mutex\<close> and \<open>Condvar\<close>, over any operating system that keeps
  their contracts. It refines the protocol of theory \<open>CondvarSemaphore\<close>.
\<close>

section \<open>The program\<close>

datatype 'hc sm_pc =
    M_Idle
  | M_Spin_Load "32 word"                     \<comment> \<open>\<open>wait(spin_count)\<close>\<close>
  | M_Spin "32 word" "32 word" "32 word"      \<comment> \<open>spin_count, spin_try, value\<close>
  | M_Wait_Sub                                \<comment> \<open>\<open>wait()\<close>\<close>
  | M_W_Lock
  | M_W_Count                                 \<comment> \<open>\<open>++waiters_\<close>\<close>
  | M_W_Test
  | M_W_Sleep                                 \<comment> \<open>about to call \<open>condition_.wait\<close>\<close>
  | M_W_Asleep                                \<comment> \<open>in it, suspended or about to take the mutex again\<close>
  | M_W_Release                               \<comment> \<open>\<open>--to_release_\<close>\<close>
  | M_W_Leave                                 \<comment> \<open>\<open>--waiters_\<close>\<close>
  | M_W_Unlock
  | M_S_Add 'hc                               \<comment> \<open>\<open>signal(count)\<close>\<close>
  | M_S_Lock 'hc                              \<comment> \<open>\<open>to_wake\<close>\<close>
  | M_S_Deposit 'hc
  | M_S_Test 'hc
  | M_S_Unlock 'hc bool                       \<comment> \<open>whether to notify afterwards\<close>
  | M_S_Compare 'hc
  | M_S_Notify_One 'hc                        \<comment> \<open>notifications left\<close>
  | M_S_Notify_All

record ('c, 'm, 'hc) sm_sys =
  sm_sem :: "'hc csem"
  sm_mutex :: 'm
  sm_cond :: 'c
  sm_pcs :: "tid \<Rightarrow> 'hc sm_pc"
  sm_signalled :: int
  sm_taken :: int

text \<open>What one call of thread \<open>t\<close> may do; nothing, where it cannot move on its own.\<close>

type_synonym ('c, 'm, 'hc) sm_result = "sem_event \<times> 'hc csem \<times> 'm \<times> 'c \<times> 'hc sm_pc"

definition continues :: "'a verified \<Rightarrow> ('a \<Rightarrow> 'b) \<Rightarrow> 'b list" where
  "continues r f = (case r of Continues x \<Rightarrow> [f x] | _ \<Rightarrow> [])"

fun sm_next :: "bool \<Rightarrow> bool \<Rightarrow> 'm mutex_api \<Rightarrow> ('c, 'm) condvar_api \<Rightarrow> tid
    \<Rightarrow> 'h::len word csem \<Rightarrow> 'm \<Rightarrow> 'c \<Rightarrow> 'h word sm_pc \<Rightarrow> ('c, 'm, 'h word) sm_result list" where
  "sm_next exact debug api capi t q m c (M_Spin_Load spin_count) = [(Tau, q, m, c, M_Spin spin_count 0 (cs_value q))]"
| "sm_next exact debug api capi t q m c (M_Spin spin_count spin_try v) =
     (if spin_try < spin_count
      then if 0 <s v
           then (if cs_value q = v then [(Took_Token, q\<lparr>cs_value := v - 1\<rparr>, m, c, M_Idle)] else [])
                @ [(Tau, q, m, c, M_Spin spin_count (spin_try + 1) (cs_value q))]
           else [(Tau, q, m, c, M_Spin spin_count (spin_try + 1) (cs_value q))]
      else [(Tau, q, m, c, M_Wait_Sub)])"
| "sm_next exact debug api capi t q m c M_Wait_Sub =
     [if 0 <s cs_value q then (Took_Token, q\<lparr>cs_value := cs_value q - 1\<rparr>, m, c, M_Idle)
      else (Tau, q\<lparr>cs_value := cs_value q - 1\<rparr>, m, c, M_W_Lock)]"
| "sm_next exact debug api capi t q m c M_W_Lock =
     continues (posix_lock debug api t m) (\<lambda>m'. (Tau, q, m', c, M_W_Count))"
| "sm_next exact debug api capi t q m c M_W_Count =
     [(Tau, q\<lparr>cs_waiters := cs_waiters q + 1\<rparr>, m, c, M_W_Test)]"
| "sm_next exact debug api capi t q m c M_W_Test =
     [(Tau, q, m, c, if cs_to_release q = 0 then M_W_Sleep else M_W_Release)]"
| "sm_next exact debug api capi t q m c M_W_Sleep =
     continues (posix_cv_wait debug capi t (c, m)) (\<lambda>(c', m'). (Tau, q, m', c', M_W_Asleep))"
| "sm_next exact debug api capi t q m c M_W_Asleep =
     (if cv_suspends capi c t then []
      else case os_lock api t m of Success m' \<Rightarrow> [(Tau, q, m', c, M_W_Test)] | _ \<Rightarrow> [])"
| "sm_next exact debug api capi t q m c M_W_Release =
     [(Took_Token, q\<lparr>cs_to_release := cs_to_release q - 1\<rparr>, m, c, M_W_Leave)]"
| "sm_next exact debug api capi t q m c M_W_Leave =
     [(Tau, q\<lparr>cs_waiters := cs_waiters q - 1\<rparr>, m, c, M_W_Unlock)]"
| "sm_next exact debug api capi t q m c M_W_Unlock =
     continues (posix_unlock debug api t m) (\<lambda>m'. (Tau, q, m', c, M_Idle))"
| "sm_next exact debug api capi t q m c (M_S_Add count) =
     [(Added_Tokens (unat count), q\<lparr>cs_value := cs_value q + ucast count\<rparr>, m, c,
       if 0 <s cs_value q then M_Idle
       else M_S_Lock (if exact then 1 else min (ucast (- cs_value q)) count))]"
| "sm_next exact debug api capi t q m c (M_S_Lock to_wake) =
     continues (posix_lock debug api t m) (\<lambda>m'. (Tau, q, m', c, M_S_Deposit to_wake))"
| "sm_next exact debug api capi t q m c (M_S_Deposit to_wake) =
     [(Tau, q\<lparr>cs_to_release := cs_to_release q + to_wake\<rparr>, m, c, M_S_Test to_wake)]"
| "sm_next exact debug api capi t q m c (M_S_Test to_wake) =
     [(Tau, q, m, c, M_S_Unlock to_wake (cs_waiters q \<noteq> 0))]"
| "sm_next exact debug api capi t q m c (M_S_Unlock to_wake notify) =
     continues (posix_unlock debug api t m) (\<lambda>m'. (Tau, q, m', c,
       if \<not> notify then M_Idle else if exact then M_S_Notify_One 1 else M_S_Compare to_wake))"
| "sm_next exact debug api capi t q m c (M_S_Compare to_wake) =
     [(Tau, q, m, c, if to_wake < cs_waiters q then M_S_Notify_One to_wake else M_S_Notify_All)]"
| "sm_next exact debug api capi t q m c (M_S_Notify_One left) =
     (if left \<noteq> 0
      then concat (map (\<lambda>r. continues r (\<lambda>c'. (Tau, q, m, c', M_S_Notify_One (left - 1)))) (posix_notify_one debug capi c))
      else [(Tau, q, m, c, M_Idle)])"
| "sm_next exact debug api capi t q m c M_S_Notify_All =
     continues (posix_notify_all debug capi c) (\<lambda>c'. (Tau, q, m, c', M_Idle))"
| "sm_next exact debug api capi t q m c M_Idle = []"

definition sm_entry :: "bool \<Rightarrow> 'h::len word sm_pc \<Rightarrow> bool" where
  "sm_entry exact p \<longleftrightarrow> p = M_Wait_Sub \<or> (\<exists>c. p = M_Spin_Load c) \<or> (\<exists>c. p = M_S_Add c \<and> (exact \<longrightarrow> c = 1))"

definition sm_init :: "'m mutex_api \<Rightarrow> ('c, 'm) condvar_api \<Rightarrow> ('c, 'm, 'h::len word) sm_sys \<Rightarrow> bool" where
  "sm_init api capi s \<longleftrightarrow> sm_sem s = csem_new \<and> sm_mutex s = os_init api \<and> sm_cond s = cv_init capi \<and>
     sm_pcs s = (\<lambda>_. M_Idle) \<and> sm_signalled s = 0 \<and> sm_taken s = 0"

fun sm_record :: "sem_event \<Rightarrow> ('c, 'm, 'hc) sm_sys \<Rightarrow> ('c, 'm, 'hc) sm_sys" where
  "sm_record Tau s = s"
| "sm_record Took_Token s = s\<lparr>sm_taken := sm_taken s + 1\<rparr>"
| "sm_record (Added_Tokens k) s = s\<lparr>sm_signalled := sm_signalled s + int k\<rparr>"

inductive sm_step :: "bool \<Rightarrow> bool \<Rightarrow> 'm mutex_api \<Rightarrow> ('c, 'm) condvar_api \<Rightarrow> nat
    \<Rightarrow> ('c, 'm, 'h::len word) sm_sys \<Rightarrow> ('c, 'm, 'h word) sm_sys \<Rightarrow> bool"
  for exact debug api capi n where
  call: "t < n \<Longrightarrow> sm_pcs s t = M_Idle \<Longrightarrow> sm_entry exact p \<Longrightarrow>
    sm_step exact debug api capi n s (s\<lparr>sm_pcs := (sm_pcs s)(t := p)\<rparr>)"
| internal: "t < n \<Longrightarrow>
    (e, q, m, c, p) \<in> set (sm_next exact debug api capi t (sm_sem s) (sm_mutex s) (sm_cond s) (sm_pcs s t)) \<Longrightarrow>
    sm_step exact debug api capi n s
      (sm_record e (s\<lparr>sm_sem := q, sm_mutex := m, sm_cond := c, sm_pcs := (sm_pcs s)(t := p)\<rparr>))"
| spurious: "c \<in> set (cv_spurious capi (sm_cond s)) \<Longrightarrow> sm_step exact debug api capi n s (s\<lparr>sm_cond := c\<rparr>)"

definition sm_room :: "('c, 'm, 'h::len word) sm_sys \<Rightarrow> bool" where
  "sm_room s \<longleftrightarrow> sint (cs_value (sm_sem s)) < 2 ^ 31 - 2 ^ 16"

definition sm_run_step :: "bool \<Rightarrow> bool \<Rightarrow> 'm mutex_api \<Rightarrow> ('c, 'm) condvar_api \<Rightarrow> nat
    \<Rightarrow> ('c, 'm, 'h::len word) sm_sys \<Rightarrow> ('c, 'm, 'h word) sm_sys \<Rightarrow> bool" where
  "sm_run_step exact debug api capi n s s' \<longleftrightarrow> sm_step exact debug api capi n s s' \<and> sm_room s \<and> sm_room s'"

section \<open>The invariant\<close>

text \<open>Who holds the mutex, and what the holder has seen under it.\<close>

fun sm_holding :: "'hc sm_pc \<Rightarrow> bool" where
  "sm_holding M_W_Count = True" | "sm_holding M_W_Test = True" | "sm_holding M_W_Sleep = True"
| "sm_holding M_W_Release = True" | "sm_holding M_W_Leave = True" | "sm_holding M_W_Unlock = True"
| "sm_holding (M_S_Deposit k) = True" | "sm_holding (M_S_Test k) = True" | "sm_holding (M_S_Unlock k b) = True"
| "sm_holding _ = False"

fun sm_seen :: "'h::len word csem \<Rightarrow> 'h word sm_pc \<Rightarrow> bool" where
  "sm_seen q M_W_Sleep = (cs_to_release q = 0)" | "sm_seen q M_W_Release = (cs_to_release q \<noteq> 0)"
| "sm_seen q _ = True"

definition sm_inv :: "('c, 'm) condvar_api \<Rightarrow> ('m \<Rightarrow> tid option) \<Rightarrow> nat \<Rightarrow> ('c, 'm, 'h::len word) sm_sys \<Rightarrow> bool" where
  "sm_inv capi holder n s \<longleftrightarrow> mutex_owned holder sm_holding n (sm_mutex s) (sm_pcs s) \<and>
     (\<forall>t. cv_suspends capi (sm_cond s) t \<longrightarrow> t < n \<and> sm_pcs s t = M_W_Asleep) \<and>
     (\<forall>t<n. sm_seen (sm_sem s) (sm_pcs s t))"

section \<open>Refinement\<close>

text \<open>
  Where the protocol is meanwhile. A waiter has taken its token when it has decremented \<open>to_release_\<close>, and
  is counted no more; a signal has deposited its credits when it has looked at \<open>waiters_\<close>.
\<close>

fun sm_view :: "bool \<Rightarrow> bool \<Rightarrow> 'h::len word sm_pc \<Rightarrow> 'h word csem_pc" where
  "sm_view exact susp (M_Spin_Load c) = C_Spin_Load c"
| "sm_view exact susp (M_Spin c i v) = C_Spin c i v"
| "sm_view exact susp M_Wait_Sub = C_Wait_Sub"
| "sm_view exact susp M_W_Lock = C_Wait_Lock" | "sm_view exact susp M_W_Count = C_Wait_Lock"
| "sm_view exact susp M_W_Test = C_Recheck" | "sm_view exact susp M_W_Sleep = C_Recheck"
| "sm_view exact susp M_W_Asleep = (if susp then C_Asleep else C_Recheck)"
| "sm_view exact susp M_W_Release = C_Recheck"
| "sm_view exact susp (M_S_Add c) = C_Signal_Add c"
| "sm_view exact susp (M_S_Lock k) = C_Signal_Lock k" | "sm_view exact susp (M_S_Deposit k) = C_Signal_Lock k"
| "sm_view exact susp (M_S_Test k) = C_Signal_Lock k"
| "sm_view exact susp (M_S_Unlock k notify) =
     (if \<not> notify then C_Idle else if exact then C_Notify_One 1 else C_Signal_Compare k)"
| "sm_view exact susp (M_S_Compare k) = C_Signal_Compare k"
| "sm_view exact susp (M_S_Notify_One k) = C_Notify_One k"
| "sm_view exact susp M_S_Notify_All = C_Notify_All"
| "sm_view exact susp _ = C_Idle"

fun sm_leaving :: "'h::len word sm_pc \<Rightarrow> 'h word" where
  "sm_leaving M_W_Leave = 1" | "sm_leaving _ = 0"

fun sm_depositing :: "'h::len word sm_pc \<Rightarrow> 'h word" where
  "sm_depositing (M_S_Test k) = k" | "sm_depositing _ = 0"

definition sm_sem_view :: "nat \<Rightarrow> 'h::len word csem \<Rightarrow> (tid \<Rightarrow> 'h word sm_pc) \<Rightarrow> 'h word csem" where
  "sm_sem_view n q f = q\<lparr>cs_waiters := cs_waiters q - (\<Sum>t<n. sm_leaving (f t)),
     cs_to_release := cs_to_release q - (\<Sum>t<n. sm_depositing (f t))\<rparr>"

definition sm_abs :: "bool \<Rightarrow> ('c, 'm) condvar_api \<Rightarrow> nat \<Rightarrow> ('c, 'm, 'h::len word) sm_sys \<Rightarrow> 'h word csem_sys" where
  "sm_abs exact capi n s = \<lparr>cmem = sm_sem_view n (sm_sem s) (sm_pcs s),
     cpc = (\<lambda>t. sm_view exact (cv_suspends capi (sm_cond s) t) (sm_pcs s t)),
     csignalled = sm_signalled s, ctaken = sm_taken s\<rparr>"


section \<open>The invariant is kept\<close>

lemma sm_seen_free: "\<not> sm_holding p \<Longrightarrow> sm_seen q p"
  by (cases p) auto

lemma sm_seen_release: "cs_to_release q = cs_to_release q' \<Longrightarrow> sm_seen q p = sm_seen q' p"
  by (cases p) auto

lemma sm_inv_owned: "sm_inv capi holder n s \<Longrightarrow> mutex_owned holder sm_holding n (sm_mutex s) (sm_pcs s)"
  and sm_inv_suspended: "sm_inv capi holder n s \<Longrightarrow> cv_suspends capi (sm_cond s) t \<Longrightarrow> t < n \<and> sm_pcs s t = M_W_Asleep"
  and sm_inv_seen: "sm_inv capi holder n s \<Longrightarrow> t < n \<Longrightarrow> sm_seen (sm_sem s) (sm_pcs s t)"
  by (simp_all add: sm_inv_def)

lemma sm_inv_record [simp]: "sm_inv capi holder n (sm_record e s) = sm_inv capi holder n s"
  by (cases e) (simp_all add: sm_inv_def)

lemma sm_invI:
  assumes inv: "sm_inv capi holder n s" and t: "t < n"
    and own: "mutex_owned holder sm_holding n m ((sm_pcs s)(t := p))"
    and susp: "\<And>u. cv_suspends capi c u \<Longrightarrow> u = t \<and> p = M_W_Asleep \<or> u \<noteq> t \<and> cv_suspends capi (sm_cond s) u"
    and seen: "sm_seen q p" "cs_to_release q = cs_to_release (sm_sem s) \<or> sm_holding (sm_pcs s t)"
  shows "sm_inv capi holder n (s\<lparr>sm_sem := q, sm_mutex := m, sm_cond := c, sm_pcs := (sm_pcs s)(t := p)\<rparr>)"
proof -
  have "sm_seen q (sm_pcs s u)" if "u < n" "u \<noteq> t" for u
  proof (cases "cs_to_release q = cs_to_release (sm_sem s)")
    case True
    then show ?thesis using sm_inv_seen [OF inv that(1)] sm_seen_release [OF True] by blast
  next
    case False
    then have "\<not> sm_holding (sm_pcs s u)"
      using seen(2) mutex_owned_unique [OF sm_inv_owned [OF inv] t, of u] that by auto
    then show ?thesis by (rule sm_seen_free)
  qed
  then show ?thesis using own seen(1) susp sm_inv_suspended [OF inv] t
    by (auto simp: sm_inv_def)
qed

text \<open>The operating system: a mutex and a condition variable over it.\<close>

locale os_monitor = os_mutex api holder + os_condvar capi holder
  for api :: "'m mutex_api" and capi :: "('c, 'm) condvar_api" and holder :: "'m \<Rightarrow> tid option"

lemma continues_iff: "x \<in> set (continues r f) \<longleftrightarrow> (\<exists>y. r = Continues y \<and> x = f y)"
  by (auto simp: continues_def split: verified.splits)

context os_monitor begin

lemma sm_next_owned:
  assumes own: "mutex_owned holder sm_holding n m f" and t: "t < n"
    and nx: "(e, q', m', c', p) \<in> set (sm_next exact debug api capi t q m c (f t))"
  shows "mutex_owned holder sm_holding n m' (f(t := p))"
proof (cases "m' = m \<and> sm_holding p = sm_holding (f t)")
  case True
  then show ?thesis using mutex_owned_quiet [OF own] by blast
next
  case False
  have mine: "holder m = Some t" if "sm_holding (f t)" using that own t by (simp add: mutex_owned_def)
  have locking: ?thesis if "posix_lock debug api t m = Continues m'" "\<not> sm_holding (f t)" "sm_holding p"
    using owned_lock [OF own t that(2,3,1)] by blast
  have unlocking: ?thesis if "posix_unlock debug api t m = Continues m'" "sm_holding (f t)" "\<not> sm_holding p"
    using owned_unlock [OF own t that(2,3,1)] by blast
  show ?thesis
  proof (cases "f t")
    case M_W_Sleep
    then have "posix_cv_wait debug capi t (c, m) = Continues (c', m')" "p = M_W_Asleep"
      using nx by (auto simp: continues_iff)
    then have "holder m' = None" using wait_suspends [OF mine, of debug c] M_W_Sleep by auto
    then show ?thesis using mutex_owned_left [OF own t, of p m'] M_W_Sleep \<open>p = M_W_Asleep\<close> by simp
  next
    case M_W_Asleep
    then have "os_lock api t m = Success m'" "p = M_W_Test"
      using nx by (auto split: if_splits reply.splits)
    then have "posix_lock debug api t m = Continues m'" by (simp add: posix_lock_def verify_def)
    then show ?thesis using locking M_W_Asleep \<open>p = M_W_Test\<close> by simp
  qed (use nx False locking unlocking in \<open>auto simp: continues_iff split: if_splits\<close>)
qed

lemma sm_next_suspended:
  assumes inv: "sm_inv capi holder n s" and t: "t < n"
    and nx: "(e, q, m, c, p) \<in> set (sm_next exact debug api capi t (sm_sem s) (sm_mutex s) (sm_cond s) (sm_pcs s t))"
    and susp: "cv_suspends capi c u"
  shows "u = t \<and> p = M_W_Asleep \<or> u \<noteq> t \<and> cv_suspends capi (sm_cond s) u"
proof (cases "c = sm_cond s")
  case True
  have "sm_pcs s t \<noteq> M_W_Asleep \<or> \<not> cv_suspends capi c t" using nx True by auto
  then show ?thesis using True susp sm_inv_suspended [OF inv] by blast
next
  case False
  note awake = sm_inv_suspended [OF inv, of t]
  show ?thesis
  proof (cases "sm_pcs s t")
    case M_W_Sleep
    then have "holder (sm_mutex s) = Some t" using sm_inv_owned [OF inv] t by (simp add: mutex_owned_def)
    from wait_suspends [OF this, of debug "sm_cond s"] show ?thesis using nx M_W_Sleep susp
      by (auto simp: continues_iff split: if_splits)
  next
    case (M_S_Notify_One k)
    with nx False have "Continues c \<in> set (posix_notify_one debug capi (sm_cond s))"
      by (auto simp: continues_iff split: if_splits)
    from notify_one_wakes [OF this] have "cv_suspends capi (sm_cond s) u" using susp by auto
    then show ?thesis using awake M_S_Notify_One by auto
  next
    case M_S_Notify_All
    with nx have "posix_notify_all debug capi (sm_cond s) = Continues c" by (auto simp: continues_iff)
    with notify_all_wakes [of debug "sm_cond s"] susp show ?thesis by auto
  qed (use nx False in \<open>auto simp: continues_iff split: if_splits reply.splits\<close>)
qed

lemma sm_inv_next:
  assumes inv: "sm_inv capi holder n s" and t: "t < n"
    and nx: "(e, q, m, c, p) \<in> set (sm_next exact debug api capi t (sm_sem s) (sm_mutex s) (sm_cond s) (sm_pcs s t))"
  shows "sm_inv capi holder n (s\<lparr>sm_sem := q, sm_mutex := m, sm_cond := c, sm_pcs := (sm_pcs s)(t := p)\<rparr>)"
proof (rule sm_invI [OF inv t])
  show "mutex_owned holder sm_holding n m ((sm_pcs s)(t := p))" by (rule sm_next_owned [OF sm_inv_owned [OF inv] t nx])
  show "u = t \<and> p = M_W_Asleep \<or> u \<noteq> t \<and> cv_suspends capi (sm_cond s) u" if "cv_suspends capi c u" for u
    by (rule sm_next_suspended [OF inv t nx that])
  show "sm_seen q p" "cs_to_release q = cs_to_release (sm_sem s) \<or> sm_holding (sm_pcs s t)"
    using nx by (cases "sm_pcs s t"; auto simp: continues_iff split: if_splits reply.splits)+
qed

lemma sm_inv_step:
  assumes inv: "sm_inv capi holder n s" and step: "sm_step exact debug api capi n s s'"
  shows "sm_inv capi holder n s'"
  using step
proof cases
  case (call t p)
  then have "\<not> sm_holding p" by (auto simp: sm_entry_def)
  then have "sm_inv capi holder n (s\<lparr>sm_sem := sm_sem s, sm_mutex := sm_mutex s, sm_cond := sm_cond s, sm_pcs := (sm_pcs s)(t := p)\<rparr>)"
    using sm_inv_suspended [OF inv, of t] call(2,3)
    by (intro sm_invI [OF inv call(2)] mutex_owned_quiet [OF sm_inv_owned [OF inv]]) (auto simp: sm_seen_free)
  then show ?thesis by (simp add: call(1))
next
  case (internal t e q m c p)
  then show ?thesis using sm_inv_next [OF inv internal(2,3)] by simp
next
  case (spurious c)
  from cv_spurious_wakes [OF spurious(2)] obtain t where "cv_suspends capi c = (cv_suspends capi (sm_cond s))(t := False)" ..
  with inv show ?thesis by (simp add: spurious(1) sm_inv_def)
qed

end

section \<open>Every step is one of the protocol, or is not seen there\<close>

lemma sm_sum_upd:
  fixes g :: "'h::len word sm_pc \<Rightarrow> 'h word" and f :: "tid \<Rightarrow> 'h word sm_pc"
  assumes "t < n"
  shows "(\<Sum>u<n. g ((f(t := p)) u)) = (\<Sum>u<n. g (f u)) + g p - g (f t)"
  using sum_fun_upd [OF assms, of "\<lambda>_. g" f p] by (simp add: algebra_simps)

lemma sm_sum_holder:
  fixes g :: "'h::len word sm_pc \<Rightarrow> 'h word"
  assumes own: "mutex_owned holder sm_holding n m f" and t: "t < n" "sm_holding (f t)"
    and zero: "\<And>p. \<not> sm_holding p \<Longrightarrow> g p = 0"
  shows "(\<Sum>u<n. g (f u)) = g (f t)"
proof -
  have "(\<Sum>u\<in>{..<n} - {t}. g (f u)) = 0"
    using mutex_owned_unique [OF own t] by (intro sum.neutral ballI zero) auto
  moreover have "(\<Sum>u<n. g (f u)) = g (f t) + (\<Sum>u\<in>{..<n} - {t}. g (f u))"
    by (rule sum.remove) (use t in auto)
  ultimately show ?thesis by simp
qed

lemma sm_leaving_free: "\<not> sm_holding p \<Longrightarrow> sm_leaving p = 0"
  and sm_depositing_free: "\<not> sm_holding p \<Longrightarrow> sm_depositing p = 0"
  by (cases p; simp)+

lemma sm_sem_view_upd:
  "t < n \<Longrightarrow> sm_sem_view n q (f(t := p)) = q\<lparr>
     cs_waiters := cs_waiters q - (\<Sum>u<n. sm_leaving (f u)) - sm_leaving p + sm_leaving (f t),
     cs_to_release := cs_to_release q - (\<Sum>u<n. sm_depositing (f u)) - sm_depositing p + sm_depositing (f t)\<rparr>"
  by (simp add: sm_sem_view_def sm_sum_upd [where g = sm_leaving] sm_sum_upd [where g = sm_depositing] algebra_simps
      del: fun_upd_apply)

lemma sm_sem_view_holder:
  assumes "mutex_owned holder sm_holding n m f" "t < n" "sm_holding (f t)"
  shows "(\<Sum>u<n. sm_leaving (f u)) = sm_leaving (f t) \<and> (\<Sum>u<n. sm_depositing (f u)) = sm_depositing (f t)"
  using sm_sum_holder [OF assms, of sm_leaving] sm_sum_holder [OF assms, of sm_depositing]
    sm_leaving_free sm_depositing_free by blast

text \<open>A step of thread \<open>t\<close> alone, in the protocol: the semaphore it leaves and where it goes.\<close>

lemma sm_follow:
  assumes t: "t < n" and same: "\<And>u. u \<noteq> t \<Longrightarrow> cv_suspends capi c u = cv_suspends capi (sm_cond s) u"
    and a: "(e, sm_sem_view n q ((sm_pcs s)(t := p)), sm_view exact (cv_suspends capi c t) p)
      \<in> set (csem_next exact (sm_sem_view n (sm_sem s) (sm_pcs s)) (sm_view exact (cv_suspends capi (sm_cond s) t) (sm_pcs s t)))"
  shows "csem_step exact n (sm_abs exact capi n s)
    (sm_abs exact capi n (sm_record e (s\<lparr>sm_sem := q, sm_mutex := m, sm_cond := c, sm_pcs := (sm_pcs s)(t := p)\<rparr>)))"
proof -
  let ?a = "sm_abs exact capi n s" and ?s = "s\<lparr>sm_sem := q, sm_mutex := m, sm_cond := c, sm_pcs := (sm_pcs s)(t := p)\<rparr>"
  have "csem_step exact n ?a (crecord e (?a\<lparr>cmem := sm_sem_view n q ((sm_pcs s)(t := p)),
      cpc := (cpc ?a)(t := sm_view exact (cv_suspends capi c t) p)\<rparr>))"
    using a by (intro csem_step.internal [OF t]) (simp add: sm_abs_def)
  moreover have "(\<lambda>u. sm_view exact (cv_suspends capi c u) (((sm_pcs s)(t := p)) u)) =
      (cpc ?a)(t := sm_view exact (cv_suspends capi c t) p)"
    by (simp add: sm_abs_def fun_eq_iff same)
  then have "sm_abs exact capi n (sm_record e ?s) = crecord e (?a\<lparr>cmem := sm_sem_view n q ((sm_pcs s)(t := p)),
      cpc := (cpc ?a)(t := sm_view exact (cv_suspends capi c t) p)\<rparr>)"
    by (cases e) (simp_all add: sm_abs_def)
  ultimately show ?thesis by simp
qed

lemma sm_stutter:
  assumes "\<And>u. u \<noteq> t \<Longrightarrow> cv_suspends capi c u = cv_suspends capi (sm_cond s) u"
    and "sm_sem_view n q ((sm_pcs s)(t := p)) = sm_sem_view n (sm_sem s) (sm_pcs s)"
    and "sm_view exact (cv_suspends capi c t) p = sm_view exact (cv_suspends capi (sm_cond s) t) (sm_pcs s t)"
  shows "sm_abs exact capi n (s\<lparr>sm_sem := q, sm_mutex := m, sm_cond := c, sm_pcs := (sm_pcs s)(t := p)\<rparr>) = sm_abs exact capi n s"
proof -
  have "(\<lambda>u. sm_view exact (cv_suspends capi c u) (((sm_pcs s)(t := p)) u)) =
      (\<lambda>u. sm_view exact (cv_suspends capi (sm_cond s) u) (sm_pcs s u))"
    using assms(1,3) by (simp add: fun_eq_iff)
  then show ?thesis by (simp add: sm_abs_def assms(2))
qed

fun sm_notifies :: "'h::len word sm_pc \<Rightarrow> bool" where
  "sm_notifies (M_S_Notify_One left) = (left \<noteq> 0)" | "sm_notifies M_S_Notify_All = True" | "sm_notifies _ = False"

context os_monitor begin

lemma sm_refines_call:
  assumes inv: "sm_inv capi holder n s" and t: "t < n"
    and nx: "(e, q, m, c, p) \<in> set (sm_next exact debug api capi t (sm_sem s) (sm_mutex s) (sm_cond s) (sm_pcs s t))"
    and quiet: "c = sm_cond s" "\<not> sm_notifies (sm_pcs s t)"
  defines "s' \<equiv> s\<lparr>sm_sem := q, sm_mutex := m, sm_cond := c, sm_pcs := (sm_pcs s)(t := p)\<rparr>"
  shows "csem_step exact n (sm_abs exact capi n s) (sm_abs exact capi n (sm_record e s')) \<or>
    sm_abs exact capi n (sm_record e s') = sm_abs exact capi n s"
proof -
  let ?v = "sm_view exact (cv_suspends capi c t)"
  have mine: "sm_holding (sm_pcs s t) \<Longrightarrow> (\<Sum>u<n. sm_leaving (sm_pcs s u)) = sm_leaving (sm_pcs s t) \<and>
      (\<Sum>u<n. sm_depositing (sm_pcs s u)) = sm_depositing (sm_pcs s t)"
    by (rule sm_sem_view_holder [OF sm_inv_owned [OF inv] t])
  have "e = Tau \<and> sm_sem_view n q ((sm_pcs s)(t := p)) = sm_sem_view n (sm_sem s) (sm_pcs s) \<and> ?v p = ?v (sm_pcs s t) \<or>
      (e, sm_sem_view n q ((sm_pcs s)(t := p)), ?v p)
        \<in> set (csem_next exact (sm_sem_view n (sm_sem s) (sm_pcs s)) (?v (sm_pcs s t)))"
    using nx quiet mine sm_inv_seen [OF inv t]
    unfolding sm_sem_view_upd [OF t] unfolding sm_sem_view_def
    by (cases "sm_pcs s t") (auto simp: continues_iff Let_def split: if_splits reply.splits)
  then show ?thesis
    using sm_stutter [of t capi c s n q p exact m] sm_follow [OF t, of capi c s e q p exact m] quiet
    by (auto simp: s'_def)
qed

lemma sm_refines_sleep:
  assumes inv: "sm_inv capi holder n s" and t: "t < n" and asleep: "sm_pcs s t = M_W_Sleep"
    and nx: "(e, q, m, c, p) \<in> set (sm_next exact debug api capi t (sm_sem s) (sm_mutex s) (sm_cond s) (sm_pcs s t))"
  defines "s' \<equiv> s\<lparr>sm_sem := q, sm_mutex := m, sm_cond := c, sm_pcs := (sm_pcs s)(t := p)\<rparr>"
  shows "csem_step exact n (sm_abs exact capi n s) (sm_abs exact capi n (sm_record e s'))"
proof -
  have "holder (sm_mutex s) = Some t" using sm_inv_owned [OF inv] t asleep by (simp add: mutex_owned_def)
  from wait_suspends [OF this, of debug "sm_cond s"] nx asleep
  have new: "cv_suspends capi c = (cv_suspends capi (sm_cond s))(t := True)" "e = Tau" "q = sm_sem s" "p = M_W_Asleep"
    by (auto simp: continues_iff)
  have "cs_to_release (sm_sem s) = 0" using sm_inv_seen [OF inv t] asleep by simp
  moreover have "(\<Sum>u<n. sm_depositing (sm_pcs s u)) = 0"
    using sm_sem_view_holder [OF sm_inv_owned [OF inv] t] asleep by simp
  ultimately have "cs_to_release (sm_sem_view n (sm_sem s) (sm_pcs s)) = 0" by (simp add: sm_sem_view_def)
  moreover have "sm_sem_view n q ((sm_pcs s)(t := p)) = sm_sem_view n (sm_sem s) (sm_pcs s)"
    unfolding sm_sem_view_upd [OF t] unfolding sm_sem_view_def by (simp add: new asleep)
  ultimately show ?thesis unfolding s'_def new(2)
    by (intro sm_follow [OF t]) (simp_all add: new(1,4) asleep)
qed

text \<open>A notification wakes some of the sleepers and does nothing else.\<close>

lemma sm_woken_view:
  assumes inv: "sm_inv capi holder n s" and t: "t < n" "sm_notifies (sm_pcs s t)" and p: "sm_leaving p = 0" "sm_depositing p = 0"
    and le: "cv_suspends capi c \<le> cv_suspends capi (sm_cond s)"
  defines "woken \<equiv> {u. cv_suspends capi (sm_cond s) u \<and> \<not> cv_suspends capi c u}"
  shows "sm_abs exact capi n (s\<lparr>sm_cond := c, sm_pcs := (sm_pcs s)(t := p)\<rparr>) = (sm_abs exact capi n s)\<lparr>cpc :=
      (move_all woken C_Recheck (cpc (sm_abs exact capi n s)))(t := sm_view exact False p)\<rparr>"
    and "asleep n (cpc (sm_abs exact capi n s)) = Collect (cv_suspends capi (sm_cond s))"
proof -
  have sus: "cv_suspends capi (sm_cond s) u \<Longrightarrow> u < n \<and> sm_pcs s u = M_W_Asleep" for u
    using sm_inv_suspended [OF inv] by blast
  have nt: "\<not> cv_suspends capi (sm_cond s) t" "sm_leaving (sm_pcs s t) = 0" "sm_depositing (sm_pcs s t) = 0"
    using sus [of t] t(2) by (cases "sm_pcs s t"; auto)+
  have off: "\<not> cv_suspends capi (sm_cond s) u \<Longrightarrow> \<not> cv_suspends capi c u" for u
    using le by (auto simp: le_fun_def)
  have "sm_view exact (cv_suspends capi c u) (((sm_pcs s)(t := p)) u) =
      ((move_all woken C_Recheck (cpc (sm_abs exact capi n s)))(t := sm_view exact False p)) u" for u
  proof (cases "u = t")
    case True
    then show ?thesis using off [OF nt(1)] by simp
  next
    case False
    then show ?thesis using sus [of u] off [of u]
      by (cases "cv_suspends capi (sm_cond s) u") (auto simp: move_all_def woken_def sm_abs_def)
  qed
  then have "(\<lambda>u. sm_view exact (cv_suspends capi c u) (((sm_pcs s)(t := p)) u)) =
      (move_all woken C_Recheck (cpc (sm_abs exact capi n s)))(t := sm_view exact False p)" by (rule ext)
  moreover have "sm_sem_view n (sm_sem s) ((sm_pcs s)(t := p)) = sm_sem_view n (sm_sem s) (sm_pcs s)"
    unfolding sm_sem_view_upd [OF t(1)] unfolding sm_sem_view_def by (simp add: p nt)
  ultimately show "sm_abs exact capi n (s\<lparr>sm_cond := c, sm_pcs := (sm_pcs s)(t := p)\<rparr>) = (sm_abs exact capi n s)\<lparr>cpc :=
      (move_all woken C_Recheck (cpc (sm_abs exact capi n s)))(t := sm_view exact False p)\<rparr>"
    by (simp add: sm_abs_def del: fun_upd_apply)
  have "sm_view exact b r = C_Asleep \<longleftrightarrow> r = M_W_Asleep \<and> b" for b and r :: "'d::len word sm_pc"
    by (cases r) auto
  then show "asleep n (cpc (sm_abs exact capi n s)) = Collect (cv_suspends capi (sm_cond s))"
    using sus by (auto simp: asleep_def sm_abs_def)
qed

lemma sm_refines_notify:
  assumes inv: "sm_inv capi holder n s" and t: "t < n" "sm_notifies (sm_pcs s t)"
    and nx: "(e, q, m, c, p) \<in> set (sm_next exact debug api capi t (sm_sem s) (sm_mutex s) (sm_cond s) (sm_pcs s t))"
  defines "s' \<equiv> s\<lparr>sm_sem := q, sm_mutex := m, sm_cond := c, sm_pcs := (sm_pcs s)(t := p)\<rparr>"
  shows "csem_step exact n (sm_abs exact capi n s) (sm_abs exact capi n (sm_record e s'))"
proof (cases "sm_pcs s t")
  case (M_S_Notify_One left)
  let ?woken = "{u. cv_suspends capi (sm_cond s) u \<and> \<not> cv_suspends capi c u}"
  have left: "left \<noteq> 0" using t(2) M_S_Notify_One by simp
  with nx M_S_Notify_One have new: "e = Tau" "q = sm_sem s" "m = sm_mutex s" "p = M_S_Notify_One (left - 1)"
    and notify: "Continues c \<in> set (posix_notify_one debug capi (sm_cond s))"
    by (auto simp: continues_iff)
  from notify_one_wakes [OF notify] have le: "cv_suspends capi c \<le> cv_suspends capi (sm_cond s)"
    and some: "Ex (cv_suspends capi (sm_cond s)) \<Longrightarrow> ?woken \<noteq> {}" by auto
  note view = sm_woken_view [OF inv t _ _ le, of p exact]
  have s': "s' = s\<lparr>sm_cond := c, sm_pcs := (sm_pcs s)(t := p)\<rparr>" by (simp add: s'_def new)
  have "csem_step exact n (sm_abs exact capi n s) ((sm_abs exact capi n s)\<lparr>cpc :=
      (move_all ?woken C_Recheck (cpc (sm_abs exact capi n s)))(t := C_Notify_One (left - 1))\<rparr>)"
  proof (rule csem_step.notify_one [OF t(1) _ left])
    show "cpc (sm_abs exact capi n s) t = C_Notify_One left" by (simp add: sm_abs_def M_S_Notify_One)
    show "?woken \<subseteq> asleep n (cpc (sm_abs exact capi n s))" using view(2) new(4) by auto
    show "asleep n (cpc (sm_abs exact capi n s)) \<noteq> {} \<longrightarrow> ?woken \<noteq> {}" using view(2) new(4) some by auto
  qed
  then show ?thesis using view(1) new(1,4) s' by simp
next
  case M_S_Notify_All
  with nx have new: "e = Tau" "q = sm_sem s" "m = sm_mutex s" "p = M_Idle"
    and notify: "posix_notify_all debug capi (sm_cond s) = Continues c"
    by (auto simp: continues_iff)
  from notify_all_wakes [of debug "sm_cond s"] notify have none: "\<not> cv_suspends capi c u" for u by auto
  then have le: "cv_suspends capi c \<le> cv_suspends capi (sm_cond s)" by (auto simp: le_fun_def)
  note view = sm_woken_view [OF inv t _ _ le, of p exact]
  have s': "s' = s\<lparr>sm_cond := c, sm_pcs := (sm_pcs s)(t := p)\<rparr>" by (simp add: s'_def new)
  have "csem_step exact n (sm_abs exact capi n s) ((sm_abs exact capi n s)\<lparr>cpc :=
      (move_all (asleep n (cpc (sm_abs exact capi n s))) C_Recheck (cpc (sm_abs exact capi n s)))(t := C_Idle)\<rparr>)"
    by (rule csem_step.notify_all [OF t(1)]) (simp add: sm_abs_def M_S_Notify_All)
  then show ?thesis using view new(1,4) s' none by (simp add: Collect_mono_iff)
qed (use t(2) in simp_all)

lemma sm_refines_spurious:
  assumes inv: "sm_inv capi holder n s" and c: "c \<in> set (cv_spurious capi (sm_cond s))"
  shows "csem_step exact n (sm_abs exact capi n s) (sm_abs exact capi n (s\<lparr>sm_cond := c\<rparr>)) \<or>
    sm_abs exact capi n (s\<lparr>sm_cond := c\<rparr>) = sm_abs exact capi n s"
proof -
  from cv_spurious_wakes [OF c] obtain t where t: "cv_suspends capi c = (cv_suspends capi (sm_cond s))(t := False)" ..
  show ?thesis
  proof (cases "cv_suspends capi (sm_cond s) t")
    case False
    then have "cv_suspends capi c = cv_suspends capi (sm_cond s)" using t by (auto simp: fun_eq_iff)
    then show ?thesis by (simp add: sm_abs_def)
  next
    case True
    then have at_t: "t < n" "sm_pcs s t = M_W_Asleep" using sm_inv_suspended [OF inv] by blast+
    have "csem_step exact n (sm_abs exact capi n s)
        ((sm_abs exact capi n s)\<lparr>cpc := (cpc (sm_abs exact capi n s))(t := C_Recheck)\<rparr>)"
      by (rule csem_step.spurious [OF at_t(1)]) (simp add: sm_abs_def at_t True)
    moreover have "(\<lambda>u. sm_view exact (cv_suspends capi c u) (sm_pcs s u)) =
        (cpc (sm_abs exact capi n s))(t := C_Recheck)"
      by (simp add: sm_abs_def fun_eq_iff t at_t)
    ultimately show ?thesis by (simp add: sm_abs_def)
  qed
qed

lemma sm_refines_step:
  assumes inv: "sm_inv capi holder n s" and step: "sm_step exact debug api capi n s s'"
  shows "csem_step exact n (sm_abs exact capi n s) (sm_abs exact capi n s') \<or> sm_abs exact capi n s' = sm_abs exact capi n s"
  using step
proof cases
  case (call t p)
  have idle: "\<not> cv_suspends capi (sm_cond s) t" using sm_inv_suspended [OF inv, of t] call(3) by auto
  have p: "sm_leaving p = 0" "sm_depositing p = 0" using call(4) by (auto simp: sm_entry_def)
  have "csem_entry exact (sm_view exact b p)" for b using call(4) by (auto simp: sm_entry_def csem_entry_def)
  then have "csem_step exact n (sm_abs exact capi n s)
      ((sm_abs exact capi n s)\<lparr>cpc := (cpc (sm_abs exact capi n s))(t := sm_view exact False p)\<rparr>)"
    by (intro csem_step.call [OF call(2)]) (simp_all add: sm_abs_def call(3))
  moreover have "(\<lambda>u. sm_view exact (cv_suspends capi (sm_cond s) u) (((sm_pcs s)(t := p)) u)) =
      (cpc (sm_abs exact capi n s))(t := sm_view exact False p)"
    by (simp add: sm_abs_def fun_eq_iff idle)
  moreover have "sm_sem_view n (sm_sem s) ((sm_pcs s)(t := p)) = sm_sem_view n (sm_sem s) (sm_pcs s)"
    unfolding sm_sem_view_upd [OF call(2)] unfolding sm_sem_view_def by (simp add: p call(3))
  ultimately show ?thesis by (simp add: call(1) sm_abs_def del: fun_upd_apply)
next
  case (internal t e q m c p)
  consider (sleep) "sm_pcs s t = M_W_Sleep" | (notify) "sm_notifies (sm_pcs s t)" | (other) "c = sm_cond s" "\<not> sm_notifies (sm_pcs s t)"
    using internal(3) by (cases "sm_pcs s t") (auto simp: continues_iff split: if_splits reply.splits)
  then show ?thesis
    using sm_refines_sleep [OF inv internal(2) _ internal(3)] sm_refines_notify [OF inv internal(2) _ internal(3)]
      sm_refines_call [OF inv internal(2,3)]
    by cases (simp_all add: internal(1))
next
  case (spurious c)
  then show ?thesis using sm_refines_spurious [OF inv spurious(2)] by simp
qed

end

lemma sm_room_abs: "csem_room (sm_abs exact capi n s) = sm_room s"
  by (simp add: csem_room_def sm_room_def sm_abs_def sm_sem_view_def)

sublocale os_monitor \<subseteq> sm: refinement "sm_init api capi" "sm_run_step exact debug api capi n" "sm_inv capi holder n"
  csem_init "csem_run_step exact n" "sm_abs exact capi n"
  for exact debug n
proof unfold_locales
  show "sm_inv capi holder n s" if "sm_init api capi s" for s
    using that by (simp add: sm_init_def sm_inv_def mutex_owned_def os_init_free cv_init_awake)
  show "csem_init (sm_abs exact capi n s)" if "sm_init api capi s" for s
    using that by (simp add: sm_init_def csem_init_def sm_abs_def sm_sem_view_def csem_new_def)
  show "sm_inv capi holder n s'" if "sm_inv capi holder n s" "sm_run_step exact debug api capi n s s'" for s s'
    using that sm_inv_step by (auto simp: sm_run_step_def)
  show "csem_run_step exact n (sm_abs exact capi n s) (sm_abs exact capi n s') \<or> sm_abs exact capi n s' = sm_abs exact capi n s"
    if "sm_inv capi holder n s" "sm_run_step exact debug api capi n s s'" for s s'
    using that sm_refines_step [OF that(1), of exact debug s'] by (auto simp: sm_run_step_def csem_run_step_def sm_room_abs)
qed

context os_monitor begin

lemmas sm_reach_inv = sm.inv_reach
lemmas sm_reach_abs = sm.reach_abs

end

interpretation pthreads: os_monitor errorcheck_mutex loose_condvar "\<lambda>m. m" ..

section \<open>No deadlock\<close>

definition sm_stuck :: "bool \<Rightarrow> bool \<Rightarrow> 'm mutex_api \<Rightarrow> ('c, 'm) condvar_api \<Rightarrow> nat
    \<Rightarrow> ('c, 'm, 'h::len word) sm_sys \<Rightarrow> bool" where
  "sm_stuck exact debug api capi n s \<longleftrightarrow>
     (\<forall>t<n. sm_next exact debug api capi t (sm_sem s) (sm_mutex s) (sm_cond s) (sm_pcs s t) = [])"

context os_monitor begin

lemma sm_holder_moves:
  assumes "holder m = Some t" "sm_holding p"
  shows "sm_next exact debug api capi t q m c p \<noteq> []"
  using posix.unlock_mine [OF assms(1), of debug] wait_suspends [OF assms(1), of debug c] assms(2)
  by (cases p) (auto simp: continues_def)

lemma sm_free_moves:
  assumes "holder m = None" "p \<noteq> M_Idle" "p = M_W_Asleep \<Longrightarrow> \<not> cv_suspends capi c t" "\<not> sm_holding p"
  shows "sm_next exact debug api capi t q m c p \<noteq> []"
proof (cases p)
  case (M_S_Notify_One left)
  obtain v vs where v: "posix_notify_one debug capi c = v # vs"
    using notify_one_some [of debug c] by (cases "posix_notify_one debug capi c") auto
  then obtain c' where "v = Continues c'" using notify_one_wakes [of v debug c] by auto
  with v M_S_Notify_One show ?thesis by (simp add: continues_def)
next
  case M_S_Notify_All
  then show ?thesis using notify_all_wakes [of debug c] by (auto simp: continues_def)
qed (use assms posix.lock_free [OF assms(1), of debug t] os_lock_free [OF assms(1), of t] in
  \<open>auto simp: continues_def\<close>)

lemma sm_stuck_rests:
  assumes inv: "sm_inv capi holder n s" and stuck: "sm_stuck exact debug api capi n s" and t: "t < n"
  shows "sm_pcs s t = M_Idle \<or> sm_pcs s t = M_W_Asleep \<and> cv_suspends capi (sm_cond s) t"
proof -
  have free: "\<not> sm_holding (sm_pcs s u)" if "u < n" for u
  proof
    assume h: "sm_holding (sm_pcs s u)"
    with that have "holder (sm_mutex s) = Some u" using sm_inv_owned [OF inv] by (simp add: mutex_owned_def)
    from sm_holder_moves [OF this h] stuck that show False by (auto simp: sm_stuck_def)
  qed
  then have "holder (sm_mutex s) \<noteq> Some u" for u using sm_inv_owned [OF inv] by (simp add: mutex_owned_def)
  then have "holder (sm_mutex s) = None" by (cases "holder (sm_mutex s)") auto
  from sm_free_moves [OF this _ _ free [OF t], of "sm_cond s" t exact debug "sm_sem s"] stuck t show ?thesis
    by (auto simp: sm_stuck_def)
qed

lemma sm_stuck_abs:
  assumes inv: "sm_inv capi holder n s" and stuck: "sm_stuck exact debug api capi n s"
  shows "csem_quiescent n (sm_abs exact capi n s)"
    and "sm_sem_view n (sm_sem s) (sm_pcs s) = sm_sem s"
    and "asleep n (cpc (sm_abs exact capi n s)) = {t. t < n \<and> sm_pcs s t = M_W_Asleep}"
proof -
  note rests = sm_stuck_rests [OF inv stuck]
  show "csem_quiescent n (sm_abs exact capi n s)"
    using rests by (fastforce simp: csem_quiescent_def sm_abs_def)
  have zero: "sm_leaving (sm_pcs s t) = 0" "sm_depositing (sm_pcs s t) = 0" if "t < n" for t
    using rests [OF that] by auto
  then show "sm_sem_view n (sm_sem s) (sm_pcs s) = sm_sem s"
    by (simp add: sm_sem_view_def)
  show "asleep n (cpc (sm_abs exact capi n s)) = {t. t < n \<and> sm_pcs s t = M_W_Asleep}"
    using rests by (fastforce simp: asleep_def sm_abs_def)
qed

end

section \<open>Runs\<close>

type_synonym 'h sm_move = "tid \<times> (nat + 'h word sm_pc)"

fun sm_move_on :: "bool \<Rightarrow> bool \<Rightarrow> 'm mutex_api \<Rightarrow> ('c, 'm) condvar_api \<Rightarrow> nat \<Rightarrow> 'h sm_move
    \<Rightarrow> ('c, 'm, 'h::len word) sm_sys \<Rightarrow> ('c, 'm, 'h word) sm_sys option" where
  "sm_move_on exact debug api capi n (t, Inr p) s =
     (if t < n \<and> sm_pcs s t = M_Idle \<and> sm_entry exact p then Some (s\<lparr>sm_pcs := (sm_pcs s)(t := p)\<rparr>) else None)"
| "sm_move_on exact debug api capi n (t, Inl i) s =
     (let nx = sm_next exact debug api capi t (sm_sem s) (sm_mutex s) (sm_cond s) (sm_pcs s t) in
      if t < n \<and> i < length nx
      then case nx ! i of (e, q, m, c, p) \<Rightarrow>
        Some (sm_record e (s\<lparr>sm_sem := q, sm_mutex := m, sm_cond := c, sm_pcs := (sm_pcs s)(t := p)\<rparr>))
      else None)"

fun sm_run :: "bool \<Rightarrow> bool \<Rightarrow> 'm mutex_api \<Rightarrow> ('c, 'm) condvar_api \<Rightarrow> nat \<Rightarrow> 'h sm_move list
    \<Rightarrow> ('c, 'm, 'h::len word) sm_sys \<Rightarrow> ('c, 'm, 'h word) sm_sys option" where
  "sm_run exact debug api capi n [] s = Some s"
| "sm_run exact debug api capi n (mv # mvs) s =
     (case sm_move_on exact debug api capi n mv s of None \<Rightarrow> None
      | Some s' \<Rightarrow> if sm_room s \<and> sm_room s' then sm_run exact debug api capi n mvs s' else None)"

lemma sm_move_on_step: "sm_move_on exact debug api capi n (t, mv) s = Some s' \<Longrightarrow> sm_step exact debug api capi n s s'"
proof (cases mv)
  case (Inl i)
  let ?nx = "sm_next exact debug api capi t (sm_sem s) (sm_mutex s) (sm_cond s) (sm_pcs s t)"
  assume "sm_move_on exact debug api capi n (t, mv) s = Some s'"
  with Inl obtain e q m c p where "t < n" "?nx ! i = (e, q, m, c, p)" "i < length ?nx"
    "s' = sm_record e (s\<lparr>sm_sem := q, sm_mutex := m, sm_cond := c, sm_pcs := (sm_pcs s)(t := p)\<rparr>)"
    by (auto simp: Let_def split: if_splits prod.splits)
  then show ?thesis by (metis nth_mem sm_step.internal)
qed (auto split: if_splits intro: sm_step.call)

lemma sm_run_reach:
  "sm_run exact debug api capi n mvs s = Some s' \<Longrightarrow> reach (sm_init api capi) (sm_run_step exact debug api capi n) s
     \<Longrightarrow> reach (sm_init api capi) (sm_run_step exact debug api capi n) s'"
proof (induction mvs arbitrary: s)
  case (Cons mv mvs)
  then obtain s1 where s1: "sm_move_on exact debug api capi n mv s = Some s1" "sm_room s" "sm_room s1"
    "sm_run exact debug api capi n mvs s1 = Some s'"
    by (auto split: option.splits if_splits)
  then have "sm_run_step exact debug api capi n s s1" by (cases mv) (simp add: sm_run_step_def sm_move_on_step)
  with Cons s1 show ?case by (blast intro: reach.move)
qed simp

definition sm_start :: "'m mutex_api \<Rightarrow> ('c, 'm) condvar_api \<Rightarrow> ('c, 'm, 'h::len word) sm_sys" where
  "sm_start api capi = \<lparr>sm_sem = csem_new, sm_mutex = os_init api, sm_cond = cv_init capi, sm_pcs = (\<lambda>_. M_Idle),
     sm_signalled = 0, sm_taken = 0\<rparr>"

lemma sm_start_run:
  "sm_run exact debug api capi n mvs (sm_start api capi) = Some s \<Longrightarrow>
     reach (sm_init api capi) (sm_run_step exact debug api capi n) s"
  by (rule sm_run_reach) (auto intro: reach.start simp: sm_init_def sm_start_def)

text \<open>A wait on a fresh semaphore; and, with exact worker selection, a signal on one and then two waits.\<close>

definition sm_asleep_state :: "(tid list, tid option, 8 word) sm_sys" where
  "sm_asleep_state = \<lparr>sm_sem = \<lparr>cs_value = -1, cs_waiters = 1, cs_to_release = 0\<rparr>, sm_mutex = None, sm_cond = [0],
     sm_pcs = (\<lambda>_. M_Idle)(0 := M_W_Asleep), sm_signalled = 0, sm_taken = 0\<rparr>"

lemmas sm_eval = sm_start_def csem_new_def sm_entry_def sm_room_def errorcheck_mutex_def fifo_condvar_def
  continues_def posix_lock_def posix_unlock_def posix_cv_wait_def verify_def word_sless_alt fun_upd_def

lemma sm_asleep_run:
  "sm_run False True errorcheck_mutex fifo_condvar 2 ((0, Inr M_Wait_Sub) # replicate 5 (0, Inl 0))
     (sm_start errorcheck_mutex fifo_condvar) = Some sm_asleep_state"
  by (simp add: sm_asleep_state_def sm_eval eval_nat_numeral cong: if_cong)

definition sm_over_state :: "(tid list, tid option, 8 word) sm_sys" where
  "sm_over_state = \<lparr>sm_sem = \<lparr>cs_value = -1, cs_waiters = 0, cs_to_release = 0\<rparr>, sm_mutex = None, sm_cond = [],
     sm_pcs = (\<lambda>_. M_Idle), sm_signalled = 1, sm_taken = 2\<rparr>"

lemma sm_over_run:
  "sm_run True True errorcheck_mutex fifo_condvar 2
     ((0, Inr (M_S_Add 1)) # replicate 5 (0, Inl 0) @ [(1, Inr M_Wait_Sub), (1, Inl 0), (1, Inr M_Wait_Sub)] @
      replicate 7 (1, Inl 0)) (sm_start errorcheck_mutex fifo_condvar) = Some sm_over_state"
  by (simp add: sm_over_state_def sm_eval eval_nat_numeral cong: if_cong)

section \<open>Theorems\<close>

text \<open>C34. The condvar semaphore without exact worker selection, call by call over any mutex and condition
  variable that keep their contracts: no wait takes a token that was not signalled; and it cannot get
  stuck: when no thread can move on its own, each is outside or suspended in its wait, no release credit
  is left over, as many threads are suspended as the value is below zero, they are the counted
  waiters, and every signalled token that is not in the value has been taken.\<close>

theorem sem_monitor_correct:
  fixes s :: "('c, 'm, 'h::len word) sm_sys"
  assumes "mutex_contract api holder" "condvar_contract capi holder"
    and "reach (sm_init api capi) (sm_run_step False debug api capi n) s"
    and "int n < 2 ^ LENGTH('h)" "LENGTH('h) \<le> 16"
  shows "sm_taken s \<le> sm_signalled s \<and> (sm_stuck False debug api capi n s \<longrightarrow>
    (\<forall>t<n. sm_pcs s t = M_Idle \<or> sm_pcs s t = M_W_Asleep \<and> cv_suspends capi (sm_cond s) t) \<and>
    cs_to_release (sm_sem s) = 0 \<and>
    int (card {t. t < n \<and> sm_pcs s t = M_W_Asleep}) = max 0 (- sint (cs_value (sm_sem s))) \<and>
    uint (cs_waiters (sm_sem s)) = int (card {t. t < n \<and> sm_pcs s t = M_W_Asleep}) \<and>
    sm_signalled s - sm_taken s = max 0 (sint (cs_value (sm_sem s))))"
proof -
  have os: "os_monitor api capi holder"
    using assms(1,2) by (simp add: os_monitor_def os_mutex_def os_condvar_def)
  let ?a = "sm_abs False capi n s"
  have inv: "sm_inv capi holder n s" by (rule os_monitor.sm_reach_inv [OF os assms(3)])
  have abs: "csem_inv n ?a" by (rule csem_reach_inv [OF os_monitor.sm_reach_abs [OF os assms(3)] assms(4,5)])
  have "sm_taken s \<le> sm_signalled s" using csem_inv_taken [OF abs] by (simp add: sm_abs_def)
  moreover have "(\<forall>t<n. sm_pcs s t = M_Idle \<or> sm_pcs s t = M_W_Asleep \<and> cv_suspends capi (sm_cond s) t) \<and>
    cs_to_release (sm_sem s) = 0 \<and>
    int (card {t. t < n \<and> sm_pcs s t = M_W_Asleep}) = max 0 (- sint (cs_value (sm_sem s))) \<and>
    uint (cs_waiters (sm_sem s)) = int (card {t. t < n \<and> sm_pcs s t = M_W_Asleep}) \<and>
    sm_signalled s - sm_taken s = max 0 (sint (cs_value (sm_sem s)))"
    if stuck: "sm_stuck False debug api capi n s"
  proof -
    note rest = os_monitor.sm_stuck_abs [OF os inv stuck]
    have "cmem ?a = sm_sem s" "csignalled ?a = sm_signalled s" "ctaken ?a = sm_taken s"
      using rest(2) by (simp_all add: sm_abs_def)
    with csem_inv_quiescent [OF abs rest(1)] csem_inv_waiters [OF abs rest(1)] rest(3)
      os_monitor.sm_stuck_rests [OF os inv stuck]
    show ?thesis by simp
  qed
  ultimately show ?thesis by blast
qed

theorem sem_monitor_correct_witness:
  "sm_taken sm_asleep_state \<le> sm_signalled sm_asleep_state \<and> cs_to_release (sm_sem sm_asleep_state) = 0 \<and>
   int (card {t. t < 2 \<and> sm_pcs sm_asleep_state t = M_W_Asleep}) = 1"
proof -
  have "sm_next False True errorcheck_mutex fifo_condvar t (sm_sem sm_asleep_state) (sm_mutex sm_asleep_state)
      (sm_cond sm_asleep_state) (sm_pcs sm_asleep_state t) = []" if "t < 2" for t
    using that by (auto simp: sm_asleep_state_def fifo_condvar_def less_2_cases_iff)
  then have "sm_stuck False True errorcheck_mutex fifo_condvar 2 sm_asleep_state" by (simp add: sm_stuck_def)
  with sem_monitor_correct [OF errorcheck.contract fifo.cv_contract sm_start_run [OF sm_asleep_run]]
  show ?thesis by (simp add: sm_asleep_state_def)
qed

text \<open>With exact worker selection the condvar semaphore over-releases, on a mutex and a condition variable that
  keep their contracts: a signal that finds a zero token count adds both a token and a release credit, so
  one signal lets two waits through.\<close>

theorem sem_monitor_over_release:
  "\<exists>s :: (tid list, tid option, 8 word) sm_sys.
     reach (sm_init errorcheck_mutex fifo_condvar) (sm_run_step True True errorcheck_mutex fifo_condvar 2) s \<and>
     sm_signalled s = 1 \<and> sm_taken s = 2"
  using sm_start_run [OF sm_over_run] by (intro exI [of _ sm_over_state]) (simp add: sm_over_state_def)

end
