(* ===== verification/JoinMonitor.thy ===== *)
theory JoinMonitor
  imports SpreadJoin Monitor
begin

text \<open>
  A spread on the platforms without a futex backend (threading/barrier.hpp): the caller and the workers of
  theory \<open>SpreadJoin\<close>, joined by the condition-variable barrier of threading/generic_barrier.cpp, call by call as in
  theory \<open>Monitor\<close>. It refines the spread over the futex barrier, and in addition nobody holds or waits for
  the barrier's mutex when the caller's frame, with the barrier, goes.
\<close>

section \<open>The steps that leave the barrier alone\<close>

inductive plan_step :: "piece list \<Rightarrow> nat \<Rightarrow> ('b, 'q, 'h::len word) spread_sys \<Rightarrow> ('b, 'q, 'h word) spread_sys \<Rightarrow> bool"
  for ps n where
  enqueue_worker: "caller_free s \<Longrightarrow> ops s = Enqueue_Worker w is # rest \<Longrightarrow> p = P_Queued \<or> p = P_Lost \<Longrightarrow>
    plan_step ps n s (s\<lparr>ops := rest, piece_at := move_all (set is) p (piece_at s)\<rparr>)"
| enqueue_bulk: "caller_free s \<Longrightarrow> ops s = Enqueue_Bulk is # rest \<Longrightarrow>
    plan_step ps n s (s\<lparr>ops := rest, piece_at := move_all (set is) P_Queued (piece_at s)\<rparr>)"
| run_own: "caller_free s \<Longrightarrow> ops s = Run_Own i # rest \<Longrightarrow>
    plan_step ps n s (s\<lparr>ops := rest, piece_at := (piece_at s)(i := P_Running), busy := (busy s)(0 := Some i)\<rparr>)"
| take_piece: "0 < t \<Longrightarrow> t \<le> n \<Longrightarrow> busy s t = None \<Longrightarrow> i < length ps \<Longrightarrow> piece_at s i = P_Queued \<Longrightarrow>
    plan_step ps n s (s\<lparr>piece_at := (piece_at s)(i := P_Running), busy := (busy s)(t := Some i)\<rparr>)"
| steal: "caller_free s \<Longrightarrow> ops s = Steal # rest \<Longrightarrow> i < length ps \<Longrightarrow> piece_at s i = P_Queued \<Longrightarrow>
    plan_step ps n s (s\<lparr>piece_at := (piece_at s)(i := P_Running), busy := (busy s)(0 := Some i)\<rparr>)"
| steal_ends: "caller_free s \<Longrightarrow> ops s = Steal # rest \<Longrightarrow> plan_step ps n s (s\<lparr>ops := rest\<rparr>)"
| load_division: "caller_free s \<Longrightarrow> ops s = Load_Division # rest \<Longrightarrow>
    plan_step ps n s (s\<lparr>ops := (if division s < spread_work_stealing_division_max
      then Cas_Division (division s) # rest else rest)\<rparr>)"
| cas_division: "caller_free s \<Longrightarrow> ops s = Cas_Division current # rest \<Longrightarrow>
    plan_step ps n s (s\<lparr>ops := rest,
      division := (if division s = current then current + 1 else division s)\<rparr>)"
| other_spreads: "division s < spread_work_stealing_division_max \<Longrightarrow>
    plan_step ps n s (s\<lparr>division := division s + 1\<rparr>)"

lemma plan_step_join:
  "plan_step ps n s s' \<Longrightarrow> join_step wake_one ps n s s'"
  by (induction rule: plan_step.induct) (blast intro: join_step.intros)+

section \<open>Caller and workers over the condition-variable barrier\<close>

type_synonym ('m, 'hc) mj_sys = "('hc generic_barrier \<times> 'm, mon_pc, 'hc) spread_sys"

definition mj_init :: "'m mutex_api \<Rightarrow> build \<Rightarrow> 'h::len word spread_context \<Rightarrow> 'h word spread
    \<Rightarrow> ('m, 'h word) mj_sys \<Rightarrow> bool" where
  "mj_init api b c sp s \<longleftrightarrow>
     s = \<lparr>jbar = (\<lparr>g_counter = 0, g_spin_wait = \<not> runs_alone b c \<and> use_caller_thread b \<and> spin_join sp\<rparr>, os_init api),
          ops = spread_program b c sp, joining = None, piece_at = (\<lambda>_. P_Planned), busy = (\<lambda>_. None), iterations_ran = [],
          division = stealing_division c, asserts = True\<rparr>"

text \<open>
  \<open>arrive\<close> asserts twice that the counter is positive before it takes the mutex; both are checked at its first step.
\<close>

inductive mj_step :: "bool \<Rightarrow> 'm mutex_api \<Rightarrow> piece list \<Rightarrow> nat \<Rightarrow> ('m, 'h::len word) mj_sys
    \<Rightarrow> ('m, 'h word) mj_sys \<Rightarrow> bool" for debug api ps n where
  plan: "plan_step ps n s s' \<Longrightarrow> mj_step debug api ps n s s'"
| add: "caller_free s \<Longrightarrow> ops s = Add_Arrival i # rest \<Longrightarrow> generic_add_expected_arrival (fst (jbar s)) = (ok, b) \<Longrightarrow>
    mj_step debug api ps n s (s\<lparr>jbar := (b, snd (jbar s)), ops := rest, piece_at := (piece_at s)(i := P_Counted),
      asserts := asserts s \<and> ok\<rparr>)"
| initialize: "caller_free s \<Longrightarrow> ops s = Initialize k is # rest \<Longrightarrow>
    mj_step debug api ps n s (s\<lparr>jbar := (generic_initialize k (fst (jbar s)), snd (jbar s)), ops := rest,
      piece_at := move_all (set is) P_Counted (piece_at s), asserts := asserts s \<and> g_counter (fst (jbar s)) = 0\<rparr>)"
| bulk_failed: "caller_free s \<Longrightarrow> ops s = Bulk_Failed k # rest \<Longrightarrow>
    mj_step debug api ps n s (s\<lparr>jbar := (generic_initialize 0 (generic_initialize k (fst (jbar s))), snd (jbar s)),
      ops := rest, asserts := asserts s \<and> g_counter (fst (jbar s)) = 0 \<and> k = 0\<rparr>)"
| run: "busy s t = Some i \<Longrightarrow> piece_at s i = P_Running \<Longrightarrow>
    mj_step debug api ps n s (s\<lparr>piece_at := (piece_at s)(i := P_Arrive A_Enter),
      iterations_ran := iterations_ran s @ piece_iterations (ps ! i)\<rparr>)"
| arrive: "busy s t = Some i \<Longrightarrow> piece_at s i = P_Arrive q \<Longrightarrow>
    mon_next debug api t (fst (jbar s)) (snd (jbar s)) q = Some (b, m, q') \<Longrightarrow>
    mj_step debug api ps n s (s\<lparr>jbar := (b, m), piece_at := (piece_at s)(i := P_Arrive q'),
      asserts := asserts s \<and> (q = A_Enter \<longrightarrow> 0 < g_counter (fst (jbar s)))\<rparr>)"
| notify: "busy s t = Some i \<Longrightarrow> piece_at s i = P_Arrive A_Notify \<Longrightarrow>
    mj_step debug api ps n s (s\<lparr>piece_at := (piece_at s)(i := P_Arrive A_Unlock),
      joining := (if joining s = Some V_Asleep then Some V_Locking else joining s)\<rparr>)"
| completed: "busy s t = Some i \<Longrightarrow> piece_at s i = P_Arrive A_Left \<Longrightarrow>
    mj_step debug api ps n s (s\<lparr>busy := (busy s)(t := None)\<rparr>)"
| join_wait: "caller_free s \<Longrightarrow> ops s = Join_Wait # rest \<Longrightarrow>
    mj_step debug api ps n s (s\<lparr>joining := Some V_Locking\<rparr>)"
| join_done: "caller_free s \<Longrightarrow> ops s = Join_Spin # rest \<Longrightarrow> generic_everyone_arrived (fst (jbar s)) \<Longrightarrow>
    mj_step debug api ps n s (s\<lparr>ops := rest\<rparr>)"
| join_spin: "caller_free s \<Longrightarrow> ops s = Join_Spin # rest \<Longrightarrow> \<not> generic_everyone_arrived (fst (jbar s)) \<Longrightarrow>
    mj_step debug api ps n s (s\<lparr>joining := Some (V_Poll spin_count spin_count)\<rparr>)"
| join_moves: "joining s = Some q \<Longrightarrow> \<nexists>r. q = V_Returned r \<Longrightarrow>
    mon_next debug api 0 (fst (jbar s)) (snd (jbar s)) q = Some (b, m, q') \<Longrightarrow>
    mj_step debug api ps n s (s\<lparr>jbar := (b, m), joining := Some q'\<rparr>)"
| spurious_wake: "joining s = Some V_Asleep \<Longrightarrow> mj_step debug api ps n s (s\<lparr>joining := Some V_Locking\<rparr>)"
| waited: "joining s = Some (V_Returned r) \<Longrightarrow> ops s = Join_Wait # rest \<Longrightarrow>
    mj_step debug api ps n s (s\<lparr>joining := None, ops := rest\<rparr>)"
| spun: "joining s = Some (V_Returned stalled) \<Longrightarrow> ops s = Join_Spin # rest \<Longrightarrow>
    mj_step debug api ps n s (s\<lparr>joining := None, ops := (if stalled then Load_Division # rest else rest)\<rparr>)"

section \<open>The futex barrier's view\<close>

fun arriver_view :: "mon_pc \<Rightarrow> bar_pc" where
  "arriver_view A_Enter = B_Arrive" | "arriver_view A_Locking = B_Arrive" | "arriver_view A_Decrement = B_Arrive"
| "arriver_view A_Notify = B_Wake" | "arriver_view _ = B_Arrived"

text \<open>The waiter that is about to be suspended has seen the counter under the mutex, where nobody changes it.\<close>

fun waiter_view :: "'h::len word generic_barrier \<Rightarrow> mon_pc \<Rightarrow> bar_pc" where
  "waiter_view b V_Locking = B_Load" | "waiter_view b V_Test = B_Load"
| "waiter_view b V_Sleep = B_Park (ucast (g_counter b))" | "waiter_view b V_Asleep = B_Parked"
| "waiter_view b V_Unlock = B_Returned True" | "waiter_view b (V_Returned r) = B_Returned r"
| "waiter_view b (V_Poll c i) = B_Poll c i" | "waiter_view b V_Yield = B_Yield"
| "waiter_view b _ = B_Arrive"

definition futex_view :: "'h::len word generic_barrier \<Rightarrow> futex_barrier" where
  "futex_view b = \<lparr>counter = ucast (g_counter b), use_spin_wait = g_spin_wait b\<rparr>"

lemma futex_view_sel [simp]: "counter (futex_view b) = ucast (g_counter b)" "use_spin_wait (futex_view b) = g_spin_wait b"
  by (simp_all add: futex_view_def)

definition mj_abs :: "('m, 'h::len word) mj_sys \<Rightarrow> 'h word join_sys" where
  "mj_abs s = \<lparr>jbar = futex_view (fst (jbar s)), ops = ops s,
     joining = map_option (waiter_view (fst (jbar s))) (joining s),
     piece_at = (\<lambda>i. map_piece_phase arriver_view (piece_at s i)), busy = busy s, iterations_ran = iterations_ran s,
     division = division s, asserts = asserts s\<rparr>"

lemma map_piece_phase_iff [simp]:
  "map_piece_phase f p = P_Planned \<longleftrightarrow> p = P_Planned" "map_piece_phase f p = P_Counted \<longleftrightarrow> p = P_Counted"
  "map_piece_phase f p = P_Queued \<longleftrightarrow> p = P_Queued" "map_piece_phase f p = P_Lost \<longleftrightarrow> p = P_Lost"
  "map_piece_phase f p = P_Running \<longleftrightarrow> p = P_Running"
  "map_piece_phase f p = P_Arrive q' \<longleftrightarrow> (\<exists>q. p = P_Arrive q \<and> q' = f q)"
  by (cases p; auto)+

lemma map_piece_phase_upd:
  "(\<lambda>i. map_piece_phase f ((g(j := p)) i)) = (\<lambda>i. map_piece_phase f (g i))(j := map_piece_phase f p)"
  "(\<lambda>i. map_piece_phase f (move_all J p g i)) = move_all J (map_piece_phase f p) (\<lambda>i. map_piece_phase f (g i))"
  by (auto simp: fun_eq_iff move_all_def)

lemma mj_abs_sel [simp]:
  "jbar (mj_abs s) = futex_view (fst (jbar s))" "ops (mj_abs s) = ops s"
  "joining (mj_abs s) = map_option (waiter_view (fst (jbar s))) (joining s)"
  "piece_at (mj_abs s) = (\<lambda>i. map_piece_phase arriver_view (piece_at s i))" "busy (mj_abs s) = busy s"
  "iterations_ran (mj_abs s) = iterations_ran s" "division (mj_abs s) = division s" "asserts (mj_abs s) = asserts s"
  by (simp_all add: mj_abs_def)

lemma mj_abs_upd:
  "mj_abs (s\<lparr>ops := x\<rparr>) = (mj_abs s)\<lparr>ops := x\<rparr>"
  "mj_abs (s\<lparr>piece_at := g\<rparr>) = (mj_abs s)\<lparr>piece_at := \<lambda>i. map_piece_phase arriver_view (g i)\<rparr>"
  "mj_abs (s\<lparr>busy := f\<rparr>) = (mj_abs s)\<lparr>busy := f\<rparr>"
  "mj_abs (s\<lparr>iterations_ran := r\<rparr>) = (mj_abs s)\<lparr>iterations_ran := r\<rparr>"
  "mj_abs (s\<lparr>division := d\<rparr>) = (mj_abs s)\<lparr>division := d\<rparr>"
  "mj_abs (s\<lparr>asserts := a\<rparr>) = (mj_abs s)\<lparr>asserts := a\<rparr>"
  "mj_abs (s\<lparr>joining := j\<rparr>) = (mj_abs s)\<lparr>joining := map_option (waiter_view (fst (jbar s))) j\<rparr>"
  by (simp_all add: mj_abs_def)

lemma caller_free_abs [simp]: "caller_free (mj_abs s) = caller_free s"
  by (simp add: caller_free_def)

lemma returned_abs [simp]: "returned (mj_abs s) = returned s"
  by (simp add: returned_def)

lemmas mj_abs_eval = mj_abs_upd map_piece_phase_upd

lemma plan_step_abs: "plan_step ps n s s' \<Longrightarrow> plan_step ps n (mj_abs s) (mj_abs s')"
proof (induction rule: plan_step.induct)
  case (enqueue_worker s w "is" rest p)
  then show ?case using plan_step.enqueue_worker [of "mj_abs s" w "is" rest "map_piece_phase arriver_view p" ps n]
    by (auto simp: mj_abs_eval)
next
  case (enqueue_bulk s "is" rest)
  then show ?case using plan_step.enqueue_bulk [of "mj_abs s" "is" rest ps n] by (simp add: mj_abs_eval)
next
  case (run_own s i rest)
  then show ?case using plan_step.run_own [of "mj_abs s" i rest ps n] by (simp add: mj_abs_eval del: fun_upd_apply)
next
  case (take_piece t s i)
  then show ?case using plan_step.take_piece [of t n "mj_abs s" i ps] by (simp add: mj_abs_eval del: fun_upd_apply)
next
  case (steal s rest i)
  then show ?case using plan_step.steal [of "mj_abs s" rest i ps n] by (simp add: mj_abs_eval del: fun_upd_apply)
next
  case (steal_ends s rest)
  then show ?case using plan_step.steal_ends [of "mj_abs s" rest ps n] by (simp add: mj_abs_eval)
next
  case (load_division s rest)
  then show ?case using plan_step.load_division [of "mj_abs s" rest ps n]
    by (simp add: mj_abs_eval cong: if_cong)
next
  case (cas_division s current rest)
  then show ?case using plan_step.cas_division [of "mj_abs s" current rest ps n]
    by (simp add: mj_abs_eval cong: if_cong)
next
  case (other_spreads s)
  then show ?case using plan_step.other_spreads [of "mj_abs s" ps n] by (simp add: mj_abs_eval)
qed

section \<open>The invariant\<close>

text \<open>Where thread \<open>t\<close> is in the barrier; \<open>A_Left\<close> when it is nowhere in it.\<close>

definition mj_at :: "('m, 'hc) mj_sys \<Rightarrow> tid \<Rightarrow> mon_pc" where
  "mj_at s t = (if t = 0 \<and> joining s \<noteq> None then the (joining s)
     else case busy s t of None \<Rightarrow> A_Left
       | Some i \<Rightarrow> (case piece_at s i of P_Arrive q \<Rightarrow> q | _ \<Rightarrow> A_Left))"

definition all_left :: "nat \<Rightarrow> ('m, 'hc) mj_sys \<Rightarrow> bool" where
  "all_left N s \<longleftrightarrow> (\<forall>i<N. piece_at s i = P_Arrive A_Left)"

definition pieces_held :: "nat \<Rightarrow> nat \<Rightarrow> ('m, 'hc) mj_sys \<Rightarrow> bool" where
  "pieces_held N n s \<longleftrightarrow> (\<forall>t u i. busy s t = Some i \<longrightarrow> busy s u = Some i \<longrightarrow> t = u) \<and>
     (joining s \<noteq> None \<longrightarrow> busy s 0 = None) \<and>
     (\<forall>i<N. \<forall>q. piece_at s i = P_Arrive q \<longrightarrow> mon_arriver (g_spin_wait (fst (jbar s))) q \<and>
       (q = A_Left \<or> (\<exists>t\<le>n. busy s t = Some i)))"

lemma pieces_heldD:
  assumes "pieces_held N n s"
  shows held_inj: "busy s t = Some i \<Longrightarrow> busy s u = Some i \<Longrightarrow> t = u"
    and held_joiner: "joining s = Some p \<Longrightarrow> busy s 0 = None"
    and held_arriver: "i < N \<Longrightarrow> piece_at s i = P_Arrive q \<Longrightarrow> mon_arriver (g_spin_wait (fst (jbar s))) q"
    and held_by: "i < N \<Longrightarrow> piece_at s i = P_Arrive q \<Longrightarrow> q \<noteq> A_Left \<Longrightarrow> \<exists>t\<le>n. busy s t = Some i"
  using assms unfolding pieces_held_def by blast+

definition frame_safe :: "nat \<Rightarrow> ('m, 'hc) mj_sys \<Rightarrow> bool" where
  "frame_safe N s \<longleftrightarrow> (\<forall>q. joining s = Some q \<longrightarrow> mon_over q \<longrightarrow> all_left N s) \<and>
     (after_join (ops s) \<longrightarrow> (\<forall>i<N. piece_at s i = P_Arrive A_Left \<or> busy s 0 = Some i))"

definition mj_inv :: "('m \<Rightarrow> tid option) \<Rightarrow> bool \<Rightarrow> bool \<Rightarrow> piece list \<Rightarrow> nat \<Rightarrow> ('m, 'h::len word) mj_sys \<Rightarrow> bool" where
  "mj_inv holder spin enqueued ps n s \<longleftrightarrow> join_inv spin enqueued ps n (mj_abs s) \<and>
     mutex_owned holder mon_holding (Suc n) (snd (jbar s)) (mj_at s) \<and> pieces_held (length ps) n s \<and>
     frame_safe (length ps) s"

lemma mj_invD:
  assumes "mj_inv holder spin enqueued ps n s"
  shows mj_inv_join: "join_inv spin enqueued ps n (mj_abs s)"
    and mj_inv_owned: "mutex_owned holder mon_holding (Suc n) (snd (jbar s)) (mj_at s)"
    and mj_inv_held: "pieces_held (length ps) n s" and mj_inv_frame: "frame_safe (length ps) s"
  using assms by (simp_all add: mj_inv_def)

section \<open>The counters of the two barriers\<close>

lemma ucast_zero_iff:
  "LENGTH('h::len) \<le> 32 \<Longrightarrow> (ucast (c :: 'h word) :: 32 word) = 0 \<longleftrightarrow> c = 0"
  using unat_ucast_widen [of c, where 'b = 32] by (simp flip: unat_eq_zero)

lemma ucast_dec:
  assumes "LENGTH('h::len) \<le> 32" "0 < (c :: 'h word)"
  shows "(ucast (c - 1) :: 32 word) = ucast c - 1"
proof -
  have "uint (ucast c :: 32 word) = uint c" using assms(1) by (intro uint_ucast_widen) simp
  moreover from this have "0 < (ucast c :: 32 word)" using assms(2) by (simp add: word_less_alt)
  ultimately show ?thesis
    using uint_minus_1 [of c] uint_minus_1 [of "ucast c :: 32 word"] uint_ucast_widen [of "c - 1", where 'b = 32] assms
    by (intro word_uint_eqI) simp
qed

lemma ucast_inc:
  assumes "LENGTH('h::len) \<le> 32" "unat (c :: 'h word) + 1 < 2 ^ LENGTH('h)"
  shows "(ucast (c + 1) :: 32 word) = ucast c + 1"
proof -
  have "unat (c + 1) = unat c + 1" using assms(2) by (subst unat_add_small) simp_all
  moreover have "unat (ucast c :: 32 word) = unat c" "unat (ucast (c + 1) :: 32 word) = unat (c + 1)"
    using assms(1) by (simp_all add: unat_ucast_widen)
  moreover have "(2::nat) ^ LENGTH('h) \<le> 2 ^ 32" using assms(1) by (intro power_increasing) simp_all
  then have "unat (ucast c + 1 :: 32 word) = unat c + 1"
    using assms(2) calculation(2) by (subst unat_add_small) simp_all
  ultimately show ?thesis by (simp add: word_unat_eq_iff)
qed

lemma futex_view_arrived:
  assumes "LENGTH('h::len) \<le> 32"
  shows "everyone_arrived TYPE('h) (futex_view (b :: 'h word generic_barrier)) \<longleftrightarrow> generic_everyone_arrived b"
proof -
  have u: "unat (ucast (g_counter b) :: 32 word) = unat (g_counter b)" using assms by (simp add: unat_ucast_widen)
  then have "unat (ucast (ucast (g_counter b) :: 32 word) :: 'h word) = unat (g_counter b)"
    by (subst unat_ucast_small) simp_all
  then show ?thesis
    by (simp add: everyone_arrived_def actives_def futex_view_def generic_everyone_arrived_def flip: unat_eq_zero)
qed

section \<open>Refinement\<close>

lemma mj_spin: "join_inv spin enqueued ps n (mj_abs s) \<Longrightarrow> g_spin_wait (fst (jbar s)) = spin"
  by (simp add: join_inv_def joiner_ok_def futex_view_def)

lemma mj_joiner:
  assumes inv: "join_inv spin enqueued ps n (mj_abs s)" and width: "LENGTH('h::len) \<le> 32"
    and q: "joining (s :: ('m, 'h word) mj_sys) = Some q"
  shows "ops s = [if spin then Join_Spin else Join_Wait] \<and> mon_waiter spin (g_counter (fst (jbar s)) = 0) True q \<or>
    ops s = [if spin then Join_Spin else Join_Wait] \<and> q = V_Unlock \<and> g_counter (fst (jbar s)) = 0"
  using inv q ucast_zero_iff [OF width]
  by (cases q) (auto simp: join_inv_def joiner_ok_def futex_view_def)

lemma mj_outstanding:
  assumes inv: "join_inv spin enqueued ps n (mj_abs (s :: ('m, 'h::len word) mj_sys))" and width: "LENGTH('h) \<le> 32"
    and i: "i < length ps" "piece_at s i = P_Arrive q" "arriver_view q = B_Arrive"
  shows "0 < g_counter (fst (jbar s))"
proof -
  have "int (outstanding (piece_at (mj_abs s) i)) \<le> weight (length ps) outstanding (piece_at (mj_abs s))"
    by (rule weight_ge [OF i(1)])
  with i inv have "1 \<le> uint (ucast (g_counter (fst (jbar s))) :: 32 word)"
    by (simp add: join_inv_def counter_ok_def futex_view_def)
  also have "uint (ucast (g_counter (fst (jbar s))) :: 32 word) = uint (g_counter (fst (jbar s)))"
    using width by (simp add: uint_ucast_widen)
  finally show ?thesis by (simp add: word_less_alt)
qed

lemma mj_busy:
  assumes "join_inv spin enqueued ps n (mj_abs s)" "busy s t = Some i"
  shows "t \<le> n" "i < length ps" "in_hand (map_piece_phase arriver_view (piece_at s i))"
  using assms by (auto simp: join_inv_def busy_ok_def)

lemma mj_at_busy:
  assumes "pieces_held N n s" "busy s t = Some i" "piece_at s i = P_Arrive q"
  shows "mj_at s t = q"
  using assms by (auto simp: mj_at_def pieces_held_def)

lemma mj_at_joiner: "joining s = Some q \<Longrightarrow> mj_at s 0 = q"
  by (simp add: mj_at_def)

text \<open>While a thread counts down, the waiter is not about to be suspended.\<close>

lemma mj_no_sleep:
  assumes inv: "mj_inv holder spin enqueued ps n (s :: ('m, 'h::len word) mj_sys)" and width: "LENGTH('h) \<le> 32"
    and t: "busy s t = Some i" "piece_at s i = P_Arrive q" "q = A_Decrement \<or> spin"
  shows "joining s \<noteq> Some V_Sleep"
proof
  assume j: "joining s = Some V_Sleep"
  have "\<not> spin" using mj_joiner [OF mj_inv_join [OF inv] width j] by simp
  with t(3) have q: "q = A_Decrement" by simp
  have "t \<noteq> 0" by (rule notI) (use mj_inv_held [OF inv] j t(1) in \<open>simp add: pieces_held_def\<close>)
  moreover have "t < Suc n" using mj_busy(1) [OF mj_inv_join [OF inv] t(1)] by simp
  moreover have "mon_holding (mj_at s t)" "mon_holding (mj_at s 0)"
    using mj_at_busy [OF mj_inv_held [OF inv] t(1,2)] mj_at_joiner [OF j] q by (simp_all add: mon_holding_def)
  ultimately show False using mutex_owned_unique [OF mj_inv_owned [OF inv], of t 0] by simp
qed

lemma mj_abs_bar:
  "joining s \<noteq> Some V_Sleep \<or> g_counter b = g_counter (fst (jbar s)) \<Longrightarrow>
     mj_abs (s\<lparr>jbar := (b, m)\<rparr>) = (mj_abs s)\<lparr>jbar := futex_view b\<rparr>"
proof -
  assume a: "joining s \<noteq> Some V_Sleep \<or> g_counter b = g_counter (fst (jbar s))"
  have "map_option (waiter_view b) (joining s) = map_option (waiter_view (fst (jbar s))) (joining s)"
  proof (cases "joining s")
    case (Some q)
    with a show ?thesis by (cases q) auto
  qed simp
  then show ?thesis by (simp add: mj_abs_def)
qed

lemma mj_abs_same: "fst (jbar s) = b \<Longrightarrow> mj_abs (s\<lparr>jbar := (b, m)\<rparr>) = mj_abs s"
  by (auto simp: mj_abs_def)

text \<open>A step inside \<open>arrive\<close>.\<close>

lemma mj_refines_arrive:
  assumes inv: "mj_inv holder spin enqueued ps n (s :: ('m, 'h::len word) mj_sys)" and width: "LENGTH('h) \<le> 32"
    and t: "busy s t = Some i" "piece_at s i = P_Arrive q"
    and nx: "mon_next debug api t (fst (jbar s)) (snd (jbar s)) q = Some (b, m, q')"
  defines "s' \<equiv> s\<lparr>jbar := (b, m), piece_at := (piece_at s)(i := P_Arrive q'),
      asserts := asserts s \<and> (q = A_Enter \<longrightarrow> 0 < g_counter (fst (jbar s)))\<rparr>"
  shows "join_step wake_one ps n (mj_abs s) (mj_abs s') \<or> mj_abs s' = mj_abs s"
proof -
  let ?b = "fst (jbar s)"
  note j = mj_inv_join [OF inv]
  have spin: "g_spin_wait ?b = spin" by (rule mj_spin [OF j])
  have arr: "mon_arriver spin q" using mj_inv_held [OF inv] t(2) mj_busy(2) [OF j t(1)] spin by (simp add: pieces_held_def)
  have pos: "arriver_view q = B_Arrive \<Longrightarrow> 0 < g_counter ?b"
    using mj_outstanding [OF j width mj_busy(2) [OF j t(1)] t(2)] .
  have asr: "(asserts s \<and> (q = A_Enter \<longrightarrow> 0 < g_counter ?b)) = asserts s" using pos by auto
  have down: ?thesis
    if b: "b = ?b\<lparr>g_counter := g_counter ?b - 1\<rparr>" and q: "arriver_view q = B_Arrive" "q = A_Decrement \<or> spin"
      and q': "bar_next TYPE('h) (futex_view ?b) B_Arrive = Some (futex_view b, arriver_view q')"
  proof -
    have "0 < counter (futex_view ?b)"
      using pos [OF q(1)] ucast_zero_iff [OF width, of "g_counter ?b"] by (simp add: futex_view_def word_gt_0)
    moreover have "join_step wake_one ps n (mj_abs s) ((mj_abs s)\<lparr>jbar := futex_view b,
        piece_at := (piece_at (mj_abs s))(i := P_Arrive (arriver_view q')), asserts := asserts (mj_abs s) \<and> 0 < counter (jbar (mj_abs s))\<rparr>)"
      by (rule join_step.arrive) (use t q q' in simp_all)
    moreover have "mj_abs (s\<lparr>jbar := (b, m)\<rparr>) = (mj_abs s)\<lparr>jbar := futex_view b\<rparr>"
      by (rule mj_abs_bar) (use mj_no_sleep [OF inv width t q(2)] in simp)
    then have "mj_abs s' = (mj_abs s)\<lparr>jbar := futex_view b,
        piece_at := (piece_at (mj_abs s))(i := P_Arrive (arriver_view q')), asserts := asserts s\<rparr>"
      unfolding s'_def asr by (simp add: mj_abs_eval del: fun_upd_apply)
    ultimately show ?thesis by simp
  qed
  have stay: ?thesis if "b = ?b" "arriver_view q' = arriver_view q"
  proof -
    have "(\<lambda>k. map_piece_phase arriver_view (piece_at s k))(i := P_Arrive (arriver_view q)) =
        (\<lambda>k. map_piece_phase arriver_view (piece_at s k))"
      using t(2) by (simp add: fun_eq_iff)
    then show ?thesis using that unfolding s'_def asr
      by (simp add: mj_abs_eval mj_abs_same del: fun_upd_apply)
  qed
  show ?thesis
  proof (cases q)
    case A_Enter
    show ?thesis
    proof (cases spin)
      case True
      with nx A_Enter spin have "b = ?b\<lparr>g_counter := g_counter ?b - 1\<rparr>" "q' = A_Left"
        by (auto simp: underflow_checked_dec_def)
      then show ?thesis using True A_Enter spin pos ucast_dec [OF width, of "g_counter ?b"]
        by (intro down) (simp_all add: futex_view_def underflow_checked_dec_def)
    next
      case False
      with nx A_Enter spin show ?thesis by (intro stay) auto
    qed
  next
    case A_Decrement
    then have nb: "b = ?b\<lparr>g_counter := g_counter ?b - 1\<rparr>" "q' = (if g_counter ?b = 1 then A_Notify else A_Unlock)"
      using nx by auto
    have "(ucast (g_counter ?b) :: 32 word) = 1 \<longleftrightarrow> (ucast (g_counter ?b) - 1 :: 32 word) = 0" by simp
    also have "\<dots> \<longleftrightarrow> g_counter ?b - 1 = 0"
      using ucast_dec [OF width pos] ucast_zero_iff [OF width, of "g_counter ?b - 1"] A_Decrement by simp
    finally have "(ucast (g_counter ?b) :: 32 word) = 1 \<longleftrightarrow> g_counter ?b = 1" by simp
    then show ?thesis using nb A_Decrement arr spin pos ucast_dec [OF width, of "g_counter ?b"]
      by (intro down) (simp_all add: futex_view_def)
  next
    case A_Locking
    with nx have "b = ?b" "q' = A_Decrement" by (auto simp: on_mutex_def split: verified.splits)
    with A_Locking show ?thesis by (intro stay) simp_all
  next
    case A_Unlock
    with nx have "b = ?b" "q' = A_Left" by (auto simp: on_mutex_def split: verified.splits)
    with A_Unlock show ?thesis by (intro stay) simp_all
  qed (use nx arr in simp_all)
qed

text \<open>A step inside \<open>wait\<close> or \<open>spin_wait\<close>.\<close>

lemma mj_join_same:
  assumes inv: "join_inv spin enqueued ps n (mj_abs (s :: ('m, 'h::len word) mj_sys))" and width: "LENGTH('h) \<le> 32"
    and q: "joining s = Some q" and nx: "mon_next debug api 0 (fst (jbar s)) (snd (jbar s)) q = Some (b, m, q')"
  shows "b = fst (jbar s)"
  using mj_joiner [OF inv width q] nx
  by (cases q) (auto simp: on_mutex_def Let_def split: verified.splits if_splits)

lemma mj_refines_join:
  assumes inv: "mj_inv holder spin enqueued ps n (s :: ('m, 'h::len word) mj_sys)" and width: "LENGTH('h) \<le> 32"
    and q: "joining s = Some q" "\<nexists>r. q = V_Returned r"
    and nx: "mon_next debug api 0 (fst (jbar s)) (snd (jbar s)) q = Some (b, m, q')"
  defines "s' \<equiv> s\<lparr>jbar := (b, m), joining := Some q'\<rparr>"
  shows "join_step wake_one ps n (mj_abs s) (mj_abs s') \<or> mj_abs s' = mj_abs s"
proof -
  let ?b = "fst (jbar s)"
  note j = mj_inv_join [OF inv]
  have b: "b = ?b" by (rule mj_join_same [OF j width q(1) nx])
  have s': "mj_abs s' = (mj_abs s)\<lparr>joining := Some (waiter_view ?b q')\<rparr>"
    unfolding s'_def by (simp add: mj_abs_def b)
  have "(ucast (g_counter ?b) :: 32 word) = 0 \<longleftrightarrow> g_counter ?b = 0" by (rule ucast_zero_iff [OF width])
  then have "waiter_view ?b q' = waiter_view ?b q \<or>
      bar_next TYPE('h) (futex_view ?b) (waiter_view ?b q) = Some (futex_view ?b, waiter_view ?b q')"
    using nx q(2) mj_joiner [OF j width q(1)]
    by (cases q) (auto simp: on_mutex_def Let_def futex_view_arrived [OF width] parks_def split: verified.splits if_splits)
  then show ?thesis
  proof
    assume "waiter_view ?b q' = waiter_view ?b q"
    then have "mj_abs s' = mj_abs s" unfolding s' using q(1) by (simp add: mj_abs_def)
    then show ?thesis ..
  next
    assume nxt: "bar_next TYPE('h) (futex_view ?b) (waiter_view ?b q) = Some (futex_view ?b, waiter_view ?b q')"
    have "join_step wake_one ps n (mj_abs s) ((mj_abs s)\<lparr>jbar := futex_view ?b, joining := Some (waiter_view ?b q')\<rparr>)"
      by (rule join_step.join_moves) (use q nxt in simp_all)
    moreover have "(mj_abs s)\<lparr>jbar := futex_view ?b, joining := Some (waiter_view ?b q')\<rparr> = mj_abs s'"
      unfolding s' by (simp add: mj_abs_def)
    ultimately show ?thesis by simp
  qed
qed

text \<open>The caller's operations on the barrier.\<close>

lemma mj_add_room:
  assumes inv: "join_inv spin enqueued ps n (mj_abs (s :: ('m, 'h::len word) mj_sys))" and width: "LENGTH('h) \<le> 32"
    and small: "length ps < 2 ^ LENGTH('h)" and add: "ops s = Add_Arrival i # rest"
  shows "unat (g_counter (fst (jbar s))) + 1 < 2 ^ LENGTH('h)"
proof -
  let ?p = "piece_at (mj_abs s)"
  have p: "phases_ok (length ps) (mj_abs s)" using inv by (simp add: join_inv_def)
  then have i: "i < length ps" using phases_okD(1) [OF p] add by simp
  then have "outstanding (?p i) = 0" using phases_okD(2) [OF p i] add by simp
  then have "weight (length ps) outstanding (?p(i := P_Counted)) = weight (length ps) outstanding ?p + 1"
    by (simp add: weight_upd [OF i] del: mj_abs_sel)
  moreover have "weight (length ps) outstanding (?p(i := P_Counted)) \<le> int (length ps)"
    by (rule weight_le) (rule outstanding_le)
  moreover have "uint (ucast (g_counter (fst (jbar s))) :: 32 word) = weight (length ps) outstanding ?p"
    using inv by (simp add: join_inv_def counter_ok_def)
  moreover have "uint (ucast (g_counter (fst (jbar s))) :: 32 word) = uint (g_counter (fst (jbar s)))"
    using width by (simp add: uint_ucast_widen)
  moreover have "int (unat (g_counter (fst (jbar s)))) = uint (g_counter (fst (jbar s)))" by (simp only: uint_nat)
  ultimately have "unat (g_counter (fst (jbar s))) + 1 \<le> length ps" by linarith
  with small show ?thesis by linarith
qed

lemma futex_view_add:
  fixes b :: "'h::len word generic_barrier"
  assumes width: "LENGTH('h) \<le> 32" and room: "unat (g_counter b) + 1 < 2 ^ LENGTH('h)"
    and add: "generic_add_expected_arrival b = (ok, b')"
  shows "add_expected_arrival (futex_view b) = (ok, futex_view b')"
proof -
  have "(2::nat) ^ LENGTH('h) \<le> 2 ^ 32" using width by (intro power_increasing) simp_all
  then have "unat (ucast (g_counter b) :: 32 word) + 1 < 2 ^ LENGTH(32)"
    using room width by (simp add: unat_ucast_widen)
  then have "(ucast (g_counter b) :: 32 word) < - 1" by (simp only: below_max_word)
  moreover have "g_counter b < - 1" using room by (simp only: below_max_word)
  ultimately show ?thesis using add ucast_inc [OF width room]
    by (auto simp: generic_add_expected_arrival_def add_expected_arrival_def overflow_checked_add_def futex_view_def)
qed

lemma futex_view_initialize: "futex_view (generic_initialize k b) = barrier_initialize k (futex_view b)"
  by (simp add: futex_view_def generic_initialize_def barrier_initialize_def)

lemma mj_refines_step:
  assumes inv: "mj_inv holder spin enqueued ps n (s :: ('m, 'h::len word) mj_sys)" and width: "LENGTH('h) \<le> 32"
    and small: "length ps < 2 ^ LENGTH('h)" and step: "mj_step debug api ps n s s'"
  shows "join_step wake_everybody ps n (mj_abs s) (mj_abs s') \<or> mj_abs s' = mj_abs s"
proof -
  note free = caller_free_def and zero = ucast_zero_iff [OF width]
  from step show ?thesis
  proof cases
    case plan
    then show ?thesis using plan_step_join [OF plan_step_abs] by blast
  next
    case (add i rest ok b)
    have "add_expected_arrival (futex_view (fst (jbar s))) = (ok, futex_view b)"
      by (rule futex_view_add [OF width mj_add_room [OF mj_inv_join [OF inv] width small add(3)] add(4)])
    then show ?thesis
      using join_step.add [of "mj_abs s" i rest ok "futex_view b" wake_everybody ps n] add(1-3)
      by (simp add: mj_abs_eval mj_abs_bar free del: fun_upd_apply)
  next
    case (initialize k "is" rest)
    then show ?thesis using join_step.initialize [of "mj_abs s" k "is" rest wake_everybody ps n]
      by (simp add: mj_abs_eval mj_abs_bar free futex_view_initialize zero)
  next
    case (bulk_failed k rest)
    then show ?thesis using join_step.bulk_failed [of "mj_abs s" k rest wake_everybody ps n]
      by (simp add: mj_abs_eval mj_abs_bar free futex_view_initialize zero barrier_initialize_def)
  next
    case (run t i)
    then show ?thesis using join_step.run [of "mj_abs s" t i wake_everybody ps n]
      by (simp add: mj_abs_eval del: fun_upd_apply)
  next
    case (arrive t i q b m q')
    then show ?thesis using mj_refines_arrive [OF inv width arrive(2-4)] by simp
  next
    case (notify t i)
    have "joining (mj_abs s) = Some B_Parked \<longleftrightarrow> joining s = Some V_Asleep"
    proof (cases "joining s")
      case (Some q)
      then show ?thesis by (cases q) auto
    qed simp
    then have w: "wake_everybody (joiner_parked (mj_abs s)) (if joining s = Some V_Asleep then {0} else {})"
      by (simp add: wake_everybody_def joiner_parked_def)
    show ?thesis using join_step.wake [of "mj_abs s" t i wake_everybody _ ps n, OF _ _ w] notify
      by (simp add: mj_abs_eval del: fun_upd_apply split: if_splits)
  next
    case (completed t i)
    then show ?thesis using join_step.completed [of "mj_abs s" t i wake_everybody ps n]
      by (simp add: mj_abs_eval)
  next
    case (join_wait rest)
    then show ?thesis using join_step.join_wait [of "mj_abs s" rest wake_everybody ps n]
      by (simp add: mj_abs_eval)
  next
    case (join_done rest)
    then show ?thesis using join_step.join_done [of "mj_abs s" rest wake_everybody ps n]
      by (simp add: mj_abs_eval futex_view_arrived [OF width])
  next
    case (join_spin rest spin_count)
    then show ?thesis using join_step.join_spin [of "mj_abs s" rest wake_everybody ps n spin_count]
      by (simp add: mj_abs_eval futex_view_arrived [OF width])
  next
    case (join_moves q b m q')
    then show ?thesis using mj_refines_join [OF inv width join_moves(2-4)] by simp
  next
    case spurious_wake
    then show ?thesis using join_step.spurious_wake [of "mj_abs s" wake_everybody ps n]
      by (simp add: mj_abs_eval)
  next
    case (waited r rest)
    then show ?thesis using join_step.waited [of "mj_abs s" r rest wake_everybody ps n]
      by (simp add: mj_abs_eval)
  next
    case (spun stalled rest)
    then show ?thesis using join_step.spun [of "mj_abs s" stalled rest wake_everybody ps n]
      by (simp add: mj_abs_eval cong: if_cong)
  qed
qed

section \<open>The invariant is kept\<close>

lemma mj_owned_cong:
  assumes "mutex_owned holder mon_holding N m f" and "\<And>t. mon_holding (g t) = mon_holding (f t)"
  shows "mutex_owned holder mon_holding N m g"
  using assms by (simp add: mutex_owned_def)

text \<open>The pieces that the caller's program counts or hands out, and those in the queues, are at no arrival.\<close>

lemma mj_phase:
  assumes inv: "join_inv spin enqueued ps n (mj_abs s)" and i: "i < length ps"
  shows "piece_at s i = P_Planned \<longleftrightarrow> i \<in> set (adds (ops s))"
    and "piece_at s i = P_Counted \<longleftrightarrow> i \<in> set (hands (ops s)) \<and> i \<notin> set (adds (ops s))"
proof -
  have p: "phases_ok (length ps) (mj_abs s)" using inv by (simp add: join_inv_def)
  show "piece_at s i = P_Planned \<longleftrightarrow> i \<in> set (adds (ops s))" using phases_okD(2) [OF p i] by simp
  show "piece_at s i = P_Counted \<longleftrightarrow> i \<in> set (hands (ops s)) \<and> i \<notin> set (adds (ops s))"
    using phases_okD(3) [OF p i] by simp
qed

lemma mj_prog: "join_inv spin enqueued ps n (mj_abs s) \<Longrightarrow> prog_ok (length ps) (ops s)"
  by (simp add: join_inv_def phases_ok_def)

lemma plan_moved:
  assumes inv: "join_inv spin enqueued ps n (mj_abs s)" and step: "plan_step ps n s s'"
    and moved: "piece_at s' i \<noteq> piece_at s i"
  shows "piece_at s i \<in> {P_Counted, P_Queued}" and "\<nexists>q. piece_at s' i = P_Arrive q"
proof -
  note prog = mj_prog [OF inv]
  have i: "i < length ps"
    using step moved prog by cases (auto simp: move_all_def split: if_splits)
  show "piece_at s i \<in> {P_Counted, P_Queued}"
    using step moved prog mj_phase(2) [OF inv i] by cases (auto simp: move_all_def split: if_splits)
  show "\<nexists>q. piece_at s' i = P_Arrive q"
    using step moved by cases (auto simp: move_all_def split: if_splits)
qed

lemma plan_frame:
  "plan_step ps n s s' \<Longrightarrow> jbar s' = jbar s \<and> joining s' = joining s"
  by (induction rule: plan_step.induct) simp_all

lemma plan_arrive:
  assumes "join_inv spin enqueued ps n (mj_abs s)" "plan_step ps n s s'"
  shows "piece_at s' i = P_Arrive q \<longleftrightarrow> piece_at s i = P_Arrive q"
  using plan_moved [OF assms, of i] by (cases "piece_at s' i = piece_at s i") auto

lemma plan_busy:
  assumes inv: "join_inv spin enqueued ps n (mj_abs s)" and step: "plan_step ps n s s'"
  shows "busy s' = busy s \<or> (\<exists>t i. busy s t = None \<and> (t = 0 \<longrightarrow> joining s = None) \<and>
    busy s' = (busy s)(t := Some i) \<and> piece_at s i \<in> {P_Counted, P_Queued})"
  using step
proof cases
  case (run_own i rest)
  then show ?thesis using mj_prog [OF inv] mj_phase(2) [OF inv, of i]
    by (intro disjI2 exI [of _ 0] exI [of _ i]) (simp add: caller_free_def)
next
  case (take_piece t i)
  then show ?thesis by (intro disjI2 exI [of _ t] exI [of _ i]) simp
next
  case (steal rest i)
  then show ?thesis by (intro disjI2 exI [of _ 0] exI [of _ i]) (simp add: caller_free_def)
qed simp_all

lemma plan_mj_at:
  assumes inv: "join_inv spin enqueued ps n (mj_abs s)" and step: "plan_step ps n s s'"
  shows "mj_at s' t = mj_at s t"
proof -
  note arr = plan_arrive [OF inv step]
  have phase: "(case piece_at s' i of P_Arrive q \<Rightarrow> q | _ \<Rightarrow> A_Left) = (case piece_at s i of P_Arrive q \<Rightarrow> q | _ \<Rightarrow> A_Left)" for i
  proof (cases "\<exists>q. piece_at s i = P_Arrive q")
    case True
    then obtain q where "piece_at s i = P_Arrive q" ..
    with arr [of i q] show ?thesis by simp
  next
    case False
    with arr [of i] show ?thesis by (auto split: piece_phase.splits)
  qed
  from plan_busy [OF inv step] show ?thesis
  proof (elim disjE exE conjE)
    fix u i assume new: "busy s u = None" "busy s' = (busy s)(u := Some i)" "piece_at s i \<in> {P_Counted, P_Queued}"
    then have "(case piece_at s i of P_Arrive q \<Rightarrow> q | _ \<Rightarrow> A_Left) = A_Left" by auto
    with new(1,2) show ?thesis by (simp add: mj_at_def plan_frame [OF step] phase split: option.splits)
  qed (simp add: mj_at_def plan_frame [OF step] phase split: option.splits)
qed

lemma plan_held:
  assumes inv: "join_inv spin enqueued ps n (mj_abs s)" and held: "pieces_held (length ps) n s" and step: "plan_step ps n s s'"
  shows "pieces_held (length ps) n s'"
  using plan_busy [OF inv step]
proof (elim disjE exE conjE)
  assume "busy s' = busy s"
  with held show ?thesis by (simp add: pieces_held_def plan_frame [OF step] plan_arrive [OF inv step])
next
  fix t i assume new: "busy s t = None" "t = 0 \<longrightarrow> joining s = None" "busy s' = (busy s)(t := Some i)"
    "piece_at s i \<in> {P_Counted, P_Queued}"
  have fresh: "busy s u \<noteq> Some i" for u
    using mj_busy(3) [OF inv, of u i] new(4) by auto
  show ?thesis
    unfolding pieces_held_def
  proof (intro conjI allI impI)
    show "u = v" if "busy s' u = Some k" "busy s' v = Some k" for u v k
      using that held fresh by (auto simp: new(3) pieces_held_def split: if_splits)
    show "busy s' 0 = None" if "joining s' \<noteq> None"
      using that held new(2) by (auto simp: new(3) pieces_held_def plan_frame [OF step])
    show "mon_arriver (g_spin_wait (fst (jbar s'))) q" if "k < length ps" "piece_at s' k = P_Arrive q" for k q
      using that held by (simp add: pieces_held_def plan_frame [OF step] plan_arrive [OF inv step])
    show "q = A_Left \<or> (\<exists>u\<le>n. busy s' u = Some k)" if k: "k < length ps" "piece_at s' k = P_Arrive q" for k q
    proof (cases "q = A_Left")
      case False
      with k held_by [OF held, of k q] obtain u where "u \<le> n" "busy s u = Some k"
        by (auto simp: plan_arrive [OF inv step])
      then have "busy s' u = Some k" using new(1) by (auto simp: new(3))
      with \<open>u \<le> n\<close> show ?thesis by blast
    qed simp
  qed
qed

lemma plan_frame_safe:
  assumes inv: "join_inv spin enqueued ps n (mj_abs s)" and safe: "frame_safe (length ps) s" and step: "plan_step ps n s s'"
  shows "frame_safe (length ps) s'"
proof -
  note arr = plan_arrive [OF inv step] and prog = mj_prog [OF inv]
  have "piece_at s i = P_Arrive A_Left \<or> busy s' 0 = Some i" if after: "after_join (ops s')" and i: "i < length ps" for i
    using step
  proof cases
    case (take_piece t k)
    with safe after i show ?thesis by (auto simp: frame_safe_def)
  qed (use prog safe after i in \<open>auto simp: frame_safe_def caller_free_def split: if_splits\<close>)
  then show ?thesis using safe by (simp add: frame_safe_def all_left_def arr plan_frame [OF step])
qed

context os_mutex begin

lemma mon_next_owned:
  assumes own: "mon_owned holder N m f" and t: "t < N" "f t = q"
    and nx: "mon_next debug api t b m q = Some (b', m', q')"
  shows "mon_owned holder N m' (f(t := q'))"
proof (cases "mon_holding q' = mon_holding q")
  case True
  moreover have "m' = m"
    using nx True by (cases q) (auto simp: on_mutex_def Let_def mon_holding_def split: verified.splits if_splits)
  ultimately show ?thesis using mon_owned_quiet [OF own] t(2) by simp
next
  case False
  note locking = mon_owned_lock [OF own t(1), where debug = debug and b' = b' and m' = m' and p' = q']
    and unlocking = mon_owned_unlock [OF own t(1), where debug = debug and b' = b' and m' = m' and p' = q']
  show ?thesis
    using nx False t(2) locking [of A_Decrement b] locking [of V_Test b] unlocking [of A_Left b]
      unlocking [of V_Asleep b] unlocking [of "V_Returned True" b]
    by (cases q) (auto simp: mon_holding_def Let_def split: if_splits)
qed

lemma mj_owned_step:
  assumes inv: "mj_inv holder spin enqueued ps n (s :: ('m, 'h::len word) mj_sys)" and step: "mj_step debug api ps n s s'"
  shows "mutex_owned holder mon_holding (Suc n) (snd (jbar s')) (mj_at s')"
proof -
  note own = mj_inv_owned [OF inv] and j = mj_inv_join [OF inv] and held = mj_inv_held [OF inv]
  have keep: ?thesis if "snd (jbar s') = snd (jbar s)" "\<And>t. mon_holding (mj_at s' t) = mon_holding (mj_at s t)"
    using mj_owned_cong [OF own, of "mj_at s'"] that by simp
  have joiner: "busy s 0 = None" if "joining s = Some q" for q using held_joiner [OF held that] .
  have quiet: "\<not> mon_holding A_Left" "\<not> mon_holding A_Enter" "\<not> mon_holding V_Locking" "\<not> mon_holding V_Asleep"
    "\<not> mon_holding (V_Poll x y)" "\<not> mon_holding (V_Returned r)" "mon_holding A_Unlock" "mon_holding A_Notify" for x y r
    by (simp_all add: mon_holding_def)
  note at_simps = mj_at_def quiet caller_free_def
  from step show ?thesis
  proof cases
    case plan
    then show ?thesis using plan_mj_at [OF j plan] by (intro keep) (simp_all add: plan_frame [OF plan])
  next
    case (add i rest ok b)
    have "i < length ps" "i \<in> set (adds (ops s))" using mj_prog [OF j] add(3) by simp_all
    then have "piece_at s i = P_Planned" using mj_phase(1) [OF j] by blast
    then show ?thesis by (intro keep) (auto simp: add(1) at_simps split: option.splits)
  next
    case (initialize k "is" rest)
    have "piece_at s i = P_Planned" if "i \<in> set is" for i
      using that mj_prog [OF j] mj_phase(1) [OF j, of i] initialize(3) by auto
    then show ?thesis by (intro keep) (auto simp: initialize(1) at_simps move_all_def split: option.splits)
  next
    case (run t i)
    then show ?thesis using held_inj [OF held run(2)]
      by (intro keep) (auto simp: at_simps split: option.splits)
  next
    case (notify t i)
    then show ?thesis using held_inj [OF held notify(2)]
      by (intro keep) (auto simp: at_simps split: option.splits)
  next
    case (arrive t i q b m q')
    have t: "t < Suc n" using mj_busy(1) [OF j arrive(2)] by simp
    have "mj_at s' = (mj_at s)(t := q')"
    proof
      fix u
      have awake: "t = 0 \<longrightarrow> joining s = None" by (rule impI, rule ccontr) (use joiner arrive(2) in auto)
      show "mj_at s' u = ((mj_at s)(t := q')) u"
      proof (cases "u = t")
        case True
        then show ?thesis using arrive(2) awake by (auto simp: mj_at_def arrive(1))
      next
        case False
        then have "busy s u \<noteq> Some i" using held_inj [OF held arrive(2)] by blast
        then show ?thesis using False by (simp add: mj_at_def arrive(1) split: option.splits)
      qed
    qed
    then show ?thesis
      using mon_next_owned [OF own t mj_at_busy [OF held arrive(2,3)] arrive(4)] by (simp add: arrive(1))
  next
    case (join_moves q b m q')
    have "mj_at s' = (mj_at s)(0 := q')"
      by (auto simp: fun_eq_iff mj_at_def join_moves(1) split: option.splits)
    then show ?thesis
      using mon_next_owned [OF own _ mj_at_joiner [OF join_moves(2)] join_moves(4)] by (simp add: join_moves(1))
  next
    case (waited r rest)
    then show ?thesis using joiner by (intro keep) (auto simp: at_simps split: option.splits)
  next
    case (spun stalled rest)
    then show ?thesis using joiner by (intro keep) (auto simp: at_simps split: option.splits)
  qed (intro keep; auto simp: at_simps split: option.splits)+
qed

end

lemma mj_bar_spin: "mon_next debug api t b m q = Some (b', m', q') \<Longrightarrow> g_spin_wait b' = g_spin_wait b"
  by (cases q) (auto simp: on_mutex_def Let_def split: verified.splits if_splits)

lemma mj_arriver_next:
  "mon_next debug api t b m q = Some (b', m', q') \<Longrightarrow> mon_arriver (g_spin_wait b) q \<Longrightarrow> mon_arriver (g_spin_wait b) q'"
  by (cases q) (auto simp: on_mutex_def Let_def split: verified.splits if_splits)

lemma mj_held_step:
  assumes inv: "mj_inv holder spin enqueued ps n (s :: ('m, 'h::len word) mj_sys)" and step: "mj_step debug api ps n s s'"
  shows "pieces_held (length ps) n s'"
proof -
  note j = mj_inv_join [OF inv] and held = mj_inv_held [OF inv]
  have keep: ?thesis
    if "busy s' = busy s" "g_spin_wait (fst (jbar s')) = g_spin_wait (fst (jbar s))" "joining s' \<noteq> None \<Longrightarrow> busy s 0 = None"
      "\<And>i q. i < length ps \<Longrightarrow> piece_at s' i = P_Arrive q \<Longrightarrow> piece_at s i = P_Arrive q \<or>
        mon_arriver (g_spin_wait (fst (jbar s))) q \<and> (\<exists>t. busy s t = Some i)"
    unfolding pieces_held_def that(1,2)
  proof (intro conjI allI impI)
    show "t = u" if "busy s t = Some i" "busy s u = Some i" for t u i using that by (rule held_inj [OF held])
    show "busy s 0 = None" if "joining s' \<noteq> None" by (rule \<open>joining s' \<noteq> None \<Longrightarrow> busy s 0 = None\<close> [OF that])
    show "mon_arriver (g_spin_wait (fst (jbar s))) q" "q = A_Left \<or> (\<exists>t\<le>n. busy s t = Some i)"
      if "i < length ps" "piece_at s' i = P_Arrive q" for i q
      using \<open>\<And>i q. i < length ps \<Longrightarrow> piece_at s' i = P_Arrive q \<Longrightarrow> _\<close> [OF that] held_arriver [OF held that(1)]
        held_by [OF held that(1)] mj_busy(1) [OF j] by blast+
  qed
  have joiner: "joining s \<noteq> None \<Longrightarrow> busy s 0 = None" using held_joiner [OF held] by auto
  from step show ?thesis
  proof cases
    case plan
    then show ?thesis by (rule plan_held [OF j held])
  next
    case (add i rest ok b)
    then show ?thesis using joiner by (intro keep)
      (auto simp: generic_add_expected_arrival_def overflow_checked_add_def split: if_splits)
  next
    case (initialize k "is" rest)
    then show ?thesis using joiner by (intro keep) (auto simp: generic_initialize_def move_all_def split: if_splits)
  next
    case (bulk_failed k rest)
    then show ?thesis using joiner by (intro keep) (auto simp: generic_initialize_def)
  next
    case (run t i)
    have "mon_arriver (g_spin_wait (fst (jbar s))) A_Enter" by simp
    with run show ?thesis using joiner by (intro keep) (auto split: if_splits)
  next
    case (arrive t i q b m q')
    have "mon_arriver (g_spin_wait (fst (jbar s))) q'"
      using mj_arriver_next [OF arrive(4)] held_arriver [OF held mj_busy(2) [OF j arrive(2)] arrive(3)] by simp
    then show ?thesis using arrive(1-3) joiner mj_bar_spin [OF arrive(4)] by (intro keep) (auto split: if_splits)
  next
    case (notify t i)
    have "mon_arriver (g_spin_wait (fst (jbar s))) A_Unlock"
      using held_arriver [OF held mj_busy(2) [OF j notify(2)] notify(3)] by simp
    then show ?thesis using notify joiner by (intro keep) (auto split: if_splits)
  next
    case (completed t i)
    have "busy s 0 = None" if "joining s \<noteq> None" by (rule joiner [OF that])
    show ?thesis
      unfolding pieces_held_def
    proof (intro conjI allI impI)
      show "u = v" if "busy s' u = Some k" "busy s' v = Some k" for u v k
        using that held_inj [OF held, of u k v] by (simp add: completed(1) split: if_splits)
      show "busy s' 0 = None" if "joining s' \<noteq> None" using that joiner by (simp add: completed(1))
      show "mon_arriver (g_spin_wait (fst (jbar s'))) q" if "k < length ps" "piece_at s' k = P_Arrive q" for k q
        using that held_arriver [OF held] by (simp add: completed(1))
      show "q = A_Left \<or> (\<exists>u\<le>n. busy s' u = Some k)" if k: "k < length ps" "piece_at s' k = P_Arrive q" for k q
      proof (cases "k = i \<or> q = A_Left")
        case False
        with k held_by [OF held k(1), of q] obtain u where u: "u \<le> n" "busy s u = Some k" by (auto simp: completed(1))
        with False completed(2) have "busy s' u = Some k" by (auto simp: completed(1))
        with u(1) show ?thesis by blast
      qed (use k completed(3) in \<open>auto simp: completed(1)\<close>)
    qed
  next
    case (join_moves q b m q')
    then show ?thesis using joiner mj_bar_spin [OF join_moves(4)] by (intro keep) auto
  qed (intro keep; use joiner in \<open>auto simp: caller_free_def\<close>)+
qed

text \<open>When the count is zero after the caller's work, every thread has left, unless it still holds the mutex.\<close>

lemma mj_zero_left:
  assumes inv: "mj_inv holder spin enqueued ps n (s :: ('m, 'h::len word) mj_sys)" and width: "LENGTH('h) \<le> 32"
    and zero: "g_counter (fst (jbar s)) = 0" and counted: "adds (ops s) = []" and i: "i < length ps"
    and free: "spin \<or> (joining s = Some V_Test)"
  shows "piece_at s i = P_Arrive A_Left"
proof -
  note j = mj_inv_join [OF inv] and held = mj_inv_held [OF inv]
  have "counter (jbar (mj_abs s)) = 0" using zero by simp
  then have out: "outstanding (map_piece_phase arriver_view (piece_at s i)) = 0"
    using counter_zero [of "length ps" "mj_abs s"] j i by (simp add: join_inv_def)
  have "piece_at s i \<noteq> P_Planned" using mj_phase(1) [OF j i] counted by simp
  with out obtain q where q1: "piece_at s i = P_Arrive q" "arriving (arriver_view q) = 0"
    by (cases "piece_at s i") auto
  then have q: "piece_at s i = P_Arrive q" "arriver_view q \<noteq> B_Arrive" by auto
  have arr: "mon_arriver spin q" using held_arriver [OF held i q(1)] by (simp add: mj_spin [OF j])
  show ?thesis
  proof (cases spin)
    case True
    with arr q show ?thesis by (cases q) auto
  next
    case False
    with free have test: "joining s = Some V_Test" by simp
    have "\<not> mon_holding q"
    proof
      assume h: "mon_holding q"
      then have "q \<noteq> A_Left" by (auto simp: mon_holding_def)
      with held_by [OF held i q(1)] obtain t where t: "t \<le> n" "busy s t = Some i" by blast
      have "mon_holding (mj_at s t)" using h mj_at_busy [OF held t(2) q(1)] by simp
      moreover have "mon_holding (mj_at s 0)" using mj_at_joiner [OF test] by (simp add: mon_holding_def)
      ultimately have "t = 0" using mutex_owned_unique [OF mj_inv_owned [OF inv], of 0 t] t(1) by simp
      with t(2) held_joiner [OF held test] show False by simp
    qed
    with arr q show ?thesis by (cases q) (auto simp: mon_holding_def)
  qed
qed

lemma mj_frame_step:
  assumes inv: "mj_inv holder spin enqueued ps n (s :: ('m, 'h::len word) mj_sys)" and width: "LENGTH('h) \<le> 32"
    and step: "mj_step debug api ps n s s'"
  shows "frame_safe (length ps) s'"
proof -
  note j = mj_inv_join [OF inv] and held = mj_inv_held [OF inv] and prog = mj_prog [OF mj_inv_join [OF inv]]
  have safe: "\<And>q i. joining s = Some q \<Longrightarrow> mon_over q \<Longrightarrow> i < length ps \<Longrightarrow> piece_at s i = P_Arrive A_Left"
    "\<And>i. after_join (ops s) \<Longrightarrow> i < length ps \<Longrightarrow> piece_at s i = P_Arrive A_Left \<or> busy s 0 = Some i"
    using mj_inv_frame [OF inv] by (auto simp: frame_safe_def all_left_def)
  have spins: "spin" if "Join_Spin \<in> set (ops s)" using that j by (simp add: join_inv_def joins_ok_def)
  have quiet: ?thesis
    if "\<And>q. joining s' = Some q \<Longrightarrow> mon_over q \<Longrightarrow> joining s = Some q" "after_join (ops s') \<Longrightarrow> after_join (ops s)" "busy s' = busy s"
      "\<And>i. i < length ps \<Longrightarrow> piece_at s' i \<noteq> piece_at s i \<Longrightarrow> piece_at s i \<noteq> P_Arrive A_Left"
    using that safe unfolding frame_safe_def all_left_def by metis
  have left: ?thesis
    if "\<And>i. i < length ps \<Longrightarrow> piece_at s i = P_Arrive A_Left" "piece_at s' = piece_at s"
    using that by (simp add: frame_safe_def all_left_def)
  from step show ?thesis
  proof cases
    case plan
    then show ?thesis by (rule plan_frame_safe [OF j mj_inv_frame [OF inv]])
  next
    case (add i rest ok b)
    have "i < length ps" "i \<in> set (adds (ops s))" using prog add(3) by simp_all
    then have "piece_at s i = P_Planned" using mj_phase(1) [OF j] by blast
    then show ?thesis using add prog by (intro quiet) (auto split: if_splits)
  next
    case (initialize k "is" rest)
    have "piece_at s i = P_Planned" if "i \<in> set is" for i
      using that prog mj_phase(1) [OF j, of i] initialize(3) by auto
    then show ?thesis using initialize prog by (intro quiet) (auto simp: move_all_def split: if_splits)
  next
    case (bulk_failed k rest)
    then show ?thesis using prog by (intro quiet) auto
  next
    case (run t i)
    then show ?thesis by (intro quiet) (auto split: if_splits)
  next
    case (arrive t i q b m q')
    have "q \<noteq> A_Left" using arrive(4) by auto
    with arrive(1-3) show ?thesis by (intro quiet) (auto split: if_splits)
  next
    case (notify t i)
    then show ?thesis by (intro quiet) (auto simp: mon_over_def split: if_splits)
  next
    case (completed t i)
    have "piece_at s k = P_Arrive A_Left \<or> busy s' 0 = Some k" if "after_join (ops s)" "k < length ps" for k
      using safe(2) [OF that] completed(2,3) by (cases "t = 0") (auto simp: completed(1))
    then show ?thesis using safe(1) by (simp add: frame_safe_def all_left_def completed(1))
  next
    case (join_wait rest)
    then show ?thesis by (intro quiet) (auto simp: mon_over_def)
  next
    case (join_done rest)
    have "g_counter (fst (jbar s)) = 0" using join_done(4) by (simp add: generic_everyone_arrived_def)
    moreover have "adds (ops s) = []" using prog join_done(3) by simp
    ultimately show ?thesis using mj_zero_left [OF inv width] spins join_done(1,3) by (intro left) simp_all
  next
    case (join_spin rest spin_count)
    then show ?thesis by (intro quiet) (auto simp: mon_over_def)
  next
    case (join_moves q b m q')
    have ops: "adds (ops s) = []" "ops s' = ops s" "\<not> after_join (ops s)"
      using mj_joiner [OF j width join_moves(2)] by (cases spin; auto simp: join_moves(1))+
    show ?thesis
    proof (cases "mon_over q'")
      case True
      show ?thesis
      proof (cases "mon_over q")
        case True
        then show ?thesis using safe(1) [OF join_moves(2)] join_moves(1) by (intro left) simp_all
      next
        case False
        have "g_counter (fst (jbar s)) = 0 \<and> (q = V_Test \<or> spin)"
          using True False join_moves(3,4) mj_joiner [OF j width join_moves(2)]
          by (cases q) (auto simp: on_mutex_def Let_def mon_over_def generic_everyone_arrived_def split: verified.splits if_splits)
        then show ?thesis using mj_zero_left [OF inv width _ ops(1)] join_moves(1,2) by (intro left) auto
      qed
    next
      case False
      with ops show ?thesis by (auto simp: frame_safe_def join_moves(1))
    qed
  next
    case spurious_wake
    then show ?thesis by (intro quiet) (auto simp: mon_over_def)
  next
    case (waited r rest)
    then show ?thesis using safe(1) [OF waited(2)] by (intro left) (simp_all add: mon_over_def)
  next
    case (spun stalled rest)
    then show ?thesis using safe(1) [OF spun(2)] by (intro left) (simp_all add: mon_over_def)
  qed
qed

section \<open>The spread refines the one over the futex barrier\<close>

lemma mj_abs_init:
  assumes "mj_init api b c sp s"
  shows "join_init b c sp (mj_abs s)"
proof -
  have "s = \<lparr>jbar = (\<lparr>g_counter = 0, g_spin_wait = \<not> runs_alone b c \<and> use_caller_thread b \<and> spin_join sp\<rparr>, os_init api),
      ops = spread_program b c sp, joining = None, piece_at = (\<lambda>_. P_Planned), busy = (\<lambda>_. None), iterations_ran = [],
      division = stealing_division c, asserts = True\<rparr>"
    using assms by (simp add: mj_init_def)
  then show ?thesis by (simp add: mj_abs_def join_init_def futex_view_def)
qed

context os_mutex begin

lemma mj_init_inv:
  fixes sp :: "'h::len word spread"
  assumes setting: "join_setting wake_everybody b c sp" and init: "mj_init api b c sp s"
  shows "mj_inv holder (joins_spinning b c sp) (succeeded sp) (all_pieces sp) n s"
proof -
  note j = join_init_inv [OF setting mj_abs_init [OF init], of n]
  have s: "joining s = None" "busy s = (\<lambda>_. None)" "piece_at s = (\<lambda>_. P_Planned)" "snd (jbar s) = os_init api"
    using init by (simp_all add: mj_init_def)
  have "mj_at s t = A_Left" for t using s by (simp add: mj_at_def)
  then have "mutex_owned holder mon_holding (Suc n) (snd (jbar s)) (mj_at s)"
    using os_init_free by (simp add: mutex_owned_def mon_holding_def s(4))
  moreover have "pieces_held (length (all_pieces sp)) n s" by (simp add: pieces_held_def s)
  moreover have "i \<in> set (adds (ops s))" if "i < length (all_pieces sp)" for i
    using mj_phase(1) [OF j that] s(3) by simp
  then have "after_join (ops s) \<longrightarrow> length (all_pieces sp) = 0"
    by (cases "ops s" rule: after_join.cases) (use mj_prog [OF j] in fastforce)+
  then have "frame_safe (length (all_pieces sp)) s" by (auto simp: frame_safe_def s)
  ultimately show ?thesis using j by (simp add: mj_inv_def)
qed

end

sublocale os_mutex \<subseteq> mj: refinement
  "\<lambda>s. join_setting wake_everybody b c (sp :: 'h::len word spread) \<and> mj_init api b c sp s"
  "mj_step debug api (all_pieces sp) n"
  "\<lambda>s. join_setting wake_everybody b c sp \<longrightarrow> mj_inv holder (joins_spinning b c sp) (succeeded sp) (all_pieces sp) n s"
  "join_init b c sp" "\<lambda>a a'. join_setting wake_everybody b c sp \<longrightarrow> join_step wake_everybody (all_pieces sp) n a a'" mj_abs
  for b c sp debug n
proof unfold_locales
  fix s s' :: "('m, 'h word) mj_sys"
  assume inv: "join_setting wake_everybody b c sp \<longrightarrow> mj_inv holder (joins_spinning b c sp) (succeeded sp) (all_pieces sp) n s"
    and step: "mj_step debug api (all_pieces sp) n s s'"
  have sim: "join_step wake_everybody (all_pieces sp) n (mj_abs s) (mj_abs s') \<or> mj_abs s' = mj_abs s"
    if "join_setting wake_everybody b c sp"
    using that inv mj_refines_step [OF _ _ _ step] by (auto simp: join_setting_def joinable_spread_def)
  then show "(join_setting wake_everybody b c sp \<longrightarrow> join_step wake_everybody (all_pieces sp) n (mj_abs s) (mj_abs s')) \<or> mj_abs s' = mj_abs s"
    by blast
  show "join_setting wake_everybody b c sp \<longrightarrow> mj_inv holder (joins_spinning b c sp) (succeeded sp) (all_pieces sp) n s'"
  proof
    assume set: "join_setting wake_everybody b c sp"
    then have w: "LENGTH('h) \<le> 32" "length (all_pieces sp) < 2 ^ LENGTH('h)" and i: "mj_inv holder (joins_spinning b c sp) (succeeded sp) (all_pieces sp) n s"
      using inv by (simp_all add: join_setting_def joinable_spread_def)
    have "join_inv (joins_spinning b c sp) (succeeded sp) (all_pieces sp) n (mj_abs s')"
      using sim [OF set] mj_inv_join [OF i] join_inv_step [OF wake_everybody(1) w(2,1)] by auto
    then show "mj_inv holder (joins_spinning b c sp) (succeeded sp) (all_pieces sp) n s'"
      using mj_owned_step [OF i step] mj_held_step [OF i step] mj_frame_step [OF i w(1) step] by (simp add: mj_inv_def)
  qed
qed (auto intro: mj_abs_init mj_init_inv)

context os_mutex begin

lemma mj_reach:
  fixes sp :: "'h::len word spread"
  assumes setting: "join_setting wake_everybody b c sp"
    and r: "reach (mj_init api b c sp) (mj_step debug api (all_pieces sp) n) s"
  shows "mj_inv holder (joins_spinning b c sp) (succeeded sp) (all_pieces sp) n s"
    and "reach (join_init b c sp) (join_step wake_everybody (all_pieces sp) n) (mj_abs s)"
proof -
  have "(\<lambda>s. join_setting wake_everybody b c sp \<and> mj_init api b c sp s) = mj_init api b c sp"
    "(\<lambda>a a'. join_setting wake_everybody b c sp \<longrightarrow> join_step wake_everybody (all_pieces sp) n a a')
      = join_step wake_everybody (all_pieces sp) n"
    using setting by (simp_all add: fun_eq_iff)
  with r mj.inv_reach [of b c sp debug n s] mj.reach_abs [of b c sp debug n s] setting
  show "mj_inv holder (joins_spinning b c sp) (succeeded sp) (all_pieces sp) n s"
    "reach (join_init b c sp) (join_step wake_everybody (all_pieces sp) n) (mj_abs s)" by simp_all
qed

text \<open>The end: nobody is in the barrier.\<close>

lemma mj_returned_free:
  assumes inv: "mj_inv holder spin enqueued ps n s" and r: "returned s"
  shows "all_left (length ps) s" "holder (snd (jbar s)) = None"
proof -
  have "ops s = []" "busy s 0 = None" and j: "joining s = None" using r by (simp_all add: returned_def caller_free_def)
  then show left: "all_left (length ps) s" using mj_inv_frame [OF inv] by (auto simp: frame_safe_def all_left_def)
  have "mj_at s t = A_Left" for t
  proof (cases "busy s t")
    case (Some i)
    then have "piece_at s i = P_Arrive A_Left"
      using left mj_busy(2) [OF mj_inv_join [OF inv] Some] by (simp add: all_left_def)
    then show ?thesis using j Some by (simp add: mj_at_def)
  qed (simp add: mj_at_def j)
  then have "holder (snd (jbar s)) \<noteq> Some t" for t
    using mj_inv_owned [OF inv] by (simp add: mutex_owned_def mon_holding_def)
  then show "holder (snd (jbar s)) = None" by (cases "holder (snd (jbar s))") auto
qed

end

section \<open>A run\<close>

text \<open>A worker that spreads five iterations while there is work in the shop: it runs them alone.\<close>

definition busy_worker :: "8 word spread_context" where
  "busy_worker = (idle_shop 3)\<lparr>items_in_shop := 1, on_worker := True\<rparr>"

definition alone_state :: "8 word caller_op list \<Rightarrow> mon_pc piece_phase \<Rightarrow> bool \<Rightarrow> 8 word \<Rightarrow> tid option \<Rightarrow> nat list
    \<Rightarrow> (tid option, 8 word) mj_sys" where
  "alone_state prog p running k m r = \<lparr>jbar = (\<lparr>g_counter = k, g_spin_wait = False\<rparr>, m), ops = prog, joining = None,
     piece_at = (\<lambda>_. P_Planned)(0 := p), busy = (\<lambda>_. None)(0 := if running then Some 0 else None), iterations_ran = r,
     division = stealing_division busy_worker, asserts = True\<rparr>"

lemma alone_spread:
  "spread_setting default_build busy_worker 1" "spread_work default_build busy_worker 5 1 = Some (caller_only 5)"
  "runs_alone default_build busy_worker"
  by (simp_all add: spread_setting_def default_build_def busy_worker_def idle_shop_def spread_work_def runs_alone_def
      spread_work_stealing_division_min_def spread_work_stealing_division_max_def)

lemma alone_run:
  "reach (mj_init errorcheck_mutex default_build busy_worker (caller_only 5))
     (mj_step True errorcheck_mutex (all_pieces (caller_only 5 :: 8 word spread)) 3)
     (alone_state [] (P_Arrive A_Left) False 0 None [0..<5])"
proof -
  let ?R = "reach (mj_init errorcheck_mutex default_build busy_worker (caller_only 5))
     (mj_step True errorcheck_mutex (all_pieces (caller_only 5 :: 8 word spread)) 3)"
  let ?step = "mj_step True errorcheck_mutex (all_pieces (caller_only 5 :: 8 word spread)) 3"
  note [simp] = alone_state_def errorcheck_mutex_def on_mutex_def posix_lock_def posix_unlock_def verify_def
    caller_free_def generic_add_expected_arrival_def overflow_checked_add_def
  have "mj_init errorcheck_mutex default_build busy_worker (caller_only 5)
      (alone_state [Add_Arrival 0, Run_Own 0] P_Planned False 0 None [])"
    using alone_spread(3)
    by (simp add: mj_init_def fun_upd_idem spread_program_def perform_caller_work_def caller_only_def)
  then have "?R (alone_state [Add_Arrival 0, Run_Own 0] P_Planned False 0 None [])" by (rule reach.start)
  moreover have "?step (alone_state [Add_Arrival 0, Run_Own 0] P_Planned False 0 None [])
      (alone_state [Run_Own 0] P_Counted False 1 None [])"
    using mj_step.add [of "alone_state [Add_Arrival 0, Run_Own 0] P_Planned False 0 None []" 0 "[Run_Own 0]" True
        "\<lparr>g_counter = 1, g_spin_wait = False\<rparr>"] by (simp add: word_greater_zero_iff)
  moreover have "?step (alone_state [Run_Own 0] P_Counted False 1 None []) (alone_state [] P_Running True 1 None [])"
    using mj_step.plan [OF plan_step.run_own [of "alone_state [Run_Own 0] P_Counted False 1 None []" 0 "[]"]]
    by simp
  moreover have "?step (alone_state [] P_Running True 1 None []) (alone_state [] (P_Arrive A_Enter) True 1 None [0..<5])"
    using mj_step.run [of "alone_state [] P_Running True 1 None []" 0 0 True errorcheck_mutex "all_pieces (caller_only 5 :: 8 word spread)" 3]
    by (simp add: caller_only_def all_pieces_def piece_iterations_def)
  moreover have "?step (alone_state [] (P_Arrive A_Enter) True 1 None [0..<5]) (alone_state [] (P_Arrive A_Locking) True 1 None [0..<5])"
    using mj_step.arrive [of "alone_state [] (P_Arrive A_Enter) True 1 None [0..<5]" 0 0 A_Enter True errorcheck_mutex
        "\<lparr>g_counter = 1, g_spin_wait = False\<rparr>" None A_Locking] by simp
  moreover have "?step (alone_state [] (P_Arrive A_Locking) True 1 None [0..<5]) (alone_state [] (P_Arrive A_Decrement) True 1 (Some 0) [0..<5])"
    using mj_step.arrive [of "alone_state [] (P_Arrive A_Locking) True 1 None [0..<5]" 0 0 A_Locking True errorcheck_mutex
        "\<lparr>g_counter = 1, g_spin_wait = False\<rparr>" "Some 0" A_Decrement] by simp
  moreover have "?step (alone_state [] (P_Arrive A_Decrement) True 1 (Some 0) [0..<5]) (alone_state [] (P_Arrive A_Notify) True 0 (Some 0) [0..<5])"
    using mj_step.arrive [of "alone_state [] (P_Arrive A_Decrement) True 1 (Some 0) [0..<5]" 0 0 A_Decrement True errorcheck_mutex
        "\<lparr>g_counter = 0, g_spin_wait = False\<rparr>" "Some 0" A_Notify] by simp
  moreover have "?step (alone_state [] (P_Arrive A_Notify) True 0 (Some 0) [0..<5]) (alone_state [] (P_Arrive A_Unlock) True 0 (Some 0) [0..<5])"
    using mj_step.notify [of "alone_state [] (P_Arrive A_Notify) True 0 (Some 0) [0..<5]" 0 0] by simp
  moreover have "?step (alone_state [] (P_Arrive A_Unlock) True 0 (Some 0) [0..<5]) (alone_state [] (P_Arrive A_Left) True 0 None [0..<5])"
    using mj_step.arrive [of "alone_state [] (P_Arrive A_Unlock) True 0 (Some 0) [0..<5]" 0 0 A_Unlock True errorcheck_mutex
        "\<lparr>g_counter = 0, g_spin_wait = False\<rparr>" None A_Left] by simp
  moreover have "?step (alone_state [] (P_Arrive A_Left) True 0 None [0..<5]) (alone_state [] (P_Arrive A_Left) False 0 None [0..<5])"
    using mj_step.completed [of "alone_state [] (P_Arrive A_Left) True 0 None [0..<5]" 0 0] by simp
  ultimately show ?thesis by (meson reach.move)
qed

section \<open>Theorems\<close>



end
