(* ===== verification/Spec2Isabelle.thy ===== *)
theory Spec2Isabelle
  imports Prelude Chunked Tracking Futex Semaphore CondvarSemaphore SpinLock Barrier RwMutex
    Future SpreadPlan Dispatch Shop ReadRecursion HwConcurrency Libuv
    Backends Thread Hmp RwBackends SpreadJoin FutureHandles Mutex Monitor RwGuards Platform Queue
    ThreadHandles ShopRun SharedPool RwSpec AsyncRun RrwSystem Condvar SemMonitor
    JoinMonitor
begin

text \<open>
  psi::sweater is a header-plus-sources C++ library for parallel loops (\<open>spread_the_sweat\<close>) and
  asynchronous calls (\<open>fire_and_forget\<close>, \<open>dispatch\<close>) on a pool of workers, over its own small
  threading layer psi::thrd_lite. This development models it from the words of the synchronization
  primitives up to the plans of the schedulers. All paths below are under src/include/psi/sweater/.

  \<^bold>\<open>The threading layer and its theories.\<close>
  \<^item> \<open>Futex\<close>: threading/futex.hpp and the four backends' system calls.
  \<^item> \<open>Semaphore\<close>: threading/futex_semaphore.cpp, and the counter it implements. \<open>CondvarSemaphore\<close>: the
    protocol of threading/generic_semaphore.cpp, and the POSIX wrapper. \<open>SemMonitor\<close>: that file call by call over the
    mutex and the condition variable.
  \<^item> \<open>SpinLock\<close>: threading/cpp/spin_lock.cpp and its checked counters. \<open>Mutex\<close>: threading/posix/mutex.hpp
    and threading/windows/mutex.hpp. \<open>Condvar\<close>: threading/posix/condvar.hpp and threading/windows/condvar.hpp.
  \<^item> \<open>Barrier\<close>: threading/futex_barrier.cpp and threading/generic_barrier.cpp. \<open>Monitor\<close>: the latter again,
    call by call over the mutex and the condition variable.
  \<^item> \<open>RwMutex\<close>: threading/futex_rw_mutex.hpp and .cpp. \<open>RwSpec\<close>: the book of readers and writers that it
    implements.
  \<^item> \<open>ReadRecursion\<close>: threading/read_recursion_registry.hpp and threading/rrw_mutex.hpp, for one thread.
    \<open>RrwSystem\<close>: the reentrant mutex as used by any number of threads.
  \<^item> \<open>RwBackends\<close>: threading/posix/rw_mutex.hpp and threading/windows/rw_mutex.hpp: the debug hooks, the kinds of
    lock, and one store of guards. \<open>RwGuards\<close>: threading/posix/rw_mutex.hpp over the system's lock, and the guards of
    threading/rw_mutex.hpp, of all threads.
  \<^item> \<open>Future\<close>: threading/future.hpp and threading/outcome_future.hpp: the slot and its two owners.
    \<open>FutureHandles\<close>: the same headers: the handles and their moves.
  \<^item> \<open>Thread\<close>: threading/thread.hpp: starting a thread, priorities, affinity masks. \<open>ThreadHandles\<close>: the same over
    posix/thread and windows/thread: what becomes of the threads.
  \<^item> \<open>HwConcurrency\<close>: threading/hardware_concurrency.cpp: container CPU limits. \<open>Platform\<close>:
    threading/hardware_concurrency.hpp and .cpp: limits, widths and counts per platform.

  \<^bold>\<open>The schedulers and their theories.\<close>
  \<^item> \<open>Chunked\<close>: spread_chunked.hpp and .cpp. \<open>Tracking\<close>: dispatch_tracking.hpp.
  \<^item> \<open>SpreadPlan\<close>: impls/generic.cpp: \<open>spread_work\<close> and \<open>dispatch_workers\<close>. \<open>Hmp\<close>: the branch for
    heterogeneous clusters. \<open>SpreadJoin\<close>: a spread as it runs, from the plan to the join. \<open>JoinMonitor\<close>: the same
    over the barrier of platforms without a futex.
  \<^item> \<open>Shop\<close>: impls/generic.cpp: the pool's creation, its thread argument, the target of fired work, the wake tree.
    \<open>ShopRun\<close>: the worker loop, the fire path and the shutdown at work. \<open>SharedPool\<close>: the same with one semaphore
    for all workers.
  \<^item> \<open>Queue\<close>: queues/mpmc_moodycamel.hpp and the loops of impls/generic.cpp over it.
  \<^item> \<open>Dispatch\<close>: impls/generic.hpp: the wrappers of fired work and the futures. \<open>AsyncRun\<close>: dispatched work
    from the call through the pool to the result.
  \<^item> \<open>Libuv\<close>: impls/libuv.hpp and .cpp. \<open>Backends\<close>: impls/windows.hpp, apple.hpp, openmp.hpp and
    single_threaded.hpp.

  \<open>Prelude\<close> holds what they share.

  \<^bold>\<open>How the model follows the code.\<close> \<open>iterations_t\<close> is a 32-bit word; \<open>hardware_concurrency_t\<close> is
  8 or 16 bits by platform, so its definitions are polymorphic in the width. Counters of
  primitives are words of the source's width, and conversions are written where the source has
  them. A sequential function is a HOL function; where C++ has undefined behaviour or a call that
  never returns the result is \<open>None\<close>. A concurrent primitive is a record of its shared words, a
  datatype of the points a thread can be at between two atomic accesses, a function \<open>..._next\<close> for the
  access a thread makes next, and an \<open>inductive\<close> step relation that interleaves any number of
  threads. \<open>Prelude.reach\<close> is reachability, and the locale \<open>invariant_system\<close> turns an
  inductive invariant into a fact about all reachable states; every machine interprets it. It has two
  extensions: \<open>refinement\<close>, for a machine that implements a smaller one, and \<open>draining_system\<close>, for one whose
  work comes to an end under every schedule. What is not under src/ is a parameter with a documented contract: the
  futex system calls (\<open>Futex.wakes_enough\<close>, \<open>Futex.wakes_targets\<close>), which the four backends satisfy, the system's
  mutex (\<open>Mutex.mutex_contract\<close>), condition variable (\<open>Condvar.condvar_contract\<close>) and reader-writer lock (\<open>RwGuards.rw_contract\<close>), and the third-party queue
  (\<open>Queue.mc_contract\<close>); the last four are records of calls, with a locale for what follows from the contract.

  \<^bold>\<open>How the parts interact.\<close> The semaphore, the barrier and the reader-writer mutex use the futex;
  the future uses it to block its reader. \<open>spread_work\<close> plans the slices of a parallel loop, counts
  them into a barrier and waits for it; the workers take slices from their queues and sleep on
  semaphores. \<open>SpreadJoin\<close> puts the plans of \<open>SpreadPlan\<close> and \<open>Hmp\<close> on the barrier of \<open>Barrier\<close>, \<open>JoinMonitor\<close> on that of
  \<open>Monitor\<close>.
  \<open>Monitor\<close> refines the barrier of \<open>Barrier\<close> whose critical sections are one step, \<open>SemMonitor\<close> the protocol of
  \<open>CondvarSemaphore\<close> likewise, and \<open>Queue\<close> refines the
  queues of \<open>ShopRun\<close>. \<open>RrwSystem\<close> puts the registries of \<open>ReadRecursion\<close> on the locks of \<open>RwGuards\<close>.
  \<open>AsyncRun\<close> puts the slots of \<open>Future\<close>, which \<open>Dispatch\<close> hands out, on the pools of \<open>ShopRun\<close> and
  \<open>SharedPool\<close>. \<open>Platform\<close> fits the pool that \<open>Shop\<close> starts into the capacity of its target. The backends
  that cut a loop into a fixed number of chunks use \<open>Chunked\<close>. Fired work is counted by \<open>Tracking\<close>. The last
  section of this theory states what follows from two parts together.

  \<^bold>\<open>What the lemmas show.\<close> Tilings: chunks, slices and plans cover each iteration once
  (\<open>Chunked\<close>, \<open>SpreadPlan\<close>, \<open>Hmp\<close>, \<open>Libuv\<close>, \<open>Backends\<close>). The spread as a whole: when it returns every
  iteration was run once and its frame is no longer used, and it can always be completed
  (\<open>SpreadJoin\<close>). The pool as a whole: every fired item is run once, the work comes to an end, dispatched work
  delivers, and a shutdown ends every worker (\<open>ShopRun\<close>, \<open>SharedPool\<close>, \<open>AsyncRun\<close>). Safety of the primitives: mutual
  exclusion, tokens never overdrawn, no early return of a barrier, no access to a freed slot. Absence of stranded threads:
  in a quiescent state nobody is parked who should not be. Accounting: counters return to their
  value on every path, a started thread is in an object, finished or lost, a hold of a mutex
  belongs to a guard or to an entry of a registry. Reference specifications: the registry of read holds implements a depth per
  mutex, the scan of /proc implements the tightest quota on a set of directories, the semaphore a counter, the
  reader-writer mutex a book of readers and writers. And the places
  where a width is too small or an error path is incomplete, proved on concrete values.

  \<^bold>\<open>Bounds.\<close> The number of threads of a primitive is bounded by what its counter can hold (stated in
  each theorem). Loops are total functions with a measure, except three with fuel: the poll of
  \<open>wait_until_idle\<close>, which is proved to return with any fuel above the round in which its condition holds, and
  the two drain loops of \<open>Queue\<close>, which are proved to end with any fuel above the number of items that are there.

  \<^bold>\<open>Not modelled.\<close> Memory orders: every atomic access is sequentially consistent here, so a missing
  fence would not be seen. The inside of the lock-free queue (moodycamel, a third-party package behind
  queues/mpmc_moodycamel.hpp), functionoid's callables, libuv's loop, GCD, the Windows pool and
  OpenMP's runtime are parameters or left out. Timeouts other than \<open>wait_until_idle\<close>'s, spinning
  pauses, tracing hooks (trace/) and the choice of compile-time configuration are left out. Fairness is
  not assumed, so termination of a wait is stated in one of three ways: no thread is parked in a state where the
  others have finished; from every reachable state a final one can be reached; or every schedule ends.
\<close>

section \<open>Across components\<close>

text \<open>Sixteen workers on a platform with an 8-bit \<open>hardware_concurrency_t\<close>, work splitting at its maximum.\<close>

definition sixteen_workers :: "8 word spread_context" where
  "sixteen_workers = (idle_shop 16)\<lparr>stealing_division := 16\<rparr>"


text \<open>Detection and pool together: on an 8-bit platform a machine of 256 processors gets a pool of
  255 workers by two wrap-arounds that cancel, and one of 257 processors gets no worker at all.\<close>

theorem pool_of_a_large_machine:
  "snd (shop_new default_build 0 (get_hardware_concurrency_max (- 1) 256 :: 8 word)) = 255 \<and>
   snd (shop_new default_build 0 (get_hardware_concurrency_max (- 1) 257 :: 8 word)) = 0"
  by (simp add: shop_new_def create_pool_def default_build_def get_hardware_concurrency_max_def)

text \<open>The clusters' plan and the join together.\<close>

lemma hmp_spread_joinable:
  fixes c :: "'h::len word spread_context"
  assumes "hmp_spread b c clusters n pic = Some sp" and "LENGTH('h) \<le> 32"
    and "exact_worker_selection b" "\<not> slow_thread_signals b" "items_in_shop c = 0"
    and "length (all_pieces sp) < 2 ^ LENGTH('h)"
  shows "joinable_spread b c sp"
proof -
  have "length (caller_pieces sp) \<le> 1" "shared_pieces sp = []"
    using assms(1) by (auto simp: hmp_spread_def length_caller Let_def split: option.splits if_splits)
  with assms show ?thesis by (simp add: joinable_spread_def runs_alone_def)
qed


definition hmp_demo :: "16 word spread" where
  "hmp_demo = the (hmp_spread default_build (idle_shop 5) big_little 100 1)"


end
